(* ===== verification/Prelude.thy ===== *)
theory Prelude
  imports Main "HOL-Library.Word"
begin

text \<open>
  Shared vocabulary of the development: the machine types of the C++ sources, the
  bounds of \<open>size_t\<close>, and the generic lemmas on lists, characters and searches that the
  component theories use. The collections \<open>codec_simps\<close>, \<open>wheel_simps\<close>, \<open>pool_simps\<close> and
  \<open>channel_simps\<close> gather the rewrite rules of one group of components each.
\<close>

unbundle bit_operations_syntax

type_synonym u8 = "8 word"
type_synonym u16 = "16 word"
type_synonym u32 = "32 word"
type_synonym u64 = "64 word"

text \<open>A byte buffer (\<open>BufferView\<close>, \<open>std::span<const uint8_t>\<close>, \<open>std::vector<std::byte>\<close>).\<close>

type_synonym bytes = "u8 list"

named_theorems codec_simps \<open>rewrite rules of the frame codecs\<close>
named_theorems wheel_simps \<open>rewrite rules of the timer wheel\<close>
named_theorems pool_simps \<open>rewrite rules of the slot pools\<close>
named_theorems channel_simps \<open>rewrite rules of the channels\<close>

section \<open>Searching\<close>

text \<open>
  \<open>find_index p xs\<close> is the least index whose element satisfies \<open>p\<close>: the meaning of
  \<open>memchr\<close>, \<open>std::string_view::find(char)\<close> and of the linear scans of the sources.
\<close>

fun find_index :: "('a \<Rightarrow> bool) \<Rightarrow> 'a list \<Rightarrow> nat option" where
  "find_index p [] = None"
| "find_index p (x # xs) = (if p x then Some 0 else map_option Suc (find_index p xs))"

lemma find_index_None [simp]: "find_index p xs = None \<longleftrightarrow> (\<forall>x \<in> set xs. \<not> p x)"
  by (induction xs) auto

lemma find_index_Some_iff:
  "find_index p xs = Some i \<longleftrightarrow> i < length xs \<and> p (xs ! i) \<and> (\<forall>j < i. \<not> p (xs ! j))"
proof (induction xs arbitrary: i)
  case Nil
  then show ?case by simp
next
  case (Cons x xs)
  then show ?case by (cases i) (auto simp: less_Suc_eq_0_disj)
qed

lemma find_index_Some_length: "find_index p xs = Some i \<Longrightarrow> i < length xs"
  by (simp add: find_index_Some_iff)

lemma find_append: "find P (xs @ ys) = (case find P xs of Some x \<Rightarrow> Some x | None \<Rightarrow> find P ys)"
  by (induction xs) auto

lemma find_map: "find P (map g xs) = map_option g (find (\<lambda>x. P (g x)) xs)"
  by (induction xs) auto

lemma find_index_append: "find_index p xs = Some i \<Longrightarrow> find_index p (xs @ ys) = Some i"
  by (auto simp: find_index_Some_iff nth_append)

lemma find_index_hit: "p x \<Longrightarrow> (\<forall>y \<in> set xs. \<not> p y) \<Longrightarrow> find_index p (xs @ x # ys) = Some (length xs)"
  by (induction xs) auto

section \<open>Lists\<close>

lemma take_drop_append_split: "n \<le> length xs \<Longrightarrow> take n xs @ drop n xs @ ys = xs @ ys"
  by simp

lemma nth_drop_0: "n < length xs \<Longrightarrow> drop n xs = xs ! n # drop (Suc n) xs"
  by (simp add: Cons_nth_drop_Suc)

lemma list_eq_nthI:
  "length xs = length ys \<Longrightarrow> (\<And>i. i < length xs \<Longrightarrow> xs ! i = ys ! i) \<Longrightarrow> xs = ys"
  by (simp add: nth_equalityI)

section \<open>Characters as code points\<close>

abbreviation code :: "char \<Rightarrow> nat" where
  "code \<equiv> of_char"

section \<open>Words\<close>

lemma unat_of_nat_small: "n < 2 ^ LENGTH('a) \<Longrightarrow> unat (of_nat n :: 'a::len word) = n"
  by (simp add: unsigned_of_nat take_bit_nat_eq_self)

lemma unat_pow2: "j < LENGTH('a) \<Longrightarrow> unat (2 ^ j :: 'a::len word) = 2 ^ j"
proof -
  assume "j < LENGTH('a)"
  then have "unat (of_nat (2 ^ j) :: 'a word) = 2 ^ j"
    by (intro unat_of_nat_small) simp
  then show ?thesis by simp
qed

text \<open>Clearing the low \<open>n\<close> bits rounds down to a multiple of \<open>2 ^ n\<close>.\<close>

lemma and_not_mask_unat: "unat (x AND NOT (mask n)) = unat (x :: 'a::len word) div 2 ^ n * 2 ^ n"
proof -
  have eq: "x AND NOT (mask n) = push_bit n (drop_bit n x)"
    by (rule bit_word_eqI) (auto simp: bit_simps)
  have le: "unat x div 2 ^ n * 2 ^ n < 2 ^ LENGTH('a)"
    by (metis div_times_less_eq_dividend le_less_trans unsigned_less)
  have "unat (push_bit n (drop_bit n x)) = take_bit LENGTH('a) (push_bit n (drop_bit n (unat x)))"
    by (simp only: unsigned_push_bit_eq unat_drop_bit_eq)
  also have "\<dots> = unat x div 2 ^ n * 2 ^ n"
    using le by (simp add: push_bit_eq_mult drop_bit_eq_div take_bit_nat_eq_self)
  finally show ?thesis by (simp only: eq)
qed

section \<open>Bits of small words\<close>

lemma and_masks:
  "w AND 0x3F = take_bit 6 (w :: 'a :: len word)" "w AND 0xF = take_bit 4 w" "w AND 3 = take_bit 2 w"
  by (simp_all add: take_bit_eq_mask mask_eq_exp_minus_1)

lemma mask7: "(0x7F :: 'a :: len word) = mask 7"
  by (simp add: mask_eq_exp_minus_1)

lemma mask8: "(0xFF :: 'a :: len word) = mask 8"
  by (simp add: mask_eq_exp_minus_1)

lemma bit7: "bit (0x80 :: int) n \<longleftrightarrow> n = 7"
proof -
  have "(0x80 :: int) = 2 ^ 7" by simp
  then show ?thesis by (simp only: bit_exp_iff possible_bit_def) auto
qed

lemma take_bit_small: "unat w < 2 ^ n \<Longrightarrow> take_bit n w = (w :: 'a :: len word)"
  by (simp add: word_unat_eq_iff unsigned_take_bit_eq take_bit_nat_eq_self)

lemma and_take_bit:
  assumes "take_bit n c = (c :: 'a :: len word)"
  shows "c AND m = c AND take_bit n m"
proof -
  have "i < n" if "bit c i" for i using that assms by (metis bit_take_bit_iff)
  then show ?thesis by (intro bit_word_eqI) (auto simp: bit_simps)
qed

lemma bit_u8: "bit (w :: u8) n \<Longrightarrow> n < 8"
  using bit_imp_le_length [of w n] by simp

lemma unat_u32_u8: "(\<And>n. bit (v :: u32) n = bit (u :: u8) n) \<Longrightarrow> unat v = unat u"
  by (rule bit_eqI) (simp add: bit_unsigned_iff)

lemma unat_of_char [simp]: "unat (of_char c :: u8) = code c"
proof -
  have "(of_char c :: u8) = of_nat (code c)" by (cases c) (simp add: of_char_def)
  then show ?thesis
    by (simp only: unsigned_of_nat) (simp add: take_bit_nat_eq_self nat_of_char_less_256)
qed

end
