(* ===== verification/Url.thy ===== *)
theory Url
  imports Prelude
begin

text \<open>
  Percent-encoding of URL components: \<open>url_decode\<close> and \<open>url_encode\<close> of
  \<open>include/qbuem/url.hpp\<close>. A \<open>char\<close> stands for one byte; \<open>code\<close> is its value as
  \<open>unsigned char\<close>. The index loops are recursions on the remaining input.
\<close>

section \<open>Model\<close>

definition hex_digit :: "char \<Rightarrow> int" where
  "hex_digit c =
     (let n = int (code c) in
      if 48 \<le> n \<and> n \<le> 57 then n - 48
      else if 65 \<le> n \<and> n \<le> 70 then n - 65 + 10
      else if 97 \<le> n \<and> n \<le> 102 then n - 97 + 10
      else - 1)"

text \<open>The loop reads \<open>encoded[i + 1]\<close> and \<open>encoded[i + 2]\<close> only when \<open>i + 2 < size\<close>.\<close>

function (sequential) url_decode :: "string \<Rightarrow> string" where
  "url_decode [] = []"
| "url_decode (c # rest) =
     (if c = CHR ''+'' then CHR '' '' # url_decode rest
      else if c = CHR ''%'' \<and> 2 \<le> length rest then
        (let hi = hex_digit (rest ! 0); lo = hex_digit (rest ! 1) in
         if 0 \<le> hi \<and> 0 \<le> lo then char_of (nat (push_bit 4 hi OR lo)) # url_decode (drop 2 rest)
         else c # url_decode rest)
      else c # url_decode rest)"
  by pat_completeness auto
termination
  by (relation "measure length") auto

definition kHex :: string where
  "kHex = ''0123456789ABCDEF''"

definition isalnum :: "char \<Rightarrow> bool" where
  "isalnum c \<longleftrightarrow>
     (let n = code c in
      (48 \<le> n \<and> n \<le> 57) \<or> (65 \<le> n \<and> n \<le> 90) \<or> (97 \<le> n \<and> n \<le> 122))"

definition unreserved :: "char \<Rightarrow> bool" where
  "unreserved c \<longleftrightarrow> isalnum c \<or> c = CHR ''-'' \<or> c = CHR ''_'' \<or> c = CHR ''.'' \<or> c = CHR ''~''"

fun url_encode :: "string \<Rightarrow> string" where
  "url_encode [] = []"
| "url_encode (c # rest) =
     (if unreserved c then c # url_encode rest
      else CHR ''%'' # kHex ! (drop_bit 4 (code c) AND 15) # kHex ! (code c AND 15)
             # url_encode rest)"

section \<open>Lemmas\<close>

lemma hex_digit_range: "- 1 \<le> hex_digit c \<and> hex_digit c < 16"
  by (auto simp: hex_digit_def Let_def)

lemma kHex_nibble: "n < 16 \<Longrightarrow> hex_digit (kHex ! n) = int n"
proof -
  have "\<forall>n \<in> set [0..<16]. hex_digit (kHex ! n) = int n"
    by (simp add: kHex_def hex_digit_def upt_rec numeral_eq_Suc)
  then show "n < 16 \<Longrightarrow> ?thesis" by simp
qed

lemma nibble_and_15: "n AND (15::nat) = n mod 16"
  using take_bit_eq_mask [of 4 n] by (simp add: take_bit_eq_mod mask_eq_exp_minus_1)

lemma high_nibble: "n < 256 \<Longrightarrow> drop_bit 4 n AND (15::nat) = n div 16"
  by (simp add: nibble_and_15 drop_bit_eq_div)

lemma nibble_join: "b < 16 \<Longrightarrow> push_bit 4 (int a) OR int b = int (16 * a + b)"
proof -
  assume "b < 16"
  then have "take_bit 4 (int b) = int b"
    by (simp add: take_bit_int_eq_self)
  then have "concat_bit 4 (int b) (int a) = push_bit 4 (int a) OR int b"
    by (simp add: concat_bit_def or.commute)
  moreover have "concat_bit 4 (int b) (int a) = int b + 16 * int a"
    using \<open>take_bit 4 (int b) = int b\<close> by (simp add: concat_bit_eq push_bit_eq_mult)
  ultimately show ?thesis by simp
qed

lemma unreserved_plain: "unreserved c \<Longrightarrow> c \<noteq> CHR ''+'' \<and> c \<noteq> CHR ''%''"
  by (auto simp: unreserved_def isalnum_def Let_def)

lemma url_decode_plain: "c \<noteq> CHR ''+'' \<Longrightarrow> c \<noteq> CHR ''%'' \<Longrightarrow> url_decode (c # s) = c # url_decode s"
  by simp

lemma url_decode_escape:
  "url_decode (CHR ''%'' # kHex ! (drop_bit 4 (code c) AND 15) # kHex ! (code c AND 15) # s)
     = c # url_decode s"
proof -
  have c: "code c < 256" by simp
  then have "code c div 16 < 16" by (simp add: less_mult_imp_div_less)
  then have hi: "hex_digit (kHex ! (drop_bit 4 (code c) AND 15)) = int (code c div 16)"
    using c by (simp add: high_nibble kHex_nibble del: of_char_of)
  have lo: "hex_digit (kHex ! (code c AND 15)) = int (code c mod 16)"
    by (simp add: nibble_and_15 kHex_nibble)
  have "push_bit 4 (int (code c div 16)) OR int (code c mod 16) = int (code c)"
    by (subst nibble_join) simp_all
  then show ?thesis by (simp add: hi lo)
qed

section \<open>Properties\<close>

text \<open>C18: decoding an encoded component gives back every byte of it, whatever the bytes.\<close>

theorem url_roundtrip: "url_decode (url_encode s) = s"
proof (induction s)
  case Nil
  then show ?case by simp
next
  case (Cons c s)
  show ?case
  proof (cases "unreserved c")
    case True
    with Cons show ?thesis using unreserved_plain [OF True] by simp
  next
    case False
    with Cons show ?thesis by (simp add: url_decode_escape del: url_decode.simps)
  qed
qed

lemma url_encode_length: "length s \<le> length (url_encode s) \<and> length (url_encode s) \<le> 3 * length s"
  by (induction s) auto

lemma url_decode_length: "length (url_decode s) \<le> length s"
proof (induction s rule: url_decode.induct)
  case 1
  then show ?case by simp
next
  case (2 c s)
  show ?case
  proof (cases "c = CHR ''%'' \<and> 2 \<le> length s \<and> 0 \<le> hex_digit (s ! 0) \<and> 0 \<le> hex_digit (s ! 1)")
    case True
    with 2 have "length (url_decode (drop 2 s)) \<le> length (drop 2 s)" by simp
    with True show ?thesis by simp
  next
    case False
    with 2 show ?thesis by (auto simp: Let_def)
  qed
qed

end
