(* ===== verification/Slot_Pool.thy ===== *)
theory Slot_Pool
  imports Prelude
begin

text \<open>
  The interface of a fixed-capacity slot pool, as its clients use it: \<open>TimerWheel\<close> takes
  the storage of its entries from a \<open>FixedPoolResource\<close>, and \<open>GenerationPool\<close> offers the same
  contract behind versioned handles. \<open>free_slots\<close> abstracts the free list to the list of the
  slots on it, first the one handed out next; \<open>all_slots\<close> is the fixed set of slots.
  The client lemmas, proved once here, say that whatever sequence of allocations and releases
  a client makes, it never holds a slot twice and the pool fails only when every slot is held.
\<close>

locale slot_pool =
  fixes alloc :: "'p \<Rightarrow> 's option \<times> 'p"
    and dealloc :: "'p \<Rightarrow> 's \<Rightarrow> 'p"
    and free_slots :: "'p \<Rightarrow> 's list"
    and all_slots :: "'p \<Rightarrow> 's set"
    and invar :: "'p \<Rightarrow> bool"
  assumes alloc_empty: "invar p \<Longrightarrow> free_slots p = [] \<Longrightarrow> alloc p = (None, p)"
    and alloc_slot: "invar p \<Longrightarrow> free_slots p = s # ss \<Longrightarrow>
          \<exists>q. alloc p = (Some s, q) \<and> free_slots q = ss \<and> all_slots q = all_slots p \<and> invar q"
    and dealloc_slot: "invar p \<Longrightarrow> s \<in> all_slots p \<Longrightarrow> s \<notin> set (free_slots p) \<Longrightarrow>
          free_slots (dealloc p s) = s # free_slots p \<and> all_slots (dealloc p s) = all_slots p
          \<and> invar (dealloc p s)"
    and free_distinct: "invar p \<Longrightarrow> distinct (free_slots p)"
    and free_subset: "invar p \<Longrightarrow> set (free_slots p) \<subseteq> all_slots p"
    and slots_finite: "invar p \<Longrightarrow> finite (all_slots p)"
begin

definition held_ok :: "'p \<Rightarrow> 's list \<Rightarrow> bool" where
  "held_ok p hs \<longleftrightarrow> invar p \<and> distinct hs \<and> set hs = all_slots p - set (free_slots p)"

lemma alloc_cases:
  assumes "invar p" and "alloc p = (r, q)"
  obtains (exhausted) "r = None" and "q = p" and "free_slots p = []"
  | (slot) s where "r = Some s" and "free_slots p = s # free_slots q"
      and "all_slots q = all_slots p" and "invar q"
proof (cases "free_slots p")
  case Nil
  with assms alloc_empty exhausted show ?thesis by auto
next
  case (Cons s ss)
  with assms alloc_slot [OF assms(1) Cons] slot show ?thesis by auto
qed

lemma alloc_fresh:
  assumes "held_ok p hs" and "alloc p = (Some s, q)"
  shows "s \<notin> set hs \<and> s \<in> all_slots p \<and> held_ok q (s # hs)"
proof -
  from assms have inv: "invar p" by (simp add: held_ok_def)
  from alloc_cases [OF inv assms(2)] have fs: "free_slots p = s # free_slots q"
    and sl: "all_slots q = all_slots p" and iq: "invar q" by auto
  from inv fs have d: "s \<notin> set (free_slots q)" and s: "s \<in> all_slots p"
    using free_distinct free_subset by fastforce+
  with assms(1) fs sl iq show ?thesis
    by (auto simp: held_ok_def)
qed

lemma alloc_fails_iff:
  assumes "held_ok p hs"
  shows "fst (alloc p) = None \<longleftrightarrow> set hs = all_slots p"
proof -
  from assms have inv: "invar p" by (simp add: held_ok_def)
  show ?thesis
  proof (cases "free_slots p")
    case Nil
    with assms inv show ?thesis by (simp add: held_ok_def alloc_empty)
  next
    case (Cons s ss)
    with alloc_slot [OF inv Cons] free_subset [OF inv] assms show ?thesis
      by (auto simp: held_ok_def)
  qed
qed

lemma dealloc_held:
  assumes "held_ok p hs" and "s \<in> set hs"
  shows "held_ok (dealloc p s) (remove1 s hs)"
  using assms dealloc_slot [of p s] by (auto simp: held_ok_def set_remove1_eq)

lemma dealloc_many:
  "held_ok p hs \<Longrightarrow> distinct xs \<Longrightarrow> set xs \<subseteq> set hs \<Longrightarrow>
     \<exists>hs'. held_ok (fold (\<lambda>s q. dealloc q s) xs p) hs' \<and> set hs' = set hs - set xs"
proof (induction xs arbitrary: p hs)
  case (Cons x xs)
  have d: "distinct hs" using Cons.prems by (simp add: held_ok_def)
  have "held_ok (dealloc p x) (remove1 x hs)" using dealloc_held Cons.prems by simp
  from Cons.IH [OF this] Cons.prems d show ?case by (auto simp: set_remove1_eq)
qed auto

lemma held_length: "held_ok p hs \<Longrightarrow> length hs + length (free_slots p) = card (all_slots p)"
proof -
  assume h: "held_ok p hs"
  then have "card (set hs) = card (all_slots p) - card (set (free_slots p))"
    using free_subset slots_finite by (auto simp: held_ok_def card_Diff_subset)
  moreover have "card (set (free_slots p)) \<le> card (all_slots p)"
    using h free_subset slots_finite by (auto simp: held_ok_def intro: card_mono)
  moreover have "distinct hs" using h by (simp add: held_ok_def)
  then have "length hs = card (set hs)" by (simp add: distinct_card)
  moreover have "length (free_slots p) = card (set (free_slots p))"
    using h free_distinct by (auto simp: held_ok_def intro!: distinct_card [symmetric])
  ultimately show ?thesis by simp
qed

end

end
