(* ===== verification/Fixed_Pool.thy ===== *)
theory Fixed_Pool
  imports Slot_Pool
begin

text \<open>
  \<open>FixedPoolResource<ObjectSize, Alignment>\<close> of \<open>include/qbuem/core/arena.hpp\<close>: an array of
  \<open>capacity\<close> slots of \<open>kSlotSize\<close> bytes whose free slots are linked through a pointer stored
  in their own first bytes. Addresses are natural numbers, \<open>cells\<close> is the pointer word at the
  start of each slot (what a client stores in a slot it holds may change it), and a null
  pointer is \<open>None\<close>.
\<close>

section \<open>Model\<close>

type_synonym addr = nat

definition kSlotSize :: "u64 \<Rightarrow> u64 \<Rightarrow> u64" where
  "kSlotSize objectSize alignment = (objectSize + alignment - 1) AND NOT (alignment - 1)"

record fixed_pool =
  fp_capacity :: nat
  fp_used :: nat
  free_list :: "addr option"
  storage :: addr
  slot_size :: nat
  cells :: "addr \<Rightarrow> addr option"

definition slot_addr :: "addr \<Rightarrow> nat \<Rightarrow> nat \<Rightarrow> addr" where
  "slot_addr base k i = base + i * k"

text \<open>The loop of the constructor that links slot \<open>i\<close> to slot \<open>i + 1\<close>.\<close>

fun link_slots :: "addr \<Rightarrow> nat \<Rightarrow> nat \<Rightarrow> nat \<Rightarrow> (addr \<Rightarrow> addr option) \<Rightarrow> (addr \<Rightarrow> addr option)" where
  "link_slots base k i 0 m = m"
| "link_slots base k i (Suc n) m =
     link_slots base k (Suc i) n (m(slot_addr base k i := Some (slot_addr base k (Suc i))))"

text \<open>
  The constructor. With capacity 0 the write to \<open>storage + (capacity - 1) * kSlotSize\<close> is outside
  the allocation: \<open>None\<close>. The initial contents of the storage are arbitrary (\<open>m\<close>).
\<close>

definition FixedPoolResource ::
  "u64 \<Rightarrow> u64 \<Rightarrow> addr \<Rightarrow> (addr \<Rightarrow> addr option) \<Rightarrow> nat \<Rightarrow> fixed_pool option" where
  "FixedPoolResource objectSize alignment base m capacity =
     (let k = unat (kSlotSize objectSize alignment) in
      if capacity = 0 then None
      else Some \<lparr> fp_capacity = capacity, fp_used = 0, free_list = Some base, storage = base,
             slot_size = k,
             cells = (link_slots base k 0 (capacity - 1) m)
                       (slot_addr base k (capacity - 1) := None) \<rparr>)"

definition allocate :: "fixed_pool \<Rightarrow> addr option \<times> fixed_pool" where
  "allocate p =
     (case free_list p of
        None \<Rightarrow> (None, p)
      | Some slot \<Rightarrow>
          (Some slot, p\<lparr>free_list := cells p slot, fp_used := fp_used p + 1\<rparr>))"

definition deallocate :: "fixed_pool \<Rightarrow> addr \<Rightarrow> fixed_pool" where
  "deallocate p ptr =
     p\<lparr>cells := (cells p)(ptr := free_list p), free_list := Some ptr, fp_used := fp_used p - 1\<rparr>"

definition available :: "fixed_pool \<Rightarrow> nat" where
  "available p = fp_capacity p - fp_used p"

text \<open>What a client does to the bytes of a slot it holds.\<close>

definition client_write :: "fixed_pool \<Rightarrow> addr \<Rightarrow> addr option \<Rightarrow> fixed_pool" where
  "client_write p a v = p\<lparr>cells := (cells p)(a := v)\<rparr>"

section \<open>Free-list abstraction and invariant\<close>

fun chain :: "(addr \<Rightarrow> addr option) \<Rightarrow> addr option \<Rightarrow> addr list \<Rightarrow> bool" where
  "chain m h [] \<longleftrightarrow> h = None"
| "chain m h (a # as) \<longleftrightarrow> h = Some a \<and> chain m (m a) as"

fun walk :: "nat \<Rightarrow> (addr \<Rightarrow> addr option) \<Rightarrow> addr option \<Rightarrow> addr list" where
  "walk 0 m h = []"
| "walk (Suc n) m h = (case h of None \<Rightarrow> [] | Some a \<Rightarrow> a # walk n m (m a))"

definition free_addrs :: "fixed_pool \<Rightarrow> addr list" where
  "free_addrs p = walk (fp_capacity p) (cells p) (free_list p)"

definition slot_addrs :: "fixed_pool \<Rightarrow> addr set" where
  "slot_addrs p = slot_addr (storage p) (slot_size p) ` {..<fp_capacity p}"

definition pool_inv :: "fixed_pool \<Rightarrow> bool" where
  "pool_inv p \<longleftrightarrow> 0 < slot_size p \<and>
     chain (cells p) (free_list p) (free_addrs p) \<and> distinct (free_addrs p)
     \<and> set (free_addrs p) \<subseteq> slot_addrs p
     \<and> fp_used p + length (free_addrs p) = fp_capacity p"

lemma walk_chain: "chain m h as \<Longrightarrow> length as \<le> n \<Longrightarrow> walk n m h = as"
proof (induction as arbitrary: n h)
  case Nil
  then show ?case by (cases n) auto
next
  case (Cons a as)
  then obtain k where "n = Suc k" by (cases n) auto
  with Cons show ?case by auto
qed

lemma chain_cong: "chain m h as \<Longrightarrow> (\<And>a. a \<in> set as \<Longrightarrow> m a = m' a) \<Longrightarrow> chain m' h as"
  by (induction as arbitrary: h) auto

lemma pool_invI:
  assumes "0 < slot_size p" "chain (cells p) (free_list p) as" "distinct as" "set as \<subseteq> slot_addrs p"
    and "fp_used p + length as = fp_capacity p"
  shows "pool_inv p" and "free_addrs p = as"
proof -
  from assms(2,5) show "free_addrs p = as"
    by (simp add: free_addrs_def walk_chain)
  with assms show "pool_inv p" by (simp add: pool_inv_def)
qed

lemma allocate_empty: "pool_inv p \<Longrightarrow> free_addrs p = [] \<Longrightarrow> allocate p = (None, p)"
  by (simp add: pool_inv_def allocate_def)

lemma allocate_slot:
  assumes inv: "pool_inv p" and fa: "free_addrs p = a # as"
  shows "\<exists>q. allocate p = (Some a, q) \<and> free_addrs q = as \<and> slot_addrs q = slot_addrs p \<and> pool_inv q"
proof -
  define q where "q = p\<lparr>free_list := cells p a, fp_used := fp_used p + 1\<rparr>"
  from inv fa have h: "free_list p = Some a" and c: "chain (cells q) (free_list q) as"
    by (auto simp: pool_inv_def q_def)
  then have "allocate p = (Some a, q)" by (simp add: allocate_def q_def)
  moreover have "slot_addrs q = slot_addrs p" by (simp add: slot_addrs_def q_def)
  moreover have "pool_inv q \<and> free_addrs q = as"
    using inv fa c \<open>slot_addrs q = slot_addrs p\<close> pool_invI [of q as]
    by (auto simp: pool_inv_def q_def)
  ultimately show ?thesis by blast
qed

lemma deallocate_slot:
  assumes inv: "pool_inv p" and a: "a \<in> slot_addrs p" "a \<notin> set (free_addrs p)"
  shows "free_addrs (deallocate p a) = a # free_addrs p
    \<and> slot_addrs (deallocate p a) = slot_addrs p \<and> pool_inv (deallocate p a)"
proof -
  let ?q = "deallocate p a"
  have sl: "slot_addrs ?q = slot_addrs p" by (simp add: slot_addrs_def deallocate_def)
  have "chain (cells ?q) (free_list p) (free_addrs p)"
    using inv a by (auto simp: pool_inv_def deallocate_def intro: chain_cong)
  then have c: "chain (cells ?q) (free_list ?q) (a # free_addrs p)"
    by (simp add: deallocate_def)
  have "card (set (a # free_addrs p)) \<le> card (slot_addrs p)"
    using inv a by (intro card_mono) (auto simp: pool_inv_def slot_addrs_def)
  also have "\<dots> \<le> fp_capacity p"
    unfolding slot_addrs_def by (metis card_image_le card_lessThan finite_lessThan)
  finally have "0 < fp_used p"
    using inv a by (auto simp: pool_inv_def distinct_card)
  then have "pool_inv ?q \<and> free_addrs ?q = a # free_addrs p"
    using inv a c sl pool_invI [of ?q "a # free_addrs p"]
    by (auto simp: pool_inv_def deallocate_def)
  with sl show ?thesis by simp
qed

interpretation fixed: slot_pool allocate deallocate free_addrs slot_addrs pool_inv
proof unfold_locales
  fix p :: fixed_pool
  assume "pool_inv p"
  then show "distinct (free_addrs p)" and "set (free_addrs p) \<subseteq> slot_addrs p"
    by (simp_all add: pool_inv_def)
  show "finite (slot_addrs p)" by (simp add: slot_addrs_def)
qed (simp_all add: allocate_empty allocate_slot deallocate_slot)

lemma client_write_held:
  "fixed.held_ok p hs \<Longrightarrow> a \<in> set hs \<Longrightarrow> fixed.held_ok (client_write p a v) hs"
proof -
  assume h: "fixed.held_ok p hs" and a: "a \<in> set hs"
  let ?q = "client_write p a v"
  from h a have "chain (cells ?q) (free_list ?q) (free_addrs p)"
    by (auto simp: fixed.held_ok_def pool_inv_def client_write_def intro: chain_cong)
  then have "pool_inv ?q \<and> free_addrs ?q = free_addrs p"
    using h pool_invI [of ?q "free_addrs p"]
    by (auto simp: fixed.held_ok_def pool_inv_def client_write_def slot_addrs_def)
  with h show ?thesis
    by (simp add: fixed.held_ok_def client_write_def slot_addrs_def)
qed

lemma link_slots_other:
  "(\<And>j. i \<le> j \<Longrightarrow> j < i + n \<Longrightarrow> a \<noteq> slot_addr base k j) \<Longrightarrow> link_slots base k i n m a = m a"
  by (induction n arbitrary: i m) auto

lemma slot_addr_inj: "0 < k \<Longrightarrow> slot_addr base k i = slot_addr base k j \<longleftrightarrow> i = j"
  by (simp add: slot_addr_def)

lemma link_slots_at:
  "0 < k \<Longrightarrow> i \<le> j \<Longrightarrow> j < i + n \<Longrightarrow>
     link_slots base k i n m (slot_addr base k j) = Some (slot_addr base k (Suc j))"
proof (induction n arbitrary: i m)
  case 0
  then show ?case by simp
next
  case (Suc n)
  then show ?case
    by (cases "i = j") (auto simp: link_slots_other slot_addr_inj)
qed

lemma init_chain:
  assumes "0 < k" and "i + n = capacity - 1"
    and "\<And>j. i \<le> j \<Longrightarrow> j < capacity - 1 \<Longrightarrow> m (slot_addr base k j) = Some (slot_addr base k (Suc j))"
    and "m (slot_addr base k (capacity - 1)) = None"
  shows "chain m (Some (slot_addr base k i)) (map (slot_addr base k) [i..<i + Suc n])"
  using assms
proof (induction n arbitrary: i)
  case 0
  then show ?case by simp
next
  case (Suc n)
  from Suc.prems have "chain m (Some (slot_addr base k (Suc i)))
      (map (slot_addr base k) [Suc i..<Suc i + Suc n])"
    by (intro Suc.IH) auto
  with Suc.prems show ?case
    by (subst upt_conv_Cons) auto
qed

lemma init_held:
  assumes "FixedPoolResource objectSize alignment base m capacity = Some p"
    and "0 < kSlotSize objectSize alignment"
  shows "fixed.held_ok p [] \<and> fp_capacity p = capacity \<and> card (slot_addrs p) = capacity"
proof -
  define k where "k = unat (kSlotSize objectSize alignment)"
  from assms(2) have k: "0 < k" by (simp add: k_def unat_gt_0 word_gt_0)
  from assms(1) have cap: "0 < capacity"
    and p: "p = \<lparr> fp_capacity = capacity, fp_used = 0, free_list = Some base, storage = base,
      slot_size = k, cells = (link_slots base k 0 (capacity - 1) m)
        (slot_addr base k (capacity - 1) := None) \<rparr>"
    by (auto simp: FixedPoolResource_def Let_def k_def split: if_splits)
  let ?as = "map (slot_addr base k) [0..<capacity]"
  have "chain (cells p) (Some (slot_addr base k 0)) (map (slot_addr base k) [0..<0 + Suc (capacity - 1)])"
    using k by (intro init_chain) (auto simp: p slot_addr_inj link_slots_at)
  then have c: "chain (cells p) (free_list p) ?as"
    using cap by (simp add: p slot_addr_def)
  have d: "distinct ?as" using k by (auto simp: distinct_map inj_on_def slot_addr_inj)
  have sl: "slot_addrs p = set ?as" by (auto simp: p slot_addrs_def atLeast0LessThan)
  have "pool_inv p \<and> free_addrs p = ?as"
    using pool_invI [of p ?as] c d sl k by (simp add: p)
  moreover have "card (slot_addrs p) = capacity"
    using d sl by (metis distinct_card length_map length_upt minus_nat.diff_0)
  ultimately show ?thesis using sl by (simp add: fixed.held_ok_def p)
qed

section \<open>Slot layout\<close>

lemma kSlotSize_unat:
  assumes "alignment = 2 ^ j" and "j < 64" and "unat objectSize + unat alignment \<le> 2 ^ 64"
  shows "unat (kSlotSize objectSize alignment)
    = (unat objectSize + unat alignment - 1) div unat alignment * unat alignment"
proof -
  from assms(1,2) have al: "unat alignment = 2 ^ j" by (simp add: unat_pow2)
  then have pos: "0 < unat alignment" by simp
  have m: "alignment - 1 = mask j" using assms(1) by (simp add: mask_eq_exp_minus_1)
  have "objectSize + alignment - 1 = of_nat (unat objectSize + unat alignment - 1)"
    using pos by (simp add: of_nat_diff add.commute)
  moreover have "unat (of_nat (unat objectSize + unat alignment - 1) :: u64)
      = unat objectSize + unat alignment - 1"
    using assms(3) pos by (intro unat_of_nat_small) simp
  ultimately have "unat (objectSize + alignment - 1) = unat objectSize + unat alignment - 1"
    by (simp only:)
  then show ?thesis
    by (simp add: kSlotSize_def m and_not_mask_unat al)
qed

lemma kSlotSize_bounds:
  assumes "alignment = 2 ^ j" and "j < 64" and "unat objectSize + unat alignment \<le> 2 ^ 64"
  shows "unat objectSize \<le> unat (kSlotSize objectSize alignment)
    \<and> unat alignment dvd unat (kSlotSize objectSize alignment)"
proof -
  let ?o = "unat objectSize" and ?a = "unat alignment"
  from assms(1,2) have "0 < ?a" by (simp add: unat_pow2)
  then have "?o + ?a - 1 < (?o + ?a - 1) div ?a * ?a + ?a"
    using dividend_less_div_times [of ?a "?o + ?a - 1"] by (simp add: add.commute)
  then have "?o \<le> (?o + ?a - 1) div ?a * ?a" by linarith
  then show ?thesis using kSlotSize_unat [OF assms] by simp
qed

section \<open>Any client\<close>

text \<open>
  A client takes slots, returns slots it holds, and writes into slots it holds. Returning or
  writing a slot it does not hold is outside the contract of \<open>deallocate\<close>: \<open>None\<close>.
\<close>

datatype pool_op = Take | Return addr | Scribble addr "addr option"

fun pool_run :: "fixed_pool \<times> addr list \<Rightarrow> pool_op list \<Rightarrow> (fixed_pool \<times> addr list) option" where
  "pool_run (p, hs) [] = Some (p, hs)"
| "pool_run (p, hs) (Take # ops) =
     (case allocate p of (None, q) \<Rightarrow> pool_run (q, hs) ops
      | (Some a, q) \<Rightarrow> pool_run (q, a # hs) ops)"
| "pool_run (p, hs) (Return a # ops) =
     (if a \<in> set hs then pool_run (deallocate p a, remove1 a hs) ops else None)"
| "pool_run (p, hs) (Scribble a v # ops) =
     (if a \<in> set hs then pool_run (client_write p a v, hs) ops else None)"

lemma slot_addrs_ops [pool_simps]:
  "slot_addrs (deallocate p a) = slot_addrs p" "slot_addrs (client_write p a v) = slot_addrs p"
  "slot_addrs (snd (allocate p)) = slot_addrs p"
  by (auto simp: slot_addrs_def deallocate_def client_write_def allocate_def split: option.splits)

lemma pool_layout_ops [pool_simps]:
  "fp_capacity (deallocate p a) = fp_capacity p" "fp_capacity (client_write p a v) = fp_capacity p"
  "fp_capacity (snd (allocate p)) = fp_capacity p"
  by (auto simp: deallocate_def client_write_def allocate_def split: option.splits)

lemma pool_run_held:
  "fixed.held_ok p hs \<Longrightarrow> pool_run (p, hs) ops = Some (q, ks) \<Longrightarrow>
     fixed.held_ok q ks \<and> slot_addrs q = slot_addrs p \<and> fp_capacity q = fp_capacity p"
proof (induction "(p, hs)" ops arbitrary: p hs rule: pool_run.induct)
  case (2 p hs ops)
  obtain r q' where al: "allocate p = (r, q')" by (cases "allocate p")
  then have fr: "slot_addrs q' = slot_addrs p" "fp_capacity q' = fp_capacity p"
    using pool_simps by (metis snd_conv)+
  show ?case
  proof (cases r)
    case None
    with al have "q' = p" by (auto simp: allocate_def split: option.splits)
    with 2 al None show ?thesis by auto
  next
    case (Some a)
    with 2 al fixed.alloc_fresh [OF "2.prems"(1)] fr show ?thesis by auto
  qed
next
  case (3 p hs a ops)
  then show ?case using fixed.dealloc_held by (auto simp: pool_simps split: if_splits)
next
  case (4 p hs a v ops)
  then show ?case using client_write_held by (auto simp: pool_simps split: if_splits)
qed simp

section \<open>Properties\<close>

text \<open>C19: from a fresh pool, after any sequence of allocations, releases and writes by a client
  that only touches slots it holds: no slot is held twice, \<open>used()\<close> is the number of slots held,
  \<open>allocate()\<close> returns null exactly when all \<open>capacity\<close> slots are held, every held slot lies
  inside the storage and is aligned, and the object bytes of two different slots never overlap.\<close>

theorem fixed_pool_safe:
  assumes "FixedPoolResource objectSize alignment base m capacity = Some p"
    and "alignment = 2 ^ j" and "j < 64" and "0 < unat objectSize"
    and "unat objectSize + unat alignment \<le> 2 ^ 64" and "unat alignment dvd base"
    and "pool_run (p, []) ops = Some (q, hs)"
  shows "distinct hs \<and> fp_used q = length hs \<and> (fst (allocate q) = None \<longleftrightarrow> length hs = capacity)
    \<and> (\<forall>a \<in> set hs. base \<le> a \<and> unat alignment dvd a
          \<and> a + unat objectSize \<le> base + capacity * unat (kSlotSize objectSize alignment))
    \<and> (\<forall>a \<in> set hs. \<forall>b \<in> set hs. a < b \<longrightarrow> a + unat objectSize \<le> b)"
proof -
  let ?k = "unat (kSlotSize objectSize alignment)"
  note kb = kSlotSize_bounds [OF assms(2,3,5)]
  with assms(4) have k: "0 < kSlotSize objectSize alignment"
    by (metis gr_zeroI le_zero_eq less_numeral_extra(3) unat_0 word_gt_0)
  from init_held [OF assms(1) k] have h0: "fixed.held_ok p []" and cap: "fp_capacity p = capacity"
    and card: "card (slot_addrs p) = capacity" by auto
  from pool_run_held [OF h0 assms(7)] have h: "fixed.held_ok q hs"
    and sl: "slot_addrs q = slot_addrs p" and cq: "fp_capacity q = capacity" by (auto simp: cap)
  have len: "length hs + length (free_addrs q) = capacity"
    using fixed.held_length [OF h] sl card by simp
  have used: "fp_used q = length hs"
    using h len cq by (auto simp: fixed.held_ok_def pool_inv_def)
  have fails: "fst (allocate q) = None \<longleftrightarrow> length hs = capacity"
  proof -
    have "fst (allocate q) = None \<longleftrightarrow> free_addrs q = []"
      using h fixed.alloc_empty [of q] fixed.alloc_slot [of q]
      by (cases "free_addrs q") (auto simp: fixed.held_ok_def)
    then show ?thesis using len by auto
  qed
  have "slot_addrs p = slot_addr base ?k ` {..<capacity}"
    using assms(1) by (auto simp: FixedPoolResource_def Let_def slot_addrs_def split: if_splits)
  with h sl have sub: "set hs \<subseteq> slot_addr base ?k ` {..<capacity}"
    by (auto simp: fixed.held_ok_def)
  have place: "base \<le> a \<and> unat alignment dvd a \<and> a + unat objectSize \<le> base + capacity * ?k"
    if "a \<in> set hs" for a
  proof -
    from sub that obtain i where i: "i < capacity" and a: "a = base + i * ?k"
      by (auto simp: slot_addr_def)
    from i have "i * ?k + ?k \<le> capacity * ?k"
      by (metis Suc_leI add.commute mult_Suc mult_le_mono1)
    then show ?thesis using a kb assms(6) by (auto intro!: dvd_add dvd_mult)
  qed
  have apart: "a + unat objectSize \<le> b" if "a \<in> set hs" "b \<in> set hs" "a < b" for a b
  proof -
    from sub that(1) obtain i where "a = base + i * ?k" by (auto simp: slot_addr_def)
    moreover from sub that(2) obtain i' where "b = base + i' * ?k" by (auto simp: slot_addr_def)
    ultimately have "i * ?k + ?k \<le> i' * ?k"
      using \<open>a < b\<close>
      by (metis Suc_leI add.commute add_less_cancel_left mult_Suc mult_le_mono1 mult_less_cancel2)
    with \<open>a = _\<close> \<open>b = _\<close> kb show ?thesis by simp
  qed
  show ?thesis
    using h used fails place apart by (auto simp: fixed.held_ok_def)
qed

theorem fixed_pool_safe_witness:
  "FixedPoolResource 24 8 64 (\<lambda>_. None) 2 =
     Some \<lparr> fp_capacity = 2, fp_used = 0, free_list = Some 64, storage = 64, slot_size = 24,
            cells = (\<lambda>_. None)(64 := Some 88, 88 := None) \<rparr>
   \<and> (\<exists>q. pool_run (the (FixedPoolResource 24 8 64 (\<lambda>_. None) 2), []) [Take, Take] = Some (q, [88, 64])
        \<and> fp_used q = length [88, 64 :: addr])"
proof -
  have k: "unat (kSlotSize 24 8) = 24" by (simp add: kSlotSize_def)
  have init: "FixedPoolResource 24 8 64 (\<lambda>_. None) 2 =
     Some \<lparr> fp_capacity = 2, fp_used = 0, free_list = Some 64, storage = 64, slot_size = 24,
            cells = (\<lambda>_. None)(64 := Some 88, 88 := None) \<rparr>" (is "_ = Some ?p")
    by (simp add: FixedPoolResource_def k slot_addr_def Let_def numeral_2_eq_2)
  obtain q where run: "pool_run (?p, []) [Take, Take] = Some (q, [88, 64])"
    by (simp add: allocate_def)
  from fixed_pool_safe [OF init _ _ _ _ _ run, of 3] init run show ?thesis by simp
qed

end
