(* ===== verification/Timer_Wheel.thy ===== *)
theory Timer_Wheel
  imports Fixed_Pool "HOL-Library.AList"
begin

text \<open>
  \<open>TimerWheel\<close> of \<open>include/qbuem/core/timer_wheel.hpp\<close>: four levels of 256 slots, each slot the
  list of the entries linked into it (the doubly linked list, head first), the id-to-entry index,
  the entry pool, the clock and the cached minimum. An entry carries the address of its pool slot;
  a \<open>uint64_t\<close> is a natural number and sums of two of them are taken modulo \<open>2 ^ 64\<close>.
  Callbacks are values of a type \<open>'cb\<close>; the model records the entries whose callbacks are invoked,
  in order and with the clock value at the invocation. A callback that itself calls the wheel
  is outside the model.
\<close>

section \<open>Model\<close>

record 'cb entry =
  e_addr :: addr
  fn :: "'cb option"
  tid :: nat
  expiry_ms :: nat
  e_level :: nat
  e_slot :: nat

record 'cb wheel =
  tw_pool :: fixed_pool
  tw_slots :: "nat \<Rightarrow> nat \<Rightarrow> 'cb entry list"
  tw_index :: "(nat \<times> 'cb entry) list"
  current_ms :: nat
  next_id :: nat
  tw_count :: nat
  cached_min_expiry :: nat
  min_valid :: bool

definition LEVELS :: nat where
  "LEVELS = 4"

definition SLOTS_PER_LEVEL :: nat where
  "SLOTS_PER_LEVEL = 256"

definition kInvalid :: nat where
  "kInvalid = 0"

definition UINT64_MAX :: nat where
  "UINT64_MAX = 2 ^ 64 - 1"

definition kSlotMs :: "nat \<Rightarrow> nat" where
  "kSlotMs lv = [1, 256, 65536, 16777216] ! lv"

definition TimerWheel :: "fixed_pool \<Rightarrow> 'cb wheel" where
  "TimerWheel pool =
     \<lparr> tw_pool = pool, tw_slots = (\<lambda>_ _. []), tw_index = [], current_ms = 0, next_id = 1, tw_count = 0,
       cached_min_expiry = UINT64_MAX, min_valid = False \<rparr>"

definition set_slot :: "nat \<Rightarrow> nat \<Rightarrow> 'cb entry list \<Rightarrow> 'cb wheel \<Rightarrow> 'cb wheel" where
  "set_slot lv sl es w = w\<lparr>tw_slots := (tw_slots w)(lv := (tw_slots w lv)(sl := es))\<rparr>"

text \<open>The loop of \<open>insert\<close> that looks for the highest level whose resolution the delay reaches.\<close>

fun level_from :: "nat \<Rightarrow> nat \<Rightarrow> nat" where
  "level_from 0 delta = 0"
| "level_from (Suc l) delta = (if kSlotMs (Suc l) \<le> delta then Suc l else level_from l delta)"

definition insert_entry :: "'cb entry \<Rightarrow> 'cb wheel \<Rightarrow> 'cb wheel" where
  "insert_entry e w =
     (let delta = (if expiry_ms e > current_ms w then expiry_ms e - current_ms w else 0);
          lv = level_from (LEVELS - 1) delta;
          sl = (if lv = 0 then expiry_ms e AND (SLOTS_PER_LEVEL - 1)
                else (expiry_ms e div kSlotMs lv) AND (SLOTS_PER_LEVEL - 1));
          e' = e\<lparr>e_level := lv, e_slot := sl\<rparr>
      in set_slot lv sl (e' # tw_slots w lv sl) (w\<lparr>tw_index := AList.update (tid e) e' (tw_index w)\<rparr>))"

definition unlink :: "nat \<Rightarrow> nat \<Rightarrow> 'cb entry \<Rightarrow> 'cb wheel \<Rightarrow> 'cb wheel" where
  "unlink lv sl e w = set_slot lv sl (filter (\<lambda>x. e_addr x \<noteq> e_addr e) (tw_slots w lv sl)) w"

definition schedule :: "nat \<Rightarrow> 'cb option \<Rightarrow> 'cb wheel \<Rightarrow> nat \<times> 'cb wheel" where
  "schedule delay f w =
     (case allocate (tw_pool w) of
        (None, p) \<Rightarrow> (kInvalid, w\<lparr>tw_pool := p\<rparr>)
      | (Some raw, p) \<Rightarrow>
          (let i = (if next_id w = kInvalid then 1 else next_id w);
               e = \<lparr> e_addr = raw, fn = f, tid = i,
                     expiry_ms = (current_ms w + delay) mod 2 ^ 64, e_level = 0, e_slot = 0 \<rparr>;
               w1 = insert_entry e (w\<lparr>tw_pool := p, next_id := (i + 1) mod 2 ^ 64\<rparr>);
               w2 = w1\<lparr>tw_count := tw_count w1 + 1\<rparr>
           in (i, if min_valid w2 \<and> expiry_ms e < cached_min_expiry w2
                  then w2\<lparr>cached_min_expiry := expiry_ms e\<rparr> else w2)))"

text \<open>Destroying an entry: its slot goes back to the pool and the count drops.\<close>

definition drop_cache :: "'cb entry \<Rightarrow> 'cb wheel \<Rightarrow> 'cb wheel" where
  "drop_cache e w =
     (if min_valid w \<and> expiry_ms e \<le> cached_min_expiry w then w\<lparr>min_valid := False\<rparr> else w)"

definition release_entry :: "'cb entry \<Rightarrow> 'cb wheel \<Rightarrow> 'cb wheel" where
  "release_entry e w = w\<lparr>tw_pool := deallocate (tw_pool w) (e_addr e), tw_count := tw_count w - 1\<rparr>"

definition cancel :: "nat \<Rightarrow> 'cb wheel \<Rightarrow> bool \<times> 'cb wheel" where
  "cancel i w =
     (if i = kInvalid then (False, w)
      else case map_of (tw_index w) i of
        None \<Rightarrow> (False, w)
      | Some e \<Rightarrow>
          (True, release_entry e (drop_cache e
             (unlink (e_level e) (e_slot e) e (w\<lparr>tw_index := AList.delete i (tw_index w)\<rparr>)))))"

text \<open>The loop of \<open>fire_slot\<close> over the detached list.\<close>

fun fire_list :: "'cb entry list \<Rightarrow> 'cb wheel \<Rightarrow> 'cb entry list \<times> 'cb wheel" where
  "fire_list [] w = ([], w)"
| "fire_list (e # es) w =
     (if expiry_ms e \<le> current_ms w then
        (let (fired, w') = fire_list es
               (release_entry e (drop_cache e (w\<lparr>tw_index := AList.delete (tid e) (tw_index w)\<rparr>)))
         in (e # fired, w'))
      else fire_list es (insert_entry e w))"

definition fire_slot :: "nat \<Rightarrow> nat \<Rightarrow> 'cb wheel \<Rightarrow> 'cb entry list \<times> 'cb wheel" where
  "fire_slot level slot w = fire_list (tw_slots w level slot) (set_slot level slot [] w)"

fun cascade_list :: "'cb entry list \<Rightarrow> 'cb wheel \<Rightarrow> 'cb wheel" where
  "cascade_list [] w = w"
| "cascade_list (e # es) w = cascade_list es (insert_entry e w)"

definition cascade :: "nat \<Rightarrow> nat \<Rightarrow> 'cb wheel \<Rightarrow> 'cb wheel" where
  "cascade level slot w = cascade_list (tw_slots w level slot) (set_slot level slot [] w)"

text \<open>The cascade loop of \<open>tick\<close>, from level \<open>LEVELS - n\<close> upwards, left at the first level
  whose boundary the clock is not on.\<close>

fun cascade_levels :: "nat \<Rightarrow> 'cb wheel \<Rightarrow> 'cb wheel" where
  "cascade_levels 0 w = w"
| "cascade_levels (Suc n) w =
     (let lv = LEVELS - Suc n in
      if current_ms w mod kSlotMs lv = 0
      then cascade_levels n
             (cascade lv ((current_ms w div kSlotMs lv) AND (SLOTS_PER_LEVEL - 1)) w)
      else w)"

definition tick_step :: "'cb wheel \<Rightarrow> 'cb entry list \<times> 'cb wheel" where
  "tick_step w =
     (let w1 = w\<lparr>current_ms := current_ms w + 1\<rparr>;
          (fired, w2) = fire_slot 0 (current_ms w1 AND (SLOTS_PER_LEVEL - 1)) w1
      in (fired, cascade_levels (LEVELS - 1) w2))"

section \<open>The clock\<close>

lemma current_ms_insert [wheel_simps]: "current_ms (insert_entry e w) = current_ms w"
  by (simp add: insert_entry_def set_slot_def Let_def)

lemma current_ms_set_slot [wheel_simps]: "current_ms (set_slot lv sl es w) = current_ms w"
  by (simp add: set_slot_def)

lemma current_ms_release [wheel_simps]:
  "current_ms (release_entry e w) = current_ms w" "current_ms (drop_cache e w) = current_ms w"
  by (simp_all add: release_entry_def drop_cache_def)

lemma current_ms_fire_list [wheel_simps]: "current_ms (snd (fire_list es w)) = current_ms w"
  by (induction es w rule: fire_list.induct) (auto simp: wheel_simps split: prod.splits)

lemma current_ms_cascade_list [wheel_simps]: "current_ms (cascade_list es w) = current_ms w"
  by (induction es w rule: cascade_list.induct) (auto simp: wheel_simps)

lemma current_ms_cascade_levels [wheel_simps]: "current_ms (cascade_levels n w) = current_ms w"
  by (induction n w rule: cascade_levels.induct) (auto simp: wheel_simps cascade_def Let_def)

lemma current_ms_tick_step [wheel_simps]: "current_ms (snd (tick_step w)) = current_ms w + 1"
  by (simp add: tick_step_def Let_def case_prod_beta fire_slot_def wheel_simps)

function tick_loop :: "nat \<Rightarrow> 'cb wheel \<Rightarrow> (nat \<times> 'cb entry) list \<times> 'cb wheel" where
  "tick_loop target w =
     (if current_ms w < target then
        (let (fired, w') = tick_step w; (later, w'') = tick_loop target w'
         in (map (Pair (current_ms w')) fired @ later, w''))
      else ([], w))"
  by pat_completeness auto
termination
proof (relation "measure (\<lambda>(target, w). target - current_ms w)")
  fix target and w w' :: "'cb wheel" and r fired
  assume lt: "current_ms w < target" and "r = tick_step w" and "(fired, w') = r"
  then have "w' = snd (tick_step w)" by (metis snd_conv)
  then have "current_ms w' = current_ms w + 1" by (simp only: current_ms_tick_step)
  with lt show "((target, w'), target, w) \<in> measure (\<lambda>(target, w). target - current_ms w)"
    by simp
qed simp

declare tick_loop.simps [simp del]

definition tick :: "nat \<Rightarrow> 'cb wheel \<Rightarrow> (nat \<times> 'cb entry) list \<times> 'cb wheel" where
  "tick elapsed w = tick_loop ((current_ms w + elapsed) mod 2 ^ 64) w"

definition next_expiry_ms :: "'cb wheel \<Rightarrow> nat \<times> 'cb wheel" where
  "next_expiry_ms w =
     (if tw_count w = 0 then (UINT64_MAX, w)
      else
        (let w' = (if min_valid w then w
                   else w\<lparr>cached_min_expiry :=
                            fold (\<lambda>(i, e) earliest. if expiry_ms e < earliest then expiry_ms e else earliest)
                              (tw_index w) UINT64_MAX,
                          min_valid := True\<rparr>)
         in (if cached_min_expiry w' \<le> current_ms w' then 0
             else cached_min_expiry w' - current_ms w', w')))"

text \<open>The destructor's \<open>clear\<close>: the entries go back to the pool level by level, slot by slot.\<close>

definition all_entries :: "'cb wheel \<Rightarrow> 'cb entry list" where
  "all_entries w =
     concat (map (\<lambda>lv. concat (map (\<lambda>sl. tw_slots w lv sl) [0..<SLOTS_PER_LEVEL])) [0..<LEVELS])"

definition clear :: "'cb wheel \<Rightarrow> 'cb wheel" where
  "clear w =
     w\<lparr>tw_pool := fold (\<lambda>e p. deallocate p (e_addr e)) (all_entries w) (tw_pool w),
       tw_slots := (\<lambda>_ _. []), tw_index := [], tw_count := 0, min_valid := False\<rparr>"

end
