(* ===== verification/Timer_Wheel_Invariant.thy ===== *)
theory Timer_Wheel_Invariant
  imports Timer_Wheel
begin

text \<open>
  The structural invariant of the timer wheel and its preservation: every entry sits in the
  slot its own coordinates name, the index holds exactly the linked entries, each entry owns its
  own pool slot, the count is the size of the index and the cached minimum is the minimum when it
  is marked valid. While \<open>fire_slot\<close> and \<open>cascade\<close> walk a detached list, its entries are in the
  index but in no slot; the invariant has that list as a parameter.
\<close>

section \<open>Association lists\<close>

lemma map_snd_update:
  "map_of al k = Some e \<Longrightarrow> g v = g e \<Longrightarrow> distinct (map fst al) \<Longrightarrow>
     map (g \<circ> snd) (AList.update k v al) = map (g \<circ> snd) al"
  by (induction al) auto

lemma update_new: "k \<notin> fst ` set al \<Longrightarrow> AList.update k v al = al @ [(k, v)]"
  by (induction al) auto

lemma update_last: "k \<notin> fst ` set al \<Longrightarrow> AList.update k x (al @ [(k, y)]) = al @ [(k, x)]"
  by (induction al) auto

lemma map_snd_delete:
  "map_of al k = Some e \<Longrightarrow> distinct (map fst al) \<Longrightarrow> distinct (map (g \<circ> snd) al) \<Longrightarrow>
     map (g \<circ> snd) (AList.delete k al) = remove1 (g e) (map (g \<circ> snd) al)"
proof (induction al)
  case (Cons a al)
  show ?case
  proof (cases "fst a = k")
    case True
    with Cons.prems have "AList.delete k al = al"
      by (intro AList.delete_id) auto
    with True Cons.prems show ?thesis by (cases a) (auto simp: AList.delete_eq)
  next
    case False
    with Cons.prems have "map_of al k = Some e" by (cases a) auto
    then have "g e \<in> (g \<circ> snd) ` set al" by (force dest: map_of_SomeD)
    moreover from Cons.prems(3) have "(g \<circ> snd) a \<notin> (g \<circ> snd) ` set al" by simp
    ultimately have "g (snd a) \<noteq> g e" by force
    with Cons.IH Cons.prems \<open>map_of al k = Some e\<close> False show ?thesis
      by (cases a) (simp add: AList.delete_eq)
  qed
qed simp

section \<open>Invariant\<close>

definition linked :: "'cb wheel \<Rightarrow> 'cb entry \<Rightarrow> bool" where
  "linked w e \<longleftrightarrow> e \<in> set (tw_slots w (e_level e) (e_slot e))"

definition slots_ok :: "'cb wheel \<Rightarrow> bool" where
  "slots_ok w \<longleftrightarrow>
     (\<forall>lv sl e. e \<in> set (tw_slots w lv sl) \<longrightarrow>
        lv < LEVELS \<and> sl < SLOTS_PER_LEVEL \<and> e_level e = lv \<and> e_slot e = sl)
     \<and> (\<forall>lv sl. distinct (tw_slots w lv sl))"

definition index_ok :: "'cb entry list \<Rightarrow> 'cb wheel \<Rightarrow> bool" where
  "index_ok D w \<longleftrightarrow>
     distinct D \<and> (\<forall>e \<in> set D. \<not> linked w e) \<and> distinct (map fst (tw_index w))
     \<and> (\<forall>i e. map_of (tw_index w) i = Some e \<longleftrightarrow> tid e = i \<and> (e \<in> set D \<or> linked w e))"

definition cache_ok :: "'cb wheel \<Rightarrow> bool" where
  "cache_ok w \<longleftrightarrow> (min_valid w \<longrightarrow>
     cached_min_expiry w \<in> set (map (expiry_ms \<circ> snd) (tw_index w))
     \<and> (\<forall>t \<in> set (map (expiry_ms \<circ> snd) (tw_index w)). cached_min_expiry w \<le> t))"

definition book_ok :: "'cb wheel \<Rightarrow> bool" where
  "book_ok w \<longleftrightarrow>
     tw_count w = length (tw_index w)
     \<and> fixed.held_ok (tw_pool w) (map (e_addr \<circ> snd) (tw_index w))
     \<and> (\<forall>i \<in> fst ` set (tw_index w). 0 < i \<and> i < next_id w) \<and> 0 < next_id w
     \<and> cache_ok w"

definition wheel_ok :: "'cb entry list \<Rightarrow> 'cb wheel \<Rightarrow> bool" where
  "wheel_ok D w \<longleftrightarrow> slots_ok w \<and> index_ok D w \<and> book_ok w"

lemmas wheel_ok_defs = wheel_ok_def slots_ok_def index_ok_def book_ok_def

lemma wheel_ok_init: "fixed.held_ok p [] \<Longrightarrow> wheel_ok [] (TimerWheel p)"
  by (simp add: wheel_ok_defs TimerWheel_def linked_def cache_ok_def)

lemma index_lookup:
  "wheel_ok D w \<Longrightarrow> map_of (tw_index w) i = Some e \<longleftrightarrow> tid e = i \<and> (e \<in> set D \<or> linked w e)"
  by (simp add: wheel_ok_def index_ok_def)

lemma linked_unique: "wheel_ok D w \<Longrightarrow> linked w e \<Longrightarrow> linked w e' \<Longrightarrow> tid e = tid e' \<Longrightarrow> e = e'"
  by (metis index_lookup option.inject)

lemma slots_linked: "wheel_ok D w \<Longrightarrow> e \<in> set (tw_slots w lv sl) \<longleftrightarrow> linked w e \<and> e_level e = lv \<and> e_slot e = sl"
  by (auto simp: wheel_ok_def slots_ok_def linked_def)

section \<open>Inserting and releasing\<close>

definition new_level :: "nat \<Rightarrow> nat \<Rightarrow> nat" where
  "new_level now x = level_from (LEVELS - 1) (x - now)"

definition new_slot :: "nat \<Rightarrow> nat \<Rightarrow> nat" where
  "new_slot now x = x div kSlotMs (new_level now x) mod 256"

definition relocate :: "nat \<Rightarrow> 'cb entry \<Rightarrow> 'cb entry" where
  "relocate now e = e\<lparr>e_level := new_level now (expiry_ms e), e_slot := new_slot now (expiry_ms e)\<rparr>"

lemma and_255: "n AND (SLOTS_PER_LEVEL - 1) = n mod 256"
  using take_bit_eq_mask [of 8 n] by (simp add: SLOTS_PER_LEVEL_def take_bit_eq_mod mask_eq_exp_minus_1)

lemma insert_entry_alt:
  "insert_entry e w =
     (let e' = relocate (current_ms w) e in
      set_slot (e_level e') (e_slot e') (e' # tw_slots w (e_level e') (e_slot e'))
        (w\<lparr>tw_index := AList.update (tid e) e' (tw_index w)\<rparr>))"
proof -
  have "(if expiry_ms e > current_ms w then expiry_ms e - current_ms w else 0) = expiry_ms e - current_ms w"
    by simp
  moreover have "(if l = 0 then x mod 256 else x div kSlotMs l mod 256) = x div kSlotMs l mod 256" for l x
    by (simp add: kSlotMs_def)
  ultimately show ?thesis
    by (simp only: insert_entry_def relocate_def new_level_def new_slot_def and_255 Let_def) simp
qed

lemma relocate_simps [simp]:
  "e_addr (relocate now e) = e_addr e" "fn (relocate now e) = fn e" "tid (relocate now e) = tid e"
  "expiry_ms (relocate now e) = expiry_ms e"
  by (simp_all add: relocate_def)

lemma level_from_le: "level_from n d \<le> n"
  by (induction n) auto

lemma new_level_less: "new_level now x < 4" "new_slot now x < 256"
  using level_from_le [of 3 "x - now"] by (auto simp: new_level_def new_slot_def LEVELS_def)

lemma insert_entry_linked:
  "linked (insert_entry e w) x \<longleftrightarrow> x = relocate (current_ms w) e \<or> linked w x"
  by (auto simp: insert_entry_alt linked_def set_slot_def Let_def)

lemma insert_entry_slots:
  "tw_slots (insert_entry e w) lv sl =
     (let e' = relocate (current_ms w) e in
      if lv = e_level e' \<and> sl = e_slot e' then e' # tw_slots w lv sl else tw_slots w lv sl)"
  by (auto simp: insert_entry_alt set_slot_def Let_def)

lemma insert_entry_frame [wheel_simps]:
  "tw_pool (insert_entry e w) = tw_pool w" "next_id (insert_entry e w) = next_id w"
  "tw_count (insert_entry e w) = tw_count w" "cached_min_expiry (insert_entry e w) = cached_min_expiry w"
  "min_valid (insert_entry e w) = min_valid w"
  "tw_index (insert_entry e w) = AList.update (tid e) (relocate (current_ms w) e) (tw_index w)"
  by (simp_all add: insert_entry_alt set_slot_def Let_def)

lemma insert_entry_slots_ok:
  assumes "slots_ok w" and "\<not> linked w (relocate (current_ms w) e)"
  shows "slots_ok (insert_entry e w)"
  using assms new_level_less [of "current_ms w" "expiry_ms e"]
  by (auto simp: slots_ok_def insert_entry_slots Let_def linked_def relocate_def LEVELS_def
      SLOTS_PER_LEVEL_def)

text \<open>Linking a detached entry keeps the invariant: its slot, its index value and nothing else change.\<close>

lemma insert_detached:
  assumes ok: "wheel_ok (e # D) w"
  shows "wheel_ok D (insert_entry e w)"
proof -
  let ?e = "relocate (current_ms w) e"
  have lk: "map_of (tw_index w) (tid e) = Some e"
    using index_lookup [OF ok] by simp
  have nl: "\<not> linked w x" if "tid x = tid e" for x
    using that ok index_lookup [OF ok, of "tid e" x] lk
    by (auto simp: wheel_ok_def index_ok_def)
  have nD: "x \<notin> set D" if "tid x = tid e" for x
    using that ok index_lookup [OF ok, of "tid e" x] lk
    by (auto simp: wheel_ok_def index_ok_def)
  have "slots_ok (insert_entry e w)"
    using ok nl by (intro insert_entry_slots_ok) (auto simp: wheel_ok_def)
  moreover have "index_ok D (insert_entry e w)"
    unfolding index_ok_def
  proof (intro conjI allI)
    show "distinct D" and "distinct (map fst (tw_index (insert_entry e w)))"
      using ok by (auto simp: wheel_ok_def index_ok_def wheel_simps intro: distinct_update)
    show "\<forall>x \<in> set D. \<not> linked (insert_entry e w) x"
      using ok nD by (auto simp: wheel_ok_def index_ok_def insert_entry_linked)
    show "map_of (tw_index (insert_entry e w)) i = Some x \<longleftrightarrow>
        tid x = i \<and> (x \<in> set D \<or> linked (insert_entry e w) x)" for i x
    proof (cases "i = tid e")
      case True
      then show ?thesis using nl nD by (auto simp: wheel_simps update_conv' insert_entry_linked)
    next
      case False
      then have "map_of (tw_index (insert_entry e w)) i = map_of (tw_index w) i"
        by (simp add: wheel_simps update_conv')
      with False show ?thesis
        using index_lookup [OF ok, of i x] by (auto simp: insert_entry_linked)
    qed
  qed
  moreover have "book_ok (insert_entry e w)"
  proof -
    have d: "distinct (map fst (tw_index w))" using ok by (simp add: wheel_ok_def index_ok_def)
    let ?al = "AList.update (tid e) ?e (tw_index w)"
    have ad: "map (e_addr \<circ> snd) ?al = map (e_addr \<circ> snd) (tw_index w)"
      by (rule map_snd_update [OF lk _ d]) simp
    have ex: "map (expiry_ms \<circ> snd) ?al = map (expiry_ms \<circ> snd) (tw_index w)"
      by (rule map_snd_update [OF lk _ d]) simp
    have len: "length ?al = length (tw_index w)"
      using arg_cong [OF ad, of length] by simp
    have "fst ` set ?al = fst ` set (tw_index w)"
      using lk by (auto simp: dom_map_of_conv_image_fst [symmetric] update_conv')
    moreover have "cache_ok (insert_entry e w)"
      using ok unfolding wheel_ok_def book_ok_def cache_ok_def by (simp only: wheel_simps ex) blast
    ultimately show ?thesis
      using ok ad len by (simp add: wheel_ok_def book_ok_def wheel_simps)
  qed
  ultimately show ?thesis by (simp add: wheel_ok_def)
qed

lemma cache_ok_delete:
  assumes "cache_ok w" and "map_of (tw_index w) i = Some e" and "distinct (map fst (tw_index w))"
  shows "cache_ok (drop_cache e (w\<lparr>tw_index := AList.delete i (tw_index w)\<rparr>))"
proof -
  have sub: "set (AList.delete i (tw_index w)) = set (tw_index w) - {(i, e)}"
    using assms(2,3) by (auto simp: AList.delete_eq dest: map_of_SomeD eq_key_imp_eq_value)
  show ?thesis
    using assms(1) by (auto simp: cache_ok_def drop_cache_def sub)
qed

lemma drop_cache_frame [wheel_simps]:
  "tw_pool (drop_cache e w) = tw_pool w" "tw_slots (drop_cache e w) = tw_slots w"
  "tw_index (drop_cache e w) = tw_index w" "next_id (drop_cache e w) = next_id w"
  "tw_count (drop_cache e w) = tw_count w"
  by (simp_all add: drop_cache_def)

definition discard :: "'cb entry \<Rightarrow> 'cb wheel \<Rightarrow> 'cb wheel" where
  "discard e w = release_entry e (drop_cache e (w\<lparr>tw_index := AList.delete (tid e) (tw_index w)\<rparr>))"

lemma discard_frame [wheel_simps]:
  "tw_slots (discard e w) = tw_slots w" "next_id (discard e w) = next_id w"
  "tw_index (discard e w) = AList.delete (tid e) (tw_index w)"
  "tw_count (discard e w) = tw_count w - 1" "current_ms (discard e w) = current_ms w"
  "tw_pool (discard e w) = deallocate (tw_pool w) (e_addr e)"
  by (simp_all add: discard_def release_entry_def wheel_simps)

text \<open>Destroying a detached entry gives its pool slot back and forgets it.\<close>

lemma discard_detached:
  assumes ok: "wheel_ok (e # D) w"
  shows "wheel_ok D (discard e w)"
proof -
  have lk: "map_of (tw_index w) (tid e) = Some e" using index_lookup [OF ok] by simp
  have d: "distinct (map fst (tw_index w))" using ok by (simp add: wheel_ok_def index_ok_def)
  have held: "fixed.held_ok (tw_pool w) (map (e_addr \<circ> snd) (tw_index w))"
    using ok by (simp add: wheel_ok_def book_ok_def)
  then have da: "distinct (map (e_addr \<circ> snd) (tw_index w))" by (simp only: fixed.held_ok_def)
  have del: "map (e_addr \<circ> snd) (AList.delete (tid e) (tw_index w))
      = remove1 (e_addr e) (map (e_addr \<circ> snd) (tw_index w))"
    by (rule map_snd_delete [OF lk d da])
  have mem: "e_addr e \<in> set (map (e_addr \<circ> snd) (tw_index w))"
    using lk by (force dest: map_of_SomeD)
  have len: "length (AList.delete (tid e) (tw_index w)) = length (tw_index w) - 1"
    using arg_cong [OF del, of length] mem by (simp only: length_map length_remove1 if_True)
  have "slots_ok (discard e w)"
    using ok by (simp add: wheel_ok_def slots_ok_def wheel_simps)
  moreover have "index_ok D (discard e w)"
    unfolding index_ok_def
  proof (intro conjI allI)
    show "distinct D" and "distinct (map fst (tw_index (discard e w)))"
      using ok by (auto simp: wheel_ok_def index_ok_def wheel_simps intro: distinct_delete)
    show "\<forall>x \<in> set D. \<not> linked (discard e w) x"
      using ok by (auto simp: wheel_ok_def index_ok_def linked_def wheel_simps)
    show "map_of (tw_index (discard e w)) i = Some x \<longleftrightarrow>
        tid x = i \<and> (x \<in> set D \<or> linked (discard e w) x)" for i x
    proof (cases "i = tid e")
      case True
      have "x \<notin> set D \<and> \<not> linked w x" if "tid x = tid e"
        using that lk index_lookup [OF ok, of "tid e" x] ok by (auto simp: wheel_ok_def index_ok_def)
      with True show ?thesis by (auto simp: wheel_simps delete_conv' linked_def)
    next
      case False
      then have "map_of (tw_index (discard e w)) i = map_of (tw_index w) i"
        by (simp add: wheel_simps delete_conv')
      with False show ?thesis
        using index_lookup [OF ok, of i x] by (auto simp: linked_def wheel_simps)
    qed
  qed
  moreover have "book_ok (discard e w)"
  proof -
    have "cache_ok (discard e w)"
      using cache_ok_delete [OF _ lk d] ok
      by (simp add: wheel_ok_def book_ok_def discard_def release_entry_def cache_ok_def)
    moreover have "fixed.held_ok (tw_pool (discard e w)) (map (e_addr \<circ> snd) (tw_index (discard e w)))"
      using fixed.dealloc_held [OF held mem] by (simp only: wheel_simps del)
    moreover have "\<forall>i \<in> fst ` set (tw_index (discard e w)). 0 < i \<and> i < next_id (discard e w)"
      using ok by (auto simp: wheel_ok_def book_ok_def wheel_simps AList.delete_eq)
    moreover have "tw_count (discard e w) = length (tw_index (discard e w))" "0 < next_id (discard e w)"
      using ok len by (simp_all add: wheel_ok_def book_ok_def wheel_simps)
    ultimately show ?thesis unfolding book_ok_def by blast
  qed
  ultimately show ?thesis by (simp add: wheel_ok_def)
qed

text \<open>Emptying a slot detaches the entries it held.\<close>

lemma detach_slot:
  assumes ok: "wheel_ok [] w"
  shows "wheel_ok (tw_slots w lv sl) (set_slot lv sl [] w)"
proof -
  have lk: "linked (set_slot lv sl [] w) x \<longleftrightarrow> linked w x \<and> \<not> (e_level x = lv \<and> e_slot x = sl)" for x
    by (auto simp: linked_def set_slot_def)
  have "slots_ok (set_slot lv sl [] w)"
    using ok by (auto simp: wheel_ok_def slots_ok_def set_slot_def)
  moreover have "index_ok (tw_slots w lv sl) (set_slot lv sl [] w)"
    using ok slots_linked [OF ok]
    by (auto simp: wheel_ok_def index_ok_def lk slots_ok_def) (simp_all add: set_slot_def)
  moreover have "book_ok (set_slot lv sl [] w)"
    using ok by (simp add: wheel_ok_def book_ok_def cache_ok_def set_slot_def)
  ultimately show ?thesis by (simp add: wheel_ok_def)
qed

lemma fire_list_ok: "wheel_ok es w \<Longrightarrow> wheel_ok [] (snd (fire_list es w))"
proof (induction es w rule: fire_list.induct)
  case (2 e es w)
  then show ?case
    using insert_detached [OF "2.prems"] discard_detached [OF "2.prems"]
    by (auto simp: case_prod_beta discard_def)
qed simp

lemma cascade_list_ok: "wheel_ok es w \<Longrightarrow> wheel_ok [] (cascade_list es w)"
  by (induction es w rule: cascade_list.induct) (auto dest: insert_detached)

section \<open>Cancelling\<close>

lemma linked_index: "wheel_ok D w \<Longrightarrow> linked w e \<Longrightarrow> (tid e, e) \<in> set (tw_index w)"
  using index_lookup [of D w "tid e" e] by (auto dest: map_of_SomeD)

lemma addr_unique:
  assumes ok: "wheel_ok D w" and "linked w e" "linked w x" "e_addr x = e_addr e"
  shows "x = e"
proof -
  have "inj_on (e_addr \<circ> snd) (set (tw_index w))"
    using ok by (auto simp: wheel_ok_def book_ok_def fixed.held_ok_def distinct_map)
  then have "(tid x, x) = (tid e, e)"
    by (rule inj_onD) (use assms linked_index [OF ok] in auto)
  then show ?thesis by simp
qed

lemma unlink_linked:
  assumes ok: "wheel_ok [] w" and e: "linked w e"
  shows "linked (unlink (e_level e) (e_slot e) e w) x \<longleftrightarrow> linked w x \<and> x \<noteq> e"
  using addr_unique [OF ok e, of x] e by (auto simp: linked_def unlink_def set_slot_def)

lemma unlink_ok:
  assumes ok: "wheel_ok [] w" and e: "linked w e"
  shows "wheel_ok [e] (unlink (e_level e) (e_slot e) e w)"
proof -
  let ?w = "unlink (e_level e) (e_slot e) e w"
  have "slots_ok ?w"
    using ok by (auto simp: wheel_ok_def slots_ok_def unlink_def set_slot_def)
  moreover have "tw_index ?w = tw_index w" by (simp add: unlink_def set_slot_def)
  then have "index_ok [e] ?w"
    using ok e by (auto simp: wheel_ok_def index_ok_def unlink_linked [OF ok e])
  moreover have "book_ok ?w"
    using ok by (simp add: wheel_ok_def book_ok_def cache_ok_def unlink_def set_slot_def)
  ultimately show ?thesis by (simp add: wheel_ok_def)
qed

lemma cancel_hit:
  assumes ok: "wheel_ok [] w" and i: "map_of (tw_index w) i = Some e"
  shows "cancel i w = (True, discard e (unlink (e_level e) (e_slot e) e w))"
proof -
  from i have "i \<in> fst ` set (tw_index w)" by (force dest: map_of_SomeD)
  with ok have "i \<noteq> kInvalid" by (auto simp: wheel_ok_def book_ok_def kInvalid_def)
  moreover have "tid e = i" using index_lookup [OF ok] i by simp
  moreover have "unlink lv sl e (w\<lparr>tw_index := al\<rparr>) = (unlink lv sl e w)\<lparr>tw_index := al\<rparr>" for lv sl al
    by (simp add: unlink_def set_slot_def)
  moreover have "tw_index (unlink lv sl e w) = tw_index w" for lv sl
    by (simp add: unlink_def set_slot_def)
  ultimately show ?thesis using i by (simp add: cancel_def discard_def)
qed

lemma cancel_miss: "map_of (tw_index w) i = None \<Longrightarrow> cancel i w = (False, w)"
  by (simp add: cancel_def)

lemma cancel_ok: "wheel_ok [] w \<Longrightarrow> wheel_ok [] (snd (cancel i w))"
proof (cases "map_of (tw_index w) i")
  case None
  then show "wheel_ok [] w \<Longrightarrow> ?thesis" by (simp add: cancel_miss)
next
  case (Some e)
  assume ok: "wheel_ok [] w"
  with Some have "linked w e" using index_lookup [OF ok] by simp
  then show ?thesis
    using discard_detached [OF unlink_ok [OF ok]] by (simp add: cancel_hit [OF ok Some])
qed

section \<open>Scheduling\<close>

definition new_entry :: "addr \<Rightarrow> nat \<Rightarrow> 'cb option \<Rightarrow> 'cb wheel \<Rightarrow> 'cb entry" where
  "new_entry a delay f w =
     \<lparr> e_addr = a, fn = f, tid = next_id w, expiry_ms = (current_ms w + delay) mod 2 ^ 64,
       e_level = 0, e_slot = 0 \<rparr>"

definition admit :: "fixed_pool \<Rightarrow> 'cb entry \<Rightarrow> 'cb wheel \<Rightarrow> 'cb wheel" where
  "admit p e w =
     w\<lparr>tw_pool := p, next_id := next_id w + 1, tw_index := tw_index w @ [(tid e, e)],
       tw_count := tw_count w + 1,
       cached_min_expiry := (if min_valid w \<and> expiry_ms e < cached_min_expiry w then expiry_ms e
                             else cached_min_expiry w)\<rparr>"

lemma fresh_id: "wheel_ok [] w \<Longrightarrow> next_id w \<notin> fst ` set (tw_index w)"
  by (auto simp: wheel_ok_def book_ok_def)

lemma schedule_admits:
  assumes ok: "wheel_ok [] w" and "next_id w + 1 < 2 ^ 64" and al: "allocate (tw_pool w) = (Some a, p)"
  shows "schedule delay f w =
    (next_id w, insert_entry (new_entry a delay f w) (admit p (new_entry a delay f w) w))"
proof -
  let ?e = "new_entry a delay f w"
  have te: "tid ?e = next_id w" by (simp add: new_entry_def)
  have "next_id w \<noteq> 0" using ok by (simp add: wheel_ok_def book_ok_def)
  have "AList.update (next_id w) x (tw_index w) = tw_index w @ [(next_id w, x)]" for x
    using update_new [OF fresh_id [OF ok]] .
  moreover have "AList.update (next_id w) x (tw_index w @ [(next_id w, y)]) = tw_index w @ [(next_id w, x)]"
    for x y
    using update_last [OF fresh_id [OF ok]] .
  ultimately have "insert_entry ?e (admit p ?e w) =
      (let w1 = insert_entry ?e (w\<lparr>tw_pool := p, next_id := next_id w + 1\<rparr>)
       in w1\<lparr>tw_count := tw_count w1 + 1, cached_min_expiry :=
            (if min_valid w1 \<and> expiry_ms ?e < cached_min_expiry w1 then expiry_ms ?e
             else cached_min_expiry w1)\<rparr>)"
    by (simp add: insert_entry_alt admit_def set_slot_def Let_def te)
  moreover have "schedule delay f w = (next_id w,
      (let w1 = insert_entry ?e (w\<lparr>tw_pool := p, next_id := next_id w + 1\<rparr>)
       in w1\<lparr>tw_count := tw_count w1 + 1, cached_min_expiry :=
            (if min_valid w1 \<and> expiry_ms ?e < cached_min_expiry w1 then expiry_ms ?e
             else cached_min_expiry w1)\<rparr>))"
  proof -
    have "(next_id w + 1) mod 2 ^ 64 = next_id w + 1" using assms(2) by (rule mod_less)
    moreover have "(if next_id w = kInvalid then 1 else next_id w) = next_id w"
      using \<open>next_id w \<noteq> 0\<close> by (simp add: kInvalid_def)
    ultimately show ?thesis
      unfolding schedule_def al prod.case option.case new_entry_def Let_def by simp
  qed
  ultimately show ?thesis by simp
qed

lemma admit_ok:
  assumes ok: "wheel_ok [] w" and al: "allocate (tw_pool w) = (Some a, p)"
  shows "wheel_ok [new_entry a delay f w] (admit p (new_entry a delay f w) w)"
proof -
  let ?e = "new_entry a delay f w"
  let ?w = "admit p ?e w"
  have te: "tid ?e = next_id w" and ae: "e_addr ?e = a" by (simp_all add: new_entry_def)
  have lk: "linked ?w = linked w" by (auto simp: linked_def admit_def)
  have "map_of (tw_index w) (next_id w) = None"
    using fresh_id [OF ok] by (simp add: map_of_eq_None_iff)
  then have nl: "\<not> linked w x" if "tid x = next_id w" for x
    using index_lookup [OF ok, of "next_id w" x] that by simp
  have ix: "tw_index ?w = tw_index w @ [(next_id w, ?e)]" by (simp add: admit_def te)
  have "slots_ok ?w" using ok by (simp add: wheel_ok_def slots_ok_def admit_def)
  moreover have "index_ok [?e] ?w"
    unfolding index_ok_def lk ix
  proof (intro conjI allI)
    show "map_of (tw_index w @ [(next_id w, ?e)]) i = Some x \<longleftrightarrow>
        tid x = i \<and> (x \<in> set [?e] \<or> linked w x)" for i x
      using index_lookup [OF ok, of i x] nl [of x] te \<open>map_of (tw_index w) (next_id w) = None\<close>
      by (cases "i = next_id w") (auto simp: map_add_def split: option.splits)
  qed (use ok nl te fresh_id [OF ok] in \<open>auto simp: wheel_ok_def index_ok_def\<close>)
  moreover have "book_ok ?w"
  proof -
    have held: "fixed.held_ok (tw_pool w) (map (e_addr \<circ> snd) (tw_index w))"
      using ok by (simp add: wheel_ok_def book_ok_def)
    have "fixed.held_ok p (map (e_addr \<circ> snd) (tw_index ?w))"
      using fixed.alloc_fresh [OF held al] by (auto simp: fixed.held_ok_def ix ae)
    moreover have "cache_ok ?w"
      using ok by (auto simp: wheel_ok_def book_ok_def cache_ok_def admit_def)
    moreover have "\<forall>i \<in> fst ` set (tw_index ?w). 0 < i \<and> i < next_id ?w"
      using ok by (auto simp: wheel_ok_def book_ok_def admit_def te)
    ultimately show ?thesis
      using ok by (simp add: wheel_ok_def book_ok_def admit_def)
  qed
  ultimately show ?thesis by (simp add: wheel_ok_def)
qed

lemma schedule_ok:
  assumes ok: "wheel_ok [] w" and "next_id w + 1 < 2 ^ 64"
  shows "wheel_ok [] (snd (schedule delay f w))"
proof (cases "allocate (tw_pool w)")
  case (Pair r p)
  show ?thesis
  proof (cases r)
    case None
    with Pair have "p = tw_pool w" by (auto simp: allocate_def split: option.splits)
    with Pair None ok show ?thesis by (simp add: schedule_def)
  next
    case (Some a)
    with Pair have al: "allocate (tw_pool w) = (Some a, p)" by simp
    then show ?thesis
      using insert_detached [OF admit_ok [OF ok al]] by (simp add: schedule_admits [OF assms al])
  qed
qed

end
