(* ===== verification/Timer_Wheel_Timing.thy ===== *)
theory Timer_Wheel_Timing
  imports Timer_Wheel_Invariant
begin

text \<open>
  When timers fire. \<open>due now lv x\<close> is the clock value at which an entry with expiry \<open>x\<close>, sitting on
  level \<open>lv\<close> at time \<open>now\<close>, fires; \<open>place\<close> says where an entry may sit. A tick fires exactly the
  entries whose due time it reaches: the wheel refines the abstract timer table that maps a timer
  id to its due time. The due time is the expiry, or 256 ms after it for a timer of delay 0 and
  for a timer that starts above level 0 and expires on a multiple of 256 ms.
\<close>

section \<open>Placement arithmetic\<close>

definition due :: "nat \<Rightarrow> nat \<Rightarrow> nat \<Rightarrow> nat" where
  "due now lv x =
     (if lv = 0 then (if x \<le> now then x + 256 else x) else (if 256 dvd x then x + 256 else x))"

definition boundary :: "nat \<Rightarrow> nat \<Rightarrow> nat" where
  "boundary lv x = x div kSlotMs lv * kSlotMs lv"

text \<open>
  \<open>place k now lv sl x\<close>: the levels below \<open>k\<close> are settled for the clock value \<open>now\<close>, the others
  as they were before the clock reached \<open>now\<close> (their cascade is still to come).
\<close>

definition place :: "nat \<Rightarrow> nat \<Rightarrow> nat \<Rightarrow> nat \<Rightarrow> nat \<Rightarrow> bool" where
  "place k now lv sl x \<longleftrightarrow>
     lv < 4 \<and> sl = x div kSlotMs lv mod 256 \<and>
     (if lv = 0 then now < x + 256 \<and> x < now + 256
      else if lv < k then now < boundary lv x \<and> (lv < 3 \<longrightarrow> x div kSlotMs lv \<le> now div kSlotMs lv + 256)
      else now \<le> boundary lv x \<and> (lv < 3 \<longrightarrow> x div kSlotMs lv \<le> (now - 1) div kSlotMs lv + 256))"

lemma kSlotMs_simps [simp]:
  "kSlotMs 0 = 1" "kSlotMs (Suc 0) = 256" "kSlotMs 2 = 65536" "kSlotMs 3 = 16777216"
  by (simp_all add: kSlotMs_def)

lemma level_cases: "lv < 4 \<Longrightarrow> lv = 0 \<or> lv = Suc 0 \<or> lv = 2 \<or> lv = (3::nat)"
  by arith

lemma kSlotMs_pos: "lv < 4 \<Longrightarrow> 0 < kSlotMs lv"
  using level_cases by fastforce

lemma level_from_3:
  "level_from 3 d = (if 16777216 \<le> d then 3 else if 65536 \<le> d then 2 else if 256 \<le> d then Suc 0 else 0)"
  by (simp add: numeral_3_eq_3 kSlotMs_def)

lemma new_level_eq:
  "new_level now x =
     (let d = x - now in if 16777216 \<le> d then 3 else if 65536 \<le> d then 2 else if 256 \<le> d then Suc 0 else 0)"
  using level_from_3 by (simp add: new_level_def LEVELS_def Let_def)

lemma boundary_after: "0 < k \<Longrightarrow> k \<le> x - now \<Longrightarrow> now < x div k * (k::nat)"
proof -
  assume "0 < k" and "k \<le> x - now"
  moreover have "x = x div k * k + x mod k" by simp
  moreover have "x mod k < k" using \<open>0 < k\<close> by simp
  ultimately show ?thesis by linarith
qed

lemma cell_within: "0 < k \<Longrightarrow> x < now + 256 * k \<Longrightarrow> x div k \<le> now div k + (256::nat)"
  using div_le_mono [of x "now + 256 * k" k] by simp

lemma mod_close: "n \<le> m \<Longrightarrow> m < n + q \<Longrightarrow> m mod q = n mod q \<Longrightarrow> m = (n::nat)"
  using mod_eq_dvd_iff_nat [of n m q] nat_dvd_not_less [of "m - n" q] by fastforce

lemma place_new:
  assumes "now \<le> x"
  shows "place 4 now (new_level now x) (new_slot now x) x"
proof -
  let ?d = "x - now"
  consider "16777216 \<le> ?d" | "65536 \<le> ?d" "?d < 16777216" | "256 \<le> ?d" "?d < 65536" | "?d < 256"
    by linarith
  then show ?thesis
  proof cases
    case 1
    then show ?thesis using boundary_after [of 16777216 x now]
      by (simp add: place_def new_slot_def new_level_eq boundary_def)
  next
    case 2
    then show ?thesis using boundary_after [of 65536 x now] cell_within [of 65536 x now]
      by (simp add: place_def new_slot_def new_level_eq boundary_def)
  next
    case 3
    then show ?thesis using boundary_after [of 256 x now] cell_within [of 256 x now]
      by (simp add: place_def new_slot_def new_level_eq boundary_def)
  next
    case 4
    then show ?thesis using assms by (simp add: place_def new_slot_def new_level_eq)
  qed
qed

lemma due_new:
  assumes "now \<le> x"
  shows "due now (new_level now x) x =
    (if x = now then now + 256 else if x < now + 256 then x else if 256 dvd x then x + 256 else x)"
  using assms by (auto simp: due_def new_level_eq Let_def)

section \<open>One clock step\<close>

text \<open>Level 0: an entry is in the slot of the next clock value exactly when it is due then.\<close>

lemma level0_due:
  assumes "place 4 now 0 sl x"
  shows "sl = (now + 1) mod 256 \<longleftrightarrow> due now 0 x = now + 1"
proof -
  from assms have sl: "sl = x mod 256" and b: "now < x + 256" "x < now + 256"
    by (simp_all add: place_def)
  have d: "due now 0 x mod 256 = x mod 256" by (simp add: due_def)
  have r: "now < due now 0 x" "due now 0 x \<le> now + 256" using b by (auto simp: due_def)
  show ?thesis
  proof
    assume "sl = (now + 1) mod 256"
    with sl d have "due now 0 x mod 256 = (now + 1) mod 256" by simp
    then show "due now 0 x = now + 1" by (rule mod_close [rotated 2]) (use r in auto)
  qed (use sl d in simp)
qed

lemma level0_expired: "due now 0 x = now + 1 \<Longrightarrow> x \<le> now + 1"
  by (auto simp: due_def split: if_splits)

lemma level0_keep:
  assumes "place 4 now 0 sl x" and "sl \<noteq> (now + 1) mod 256"
  shows "place k (now + 1) 0 sl x \<and> due (now + 1) 0 x = due now 0 x"
  using assms level0_due [OF assms(1)] by (auto simp: place_def due_def split: if_splits)

lemma upper_keep: "place 4 now lv sl x \<Longrightarrow> 0 < lv \<Longrightarrow> place 1 (now + 1) lv sl x"
  by (auto simp: place_def)

text \<open>Upper levels: the entries of a cascaded slot.\<close>

lemma boundary_level:
  "place k now lv sl x \<Longrightarrow> k \<le> lv \<Longrightarrow> 0 < lv \<Longrightarrow> now \<le> x"
  by (auto simp: place_def boundary_def intro: order_trans [OF _ div_times_less_eq_dividend])

lemma cell_same:
  assumes "0 < k" "k dvd now" "0 < now" "now \<le> x div k * k" "x div k \<le> (now - 1) div k + 256"
    and "x div k mod 256 = now div k mod (256::nat)"
  shows "x div k = now div k"
proof -
  from assms(1,4) have ge: "now div k \<le> x div k"
    by (metis div_le_mono nonzero_mult_div_cancel_right not_gr_zero)
  from assms(2,3) obtain m where "now = k * m" "0 < m" by (auto elim: dvdE)
  then obtain m' where m: "now = k * Suc m'" by (metis gr0_implies_Suc)
  have "(now - 1) div k = m'"
    by (rule div_nat_eqI) (use m assms(1) in auto)
  with m assms(1,5) have "x div k < now div k + 256" by simp
  then show ?thesis by (rule mod_close [OF ge _ assms(6)])
qed

lemma cascade_target:
  assumes pl: "place lv now lv (now div kSlotMs lv mod 256) x" and lv: "0 < lv" "lv < 4"
    and dv: "kSlotMs lv dvd now" and pos: "0 < now"
  shows "due now (new_level now x) x = due now lv x \<and> place (Suc lv) now (new_level now x) (new_slot now x) x"
proof -
  let ?k = "kSlotMs lv"
  have k: "0 < ?k" using kSlotMs_pos [OF lv(2)] .
  have le: "now \<le> x" using boundary_level [OF pl] lv by simp
  from pl lv have b: "now \<le> x div ?k * ?k" and c: "x div ?k mod 256 = now div ?k mod 256"
    by (auto simp: place_def boundary_def)
  have "256 dvd ?k" using level_cases [OF lv(2)] lv(1) by auto
  with dv have d256: "256 dvd now" using dvd_trans by blast
  have near: "x - now < ?k" if "x div ?k = now div ?k"
  proof -
    from dv have "now = now div ?k * ?k" by simp
    moreover have "x = x div ?k * ?k + x mod ?k" by simp
    ultimately have "x - now = x mod ?k" using that by (metis diff_add_inverse)
    then show ?thesis using k by simp
  qed
  have lower: "new_level now x < lv" if "x div ?k = now div ?k"
    using near [OF that] lv level_cases [OF lv(2)] by (auto simp: new_level_eq Let_def)
  have cases: "x div ?k = now div ?k \<or> lv = 3 \<and> new_level now x = 3"
  proof (cases "lv < 3")
    case True
    with pl lv have "x div ?k \<le> (now - 1) div ?k + 256" by (auto simp: place_def)
    with cell_same [OF k dv pos b _ c] show ?thesis by simp
  next
    case False
    with lv have 3: "lv = 3" by simp
    show ?thesis
    proof (cases "x div ?k = now div ?k")
      case False
      have ge: "now div ?k \<le> x div ?k" using le by (rule div_le_mono)
      have "now div ?k + 256 \<le> x div ?k"
        using mod_close [OF ge _ c] False by (meson not_le)
      then have "(now div ?k + 256) * ?k \<le> x div ?k * ?k" by simp
      also have "\<dots> \<le> x" by simp
      finally have "now + 256 * ?k \<le> x" using dv by (simp add: distrib_right)
      then show ?thesis using 3 by (simp add: new_level_eq Let_def)
    qed simp
  qed
  have "due now (new_level now x) x = due now lv x"
  proof (cases "new_level now x = 0")
    case True
    then have "x - now < 256" by (auto simp: new_level_eq Let_def split: if_splits)
    moreover have "256 dvd x \<longleftrightarrow> x = now" if "x - now < 256"
    proof
      assume "256 dvd x"
      with d256 have "256 dvd x - now" by simp
      with that have "x - now = 0" using nat_dvd_not_less by blast
      with le show "x = now" by simp
    qed (use d256 in simp)
    ultimately show ?thesis using True le lv(1) by (auto simp: due_def)
  qed (use lv in \<open>simp add: due_def\<close>)
  moreover have "place (Suc lv) now (new_level now x) (new_slot now x) x"
    using place_new [OF le] cases lower lv by (auto simp: place_def)
  ultimately show ?thesis by simp
qed

lemma cascade_keep:
  assumes "place lv now lv' sl x" and "0 < lv" and "lv' \<noteq> lv \<or> sl \<noteq> now div kSlotMs lv mod 256"
    and "kSlotMs lv dvd now" "lv < 4"
  shows "place (Suc lv) now lv' sl x"
proof (cases "lv' = lv")
  case True
  let ?k = "kSlotMs lv"
  from True assms have b: "now \<le> boundary lv x" and sl: "sl = x div ?k mod 256"
    and le: "lv < 3 \<longrightarrow> x div ?k \<le> (now - 1) div ?k + 256"
    by (auto simp: place_def)
  have "x div ?k = now div ?k" if "now = boundary lv x"
    using that kSlotMs_pos [OF assms(5)] by (simp add: boundary_def)
  with sl assms(3) True b have "now < boundary lv x" by (metis le_neq_implies_less)
  moreover have "(now - 1) div ?k \<le> now div ?k" by (simp add: div_le_mono)
  with le have "lv < 3 \<longrightarrow> x div ?k \<le> now div ?k + 256" by linarith
  ultimately show ?thesis using True assms(2,5) sl by (simp add: place_def)
next
  case False
  with assms show ?thesis by (auto simp: place_def)
qed

lemma kSlotMs_dvd: "lv \<le> lv' \<Longrightarrow> lv' < 4 \<Longrightarrow> kSlotMs lv dvd kSlotMs lv'"
  using level_cases [of lv] level_cases [of lv'] by auto

lemma cascade_stops:
  assumes pl: "place lv now lv' sl x" and "0 < lv" and nd: "now mod kSlotMs lv \<noteq> 0"
  shows "place 4 now lv' sl x"
proof -
  have "now < boundary lv' x" if "lv \<le> lv'" "now \<le> boundary lv' x"
  proof -
    have "lv' < 4" using pl by (simp add: place_def)
    with that have "kSlotMs lv dvd boundary lv' x"
      by (simp add: boundary_def kSlotMs_dvd)
    with nd have "now \<noteq> boundary lv' x" by (metis mod_0_imp_dvd dvd_imp_mod_0)
    with that show ?thesis by simp
  qed
  moreover have "(now - 1) div kSlotMs lv' \<le> now div kSlotMs lv'" by (simp add: div_le_mono)
  ultimately show ?thesis using pl assms(2) by (auto simp: place_def split: if_splits)
qed

lemma upper_not_due:
  assumes "place 4 now lv sl x" and "0 < lv"
  shows "due now lv x \<noteq> now + 1"
proof
  assume d: "due now lv x = now + 1"
  from assms have lv: "lv < 4" and b: "now < boundary lv x" by (simp_all add: place_def)
  have le: "boundary lv x \<le> x" by (simp add: boundary_def)
  have "kSlotMs 1 dvd kSlotMs lv" using kSlotMs_dvd [of 1 lv] assms(2) lv by simp
  then have "256 dvd boundary lv x" by (simp add: boundary_def)
  moreover have "x = now + 1 \<Longrightarrow> boundary lv x = x" using b le by simp
  ultimately show False using d b le assms(2) by (auto simp: due_def split: if_splits)
qed

section \<open>The timer table\<close>

definition settled :: "nat \<Rightarrow> 'cb wheel \<Rightarrow> bool" where
  "settled k w \<longleftrightarrow> (\<forall>e. linked w e \<longrightarrow> place k (current_ms w) (e_level e) (e_slot e) (expiry_ms e))"

definition wheel_inv :: "'cb wheel \<Rightarrow> bool" where
  "wheel_inv w \<longleftrightarrow> wheel_ok [] w \<and> settled 4 w"

definition payload :: "'cb entry \<Rightarrow> nat \<times> 'cb option" where
  "payload e = (expiry_ms e, fn e)"

definition timer_of :: "nat \<Rightarrow> 'cb entry \<Rightarrow> nat \<times> nat \<times> 'cb option" where
  "timer_of now e = (due now (e_level e) (expiry_ms e), payload e)"

definition timers :: "'cb wheel \<Rightarrow> nat \<rightharpoonup> nat \<times> nat \<times> 'cb option" where
  "timers w i = map_option (timer_of (current_ms w)) (map_of (tw_index w) i)"

lemma timers_linked:
  "wheel_ok [] w \<Longrightarrow>
     timers w i = Some v \<longleftrightarrow> (\<exists>e. linked w e \<and> tid e = i \<and> timer_of (current_ms w) e = v)"
  by (auto simp: timers_def index_lookup)

lemma timers_eqI:
  assumes "\<And>v. timers w i = Some v \<longleftrightarrow> timers w' i = Some v"
  shows "timers w i = timers w' i"
  using assms by (metis not_None_eq)

lemma cascade_list_linked:
  "linked (cascade_list es w) x \<longleftrightarrow> linked w x \<or> x \<in> relocate (current_ms w) ` set es"
  by (induction es w rule: cascade_list.induct) (auto simp: insert_entry_linked current_ms_insert)

lemma set_slot_linked:
  "linked (set_slot lv sl [] w) x \<longleftrightarrow> linked w x \<and> \<not> (e_level x = lv \<and> e_slot x = sl)"
  by (auto simp: linked_def set_slot_def)

lemma cascade_linked:
  assumes "wheel_ok [] w"
  shows "linked (cascade lv sl w) x \<longleftrightarrow>
    linked w x \<and> \<not> (e_level x = lv \<and> e_slot x = sl)
    \<or> (\<exists>e. linked w e \<and> e_level e = lv \<and> e_slot e = sl \<and> x = relocate (current_ms w) e)"
  by (auto simp: cascade_def cascade_list_linked set_slot_linked current_ms_set_slot
      slots_linked [OF assms])

lemma cascade_ok: "wheel_ok [] w \<Longrightarrow> wheel_ok [] (cascade lv sl w)"
  by (simp add: cascade_def cascade_list_ok detach_slot)

lemma current_ms_cascade [wheel_simps]: "current_ms (cascade lv sl w) = current_ms w"
  by (simp add: cascade_def wheel_simps)

lemma cascade_step:
  assumes ok: "wheel_ok [] w" and st: "settled lv w" and lv: "0 < lv" "lv < 4"
    and dv: "kSlotMs lv dvd current_ms w" and pos: "0 < current_ms w"
  defines "w' \<equiv> cascade lv (current_ms w div kSlotMs lv mod 256) w"
  shows "wheel_ok [] w' \<and> settled (Suc lv) w' \<and> timers w' = timers w"
proof -
  let ?now = "current_ms w" and ?sl = "current_ms w div kSlotMs lv mod 256"
  have lk: "linked w' x \<longleftrightarrow> linked w x \<and> \<not> (e_level x = lv \<and> e_slot x = ?sl)
      \<or> (\<exists>e. linked w e \<and> e_level e = lv \<and> e_slot e = ?sl \<and> x = relocate ?now e)" for x
    unfolding w'_def by (rule cascade_linked [OF ok])
  have pl: "place lv ?now (e_level e) (e_slot e) (expiry_ms e)" if "linked w e" for e
    using st that by (simp add: settled_def)
  have mv: "due ?now (new_level ?now (expiry_ms e)) (expiry_ms e) = due ?now lv (expiry_ms e)
      \<and> place (Suc lv) ?now (new_level ?now (expiry_ms e)) (new_slot ?now (expiry_ms e)) (expiry_ms e)"
    if "linked w e" "e_level e = lv" "e_slot e = ?sl" for e
    using cascade_target [OF _ lv dv pos] pl [OF that(1)] that by simp
  have t: "timer_of ?now (relocate ?now e) = timer_of ?now e"
    if "linked w e" "e_level e = lv" "e_slot e = ?sl" for e
    using mv [OF that] that by (simp add: timer_of_def relocate_def payload_def)
  have cur: "current_ms w' = ?now" by (simp add: w'_def current_ms_cascade)
  have ok': "wheel_ok [] w'" using cascade_ok [OF ok] by (simp add: w'_def)
  have "settled (Suc lv) w'"
    unfolding settled_def cur
  proof (intro allI impI)
    fix x
    assume "linked w' x"
    then show "place (Suc lv) ?now (e_level x) (e_slot x) (expiry_ms x)"
      unfolding lk
    proof
      assume "linked w x \<and> \<not> (e_level x = lv \<and> e_slot x = ?sl)"
      then show ?thesis using cascade_keep [OF pl lv(1) _ dv lv(2)] by blast
    next
      assume "\<exists>e. linked w e \<and> e_level e = lv \<and> e_slot e = ?sl \<and> x = relocate ?now e"
      then show ?thesis using mv by (auto simp: relocate_def)
    qed
  qed
  moreover have "timers w' i = timers w i" for i
  proof (rule timers_eqI)
    fix v
    show "timers w' i = Some v \<longleftrightarrow> timers w i = Some v"
      unfolding timers_linked [OF ok'] timers_linked [OF ok] cur lk using t
      by (metis relocate_simps(3))
  qed
  ultimately show ?thesis using ok' by auto
qed

lemma settled_weaken: "settled 4 w \<Longrightarrow> 4 \<le> k \<Longrightarrow> settled k w"
  by (auto simp: settled_def place_def)

lemma cascade_levels_step:
  assumes "wheel_ok [] w" and "settled (4 - n) w" and "n < 4" and "0 < current_ms w"
  shows "wheel_inv (cascade_levels n w) \<and> timers (cascade_levels n w) = timers w"
  using assms
proof (induction n arbitrary: w)
  case 0
  then show ?case by (simp add: wheel_inv_def)
next
  case (Suc n)
  let ?lv = "4 - Suc n" and ?now = "current_ms w"
  have lv: "0 < ?lv" "?lv < 4" "Suc ?lv = 4 - n" using Suc.prems by auto
  show ?case
  proof (cases "?now mod kSlotMs ?lv = 0")
    case True
    let ?w = "cascade ?lv (?now div kSlotMs ?lv mod 256) w"
    have st: "wheel_ok [] ?w \<and> settled (Suc ?lv) ?w \<and> timers ?w = timers w"
      by (rule cascade_step) (use Suc.prems lv True in auto)
    have "wheel_inv (cascade_levels n ?w) \<and> timers (cascade_levels n ?w) = timers ?w"
      by (rule Suc.IH) (use Suc.prems lv st in \<open>auto simp: current_ms_cascade\<close>)
    with st True show ?thesis by (simp add: Let_def LEVELS_def and_255 [unfolded One_nat_def])
  next
    case False
    then have "settled 4 w"
      using Suc.prems(2) cascade_stops [OF _ lv(1) False] by (auto simp: settled_def)
    with False Suc.prems show ?thesis by (simp add: Let_def LEVELS_def wheel_inv_def)
  qed
qed

text \<open>A fired slot: every entry in it has expired, so the loop re-inserts none.\<close>

lemma fire_list_all:
  "wheel_ok es w \<Longrightarrow> \<forall>e \<in> set es. expiry_ms e \<le> current_ms w \<Longrightarrow>
     fst (fire_list es w) = es \<and> linked (snd (fire_list es w)) = linked w"
proof (induction es arbitrary: w)
  case (Cons e es)
  have "linked (discard e w) = linked w" by (auto simp: linked_def wheel_simps)
  with Cons.IH [of "discard e w"] discard_detached [OF Cons.prems(1)] Cons.prems(2) show ?case
    by (simp add: case_prod_beta discard_def [symmetric] wheel_simps)
qed simp

lemma clock_ok: "wheel_ok D w \<Longrightarrow> wheel_ok D (w\<lparr>current_ms := t\<rparr>)"
  by (auto simp: wheel_ok_defs linked_def cache_ok_def)

lemma fire_step:
  assumes inv: "wheel_inv w" and now: "now = current_ms w"
    and fs: "fire_slot 0 ((now + 1) mod 256) (w\<lparr>current_ms := now + 1\<rparr>) = (fired, w2)"
  shows "wheel_ok [] w2 \<and> current_ms w2 = now + 1 \<and> distinct fired
    \<and> (\<forall>e. e \<in> set fired \<longleftrightarrow> linked w e \<and> due now (e_level e) (expiry_ms e) = now + 1)
    \<and> (\<forall>e. linked w2 e \<longleftrightarrow> linked w e \<and> due now (e_level e) (expiry_ms e) \<noteq> now + 1)"
proof -
  let ?sl = "(now + 1) mod 256" and ?w1 = "w\<lparr>current_ms := now + 1\<rparr>"
  let ?es = "tw_slots w 0 ?sl"
  have ok: "wheel_ok [] w" and st: "settled 4 w" using inv by (auto simp: wheel_inv_def)
  have lw1: "linked ?w1 = linked w" by (auto simp: linked_def)
  have in0: "e \<in> set ?es \<longleftrightarrow> linked w e \<and> e_level e = 0 \<and> e_slot e = ?sl" for e
    by (rule slots_linked [OF ok])
  have es: "e \<in> set ?es \<longleftrightarrow> linked w e \<and> due now (e_level e) (expiry_ms e) = now + 1" for e
    using in0 [of e] level0_due [of now "e_slot e" "expiry_ms e"] st now
      upper_not_due [of now "e_level e" "e_slot e" "expiry_ms e"]
    unfolding settled_def by (metis gr0I)
  have det: "wheel_ok ?es (set_slot 0 ?sl [] ?w1)" using detach_slot [OF clock_ok [OF ok]] by simp
  have "\<forall>e \<in> set ?es. expiry_ms e \<le> now + 1"
    using es in0 level0_expired by metis
  then have "fst (fire_list ?es (set_slot 0 ?sl [] ?w1)) = ?es
      \<and> linked (snd (fire_list ?es (set_slot 0 ?sl [] ?w1))) = linked (set_slot 0 ?sl [] ?w1)"
    by (intro fire_list_all [OF det]) (simp add: current_ms_set_slot)
  with fs have f: "fired = ?es" and l2: "linked w2 = linked (set_slot 0 ?sl [] ?w1)"
    by (simp_all add: fire_slot_def)
  have w2: "w2 = snd (fire_list ?es (set_slot 0 ?sl [] ?w1))" using fs by (simp add: fire_slot_def)
  have "wheel_ok [] w2" unfolding w2 by (rule fire_list_ok [OF det])
  moreover have "current_ms w2 = now + 1" by (simp add: w2 wheel_simps)
  moreover have "distinct fired" using ok by (simp add: f wheel_ok_def slots_ok_def)
  moreover have "linked w2 e \<longleftrightarrow> linked w e \<and> due now (e_level e) (expiry_ms e) \<noteq> now + 1" for e
    using es [of e] in0 [of e] unfolding l2 set_slot_linked lw1 by blast
  ultimately show ?thesis using es unfolding f by blast
qed

lemma clock_keep:
  assumes pl: "place 4 now lv sl x" and nd: "due now lv x \<noteq> now + 1"
  shows "place 1 (now + 1) lv sl x \<and> due (now + 1) lv x = due now lv x"
proof (cases "lv = 0")
  case True
  with level0_due [of now sl x] pl nd have "sl \<noteq> (now + 1) mod 256" by simp
  with level0_keep [of now sl x] pl True show ?thesis by simp
next
  case False
  with upper_keep [OF pl] show ?thesis by (simp add: due_def)
qed

lemma tick_step_spec:
  assumes inv: "wheel_inv w" and step: "tick_step w = (fired, w')"
  shows "wheel_inv w' \<and> current_ms w' = current_ms w + 1 \<and> distinct (map tid fired)
    \<and> (\<forall>i v. (i, v) \<in> (\<lambda>e. (tid e, payload e)) ` set fired \<longleftrightarrow> timers w i = Some (current_ms w + 1, v))
    \<and> (\<forall>i t v. timers w' i = Some (t, v) \<longleftrightarrow> timers w i = Some (t, v) \<and> t \<noteq> current_ms w + 1)"
proof -
  define now where "now = current_ms w"
  obtain fired' w2 where fs: "fire_slot 0 ((now + 1) mod 256) (w\<lparr>current_ms := now + 1\<rparr>) = (fired', w2)"
    by (meson surj_pair)
  with step have f: "fired' = fired" and w': "w' = cascade_levels 3 w2"
    by (simp_all add: now_def tick_step_def Let_def and_255 [unfolded One_nat_def] LEVELS_def)
  have ok: "wheel_ok [] w" and st: "settled 4 w" using inv by (auto simp: wheel_inv_def)
  from fire_step [OF inv now_def fs] f have ok2: "wheel_ok [] w2" and c2: "current_ms w2 = now + 1"
    and di: "distinct fired"
    and es: "\<And>e. e \<in> set fired \<longleftrightarrow> linked w e \<and> due now (e_level e) (expiry_ms e) = now + 1"
    and l2: "\<And>e. linked w2 e \<longleftrightarrow> linked w e \<and> due now (e_level e) (expiry_ms e) \<noteq> now + 1"
    by auto
  have keep: "place 1 (now + 1) (e_level x) (e_slot x) (expiry_ms x)
      \<and> timer_of (now + 1) x = timer_of now x" if "linked w2 x" for x
    using that st clock_keep [of now "e_level x" "e_slot x" "expiry_ms x"] l2 [of x]
    by (auto simp: settled_def now_def timer_of_def)
  then have "settled (4 - 3) w2" by (simp add: settled_def c2)
  from cascade_levels_step [OF ok2 this] have inv': "wheel_inv w'" and tm: "timers w' = timers w2"
    by (simp_all add: c2 w')
  have "current_ms w' = now + 1" by (simp add: w' current_ms_cascade_levels c2)
  moreover have "distinct (map tid fired)"
    using di es linked_unique [OF ok] by (auto simp: distinct_map inj_on_def)
  moreover have "(i, v) \<in> (\<lambda>e. (tid e, payload e)) ` set fired \<longleftrightarrow> timers w i = Some (now + 1, v)" for i v
    unfolding timers_linked [OF ok] using es by (auto simp: timer_of_def image_iff now_def)
  moreover have "timers w' i = Some (t, v) \<longleftrightarrow> timers w i = Some (t, v) \<and> t \<noteq> now + 1" for i t v
    unfolding tm timers_linked [OF ok] timers_linked [OF ok2] c2 using keep l2
    by (auto simp: timer_of_def now_def)
  ultimately show ?thesis using inv' unfolding now_def by blast
qed

end
