(* ===== verification/Timer_Wheel_Spec.thy ===== *)
theory Timer_Wheel_Spec
  imports Timer_Wheel_Timing
begin

text \<open>
  What the timer wheel promises. Its abstract state is the timer table \<open>timers w\<close>: the clock value
  at which each pending timer fires, and its callback. The operations are refinements of
  operations on the table: \<open>tick\<close> takes out exactly the timers whose time it reaches, each at its
  own clock value; \<open>schedule\<close> adds one entry; \<open>cancel\<close> removes one; \<open>next_expiry_ms\<close> reads the
  earliest expiry. The properties hold of every wheel reachable by these operations.
\<close>

section \<open>Ticking\<close>

lemma timers_future:
  assumes "wheel_inv w" and "timers w i = Some (t, v)"
  shows "current_ms w < t"
proof -
  have ok: "wheel_ok [] w" and st: "settled 4 w" using assms(1) by (auto simp: wheel_inv_def)
  from assms(2) obtain e where e: "linked w e" "timer_of (current_ms w) e = (t, v)"
    unfolding timers_linked [OF ok] by blast
  with st have pl: "place 4 (current_ms w) (e_level e) (e_slot e) (expiry_ms e)"
    by (simp add: settled_def)
  have "boundary (e_level e) (expiry_ms e) \<le> expiry_ms e" by (simp add: boundary_def)
  with pl have "current_ms w < due (current_ms w) (e_level e) (expiry_ms e)"
    by (auto simp: place_def due_def split: if_splits)
  with e show ?thesis by (simp add: timer_of_def)
qed

definition log_view :: "(nat \<times> 'cb entry) list \<Rightarrow> (nat \<times> nat \<times> nat \<times> 'cb option) list" where
  "log_view l = map (\<lambda>(t, e). (t, tid e, payload e)) l"

lemma log_view_append: "log_view (map (Pair t) es @ l) = map (\<lambda>e. (t, tid e, payload e)) es @ log_view l"
  by (simp add: log_view_def)

lemma tick_loop_spec:
  assumes "wheel_inv w" and "tick_loop target w = (l, w')" and "current_ms w \<le> target"
  shows "wheel_inv w' \<and> current_ms w' = target
    \<and> (\<forall>t i v. (t, i, v) \<in> set (log_view l) \<longleftrightarrow> timers w i = Some (t, v) \<and> t \<le> target)
    \<and> (\<forall>i t v. timers w' i = Some (t, v) \<longleftrightarrow> timers w i = Some (t, v) \<and> target < t)
    \<and> distinct (map (fst \<circ> snd) (log_view l)) \<and> sorted (map fst (log_view l))"
  using assms
proof (induction "target - current_ms w" arbitrary: w l)
  case 0
  then have "current_ms w = target" by simp
  with 0 show ?case
    by (auto simp: tick_loop.simps [of target w] log_view_def dest: timers_future)
next
  case (Suc n)
  then have lt: "current_ms w < target" by simp
  obtain fired w1 where st: "tick_step w = (fired, w1)" by (meson surj_pair)
  obtain later where tl: "tick_loop target w1 = (later, w')"
    and l: "l = map (Pair (current_ms w1)) fired @ later"
    using Suc.prems(2) lt st by (auto simp: tick_loop.simps [of target w] split: prod.splits)
  note sp = tick_step_spec [OF Suc.prems(1) st]
  let ?t = "current_ms w + 1"
  have c1: "current_ms w1 = ?t" and inv1: "wheel_inv w1" using sp by simp_all
  have ih: "wheel_inv w' \<and> current_ms w' = target
    \<and> (\<forall>t i v. (t, i, v) \<in> set (log_view later) \<longleftrightarrow> timers w1 i = Some (t, v) \<and> t \<le> target)
    \<and> (\<forall>i t v. timers w' i = Some (t, v) \<longleftrightarrow> timers w1 i = Some (t, v) \<and> target < t)
    \<and> distinct (map (fst \<circ> snd) (log_view later)) \<and> sorted (map fst (log_view later))"
    by (rule Suc.hyps(1)) (use Suc.hyps(2) c1 lt inv1 tl in auto)
  have t1: "timers w1 i = Some (t, v) \<longleftrightarrow> timers w i = Some (t, v) \<and> t \<noteq> ?t" for i t v
    using sp by blast
  have lv: "log_view l = map (\<lambda>e. (?t, tid e, payload e)) fired @ log_view later"
    by (simp add: l log_view_append c1)
  have fi: "timers w i = Some (?t, v) \<longleftrightarrow> (i, v) \<in> (\<lambda>e. (tid e, payload e)) ` set fired" for i v
    using sp by blast
  have now: "(t, i, v) \<in> set (map (\<lambda>e. (?t, tid e, payload e)) fired) \<longleftrightarrow> t = ?t \<and> timers w i = Some (?t, v)" for t i v
    unfolding fi by (auto simp only: set_map image_iff prod.inject)
  have in_later: "(t, i, v) \<in> set (log_view later) \<longleftrightarrow> timers w1 i = Some (t, v) \<and> t \<le> target" for t i v
    using ih by blast
  have later: "timers w' i = Some (t, v) \<longleftrightarrow> timers w1 i = Some (t, v) \<and> target < t" for i t v
    using ih by blast
  have "(t, i, v) \<in> set (log_view l) \<longleftrightarrow> timers w i = Some (t, v) \<and> t \<le> target" for t i v
    unfolding lv set_append Un_iff now in_later t1 using lt by auto
  moreover have "timers w' i = Some (t, v) \<longleftrightarrow> timers w i = Some (t, v) \<and> target < t" for i t v
    unfolding later t1 using lt by auto
  moreover have "distinct (map (fst \<circ> snd) (log_view l))"
  proof -
    have "\<exists>v. timers w i = Some (?t, v)" if "i \<in> tid ` set fired" for i
      unfolding fi using that by blast
    then have "i \<notin> (fst \<circ> snd) ` set (log_view later)" if "i \<in> tid ` set fired" for i
      using that by (fastforce simp: in_later t1)
    moreover have "map (fst \<circ> snd) (log_view l) = map tid fired @ map (fst \<circ> snd) (log_view later)"
      by (simp add: lv)
    ultimately show ?thesis using sp ih by auto
  qed
  moreover have "sorted (map fst (log_view l))"
  proof -
    have "?t \<le> t" if "(t, i, v) \<in> set (log_view later)" for t i v
      using that timers_future [OF inv1] c1 by (fastforce simp: in_later)
    moreover have "map fst (log_view l) = replicate (length fired) ?t @ map fst (log_view later)"
      by (simp add: lv comp_def map_replicate_const)
    ultimately show ?thesis using ih by (auto simp: sorted_append)
  qed
  ultimately show ?case using ih by blast
qed

section \<open>Scheduling and cancelling\<close>

text \<open>The clock value at which a timer armed at \<open>now\<close> with the given delay fires.\<close>

definition fire_time :: "nat \<Rightarrow> nat \<Rightarrow> nat" where
  "fire_time now delay =
     (if delay = 0 then now + 256
      else if delay < 256 \<or> \<not> 256 dvd now + delay then now + delay else now + delay + 256)"

lemma slot_count: "pool_inv p \<Longrightarrow> card (slot_addrs p) = fp_capacity p"
proof -
  assume "pool_inv p"
  then have "0 < slot_size p" by (simp add: pool_inv_def)
  then have "inj_on (slot_addr (storage p) (slot_size p)) {..<fp_capacity p}"
    by (auto simp: inj_on_def slot_addr_def)
  then show ?thesis by (simp add: slot_addrs_def card_image)
qed

lemma full_iff:
  assumes "wheel_ok [] w"
  shows "fst (allocate (tw_pool w)) = None \<longleftrightarrow> tw_count w = fp_capacity (tw_pool w)"
proof -
  let ?p = "tw_pool w"
  have h: "fixed.held_ok ?p (map (e_addr \<circ> snd) (tw_index w))" and c: "tw_count w = length (tw_index w)"
    using assms by (simp_all add: wheel_ok_def book_ok_def)
  then have inv: "pool_inv ?p" by (simp add: fixed.held_ok_def)
  have "tw_count w + length (free_addrs ?p) = fp_capacity ?p"
    using fixed.held_length [OF h] c slot_count [OF inv] by simp
  moreover have "fst (allocate ?p) = None \<longleftrightarrow> free_addrs ?p = []"
    using fixed.alloc_empty [OF inv] fixed.alloc_slot [OF inv] by (cases "free_addrs ?p") auto
  ultimately show ?thesis by auto
qed

lemma schedule_full:
  assumes "fst (allocate (tw_pool w)) = None"
  shows "schedule delay f w = (kInvalid, w)"
proof -
  from assms have "allocate (tw_pool w) = (None, tw_pool w)"
    by (auto simp: allocate_def split: option.splits)
  then show ?thesis by (simp add: schedule_def)
qed

lemma schedule_table:
  assumes inv: "wheel_inv w" and "next_id w + 1 < 2 ^ 64" and "current_ms w + delay < 2 ^ 64"
    and al: "allocate (tw_pool w) = (Some a, p)" and sch: "schedule delay f w = (i, w')"
  shows "i = next_id w \<and> wheel_inv w' \<and> current_ms w' = current_ms w \<and> timers w i = None
    \<and> timers w' = (timers w)(i \<mapsto> (fire_time (current_ms w) delay, current_ms w + delay, f))"
proof -
  let ?e = "new_entry a delay f w" and ?now = "current_ms w"
  let ?w = "admit p ?e w"
  let ?r = "relocate ?now ?e"
  have ok: "wheel_ok [] w" and st: "settled 4 w" using inv by (auto simp: wheel_inv_def)
  have i: "i = next_id w" and w': "w' = insert_entry ?e ?w"
    using schedule_admits [OF ok assms(2) al] sch by auto
  have ok': "wheel_ok [] w'" using schedule_ok [OF ok assms(2)] sch by (metis snd_conv)
  have cur: "current_ms w' = ?now" by (simp add: w' wheel_simps admit_def)
  have lk: "linked w' x \<longleftrightarrow> x = ?r \<or> linked w x" for x
    unfolding w' insert_entry_linked by (simp add: admit_def linked_def)
  have x: "expiry_ms ?e = ?now + delay" using assms(3) by (simp add: new_entry_def)
  have "place 4 ?now (e_level ?r) (e_slot ?r) (expiry_ms ?r)"
    using place_new [of ?now "?now + delay"] x by (simp add: relocate_def)
  then have "settled 4 w'" using st by (auto simp: settled_def cur lk)
  moreover have fresh: "timers w i = None"
    using fresh_id [OF ok] by (simp add: timers_def i map_of_eq_None_iff)
  moreover have tr: "timer_of ?now ?r = (fire_time ?now delay, ?now + delay, f)"
    using due_new [of ?now "?now + delay"] x
    by (auto simp: timer_of_def relocate_def fire_time_def new_entry_def payload_def)
  have tid: "tid ?r = i" by (simp add: new_entry_def i)
  have "timers w' j = ((timers w)(i \<mapsto> (fire_time ?now delay, ?now + delay, f))) j" for j
  proof (cases "j = i")
    case True
    have "timers w' i = Some (fire_time ?now delay, ?now + delay, f)"
      unfolding timers_linked [OF ok'] cur using lk tr tid by blast
    with True show ?thesis by simp
  next
    case False
    have "timers w' j = timers w j"
      by (rule timers_eqI) (use False tid in \<open>auto simp: timers_linked [OF ok'] timers_linked [OF ok] cur lk\<close>)
    with False show ?thesis by simp
  qed
  ultimately show ?thesis using i ok' cur by (auto simp: wheel_inv_def)
qed

lemma cancel_table:
  assumes inv: "wheel_inv w" and c: "cancel i w = (r, w')"
  shows "wheel_inv w' \<and> current_ms w' = current_ms w \<and> r = (timers w i \<noteq> None)
    \<and> timers w' = (timers w)(i := None)"
proof (cases "map_of (tw_index w) i")
  case None
  with cancel_miss [OF None] c inv show ?thesis by (auto simp: timers_def)
next
  case (Some e)
  have ok: "wheel_ok [] w" and st: "settled 4 w" using inv by (auto simp: wheel_inv_def)
  have e: "linked w e" "tid e = i" using Some index_lookup [OF ok] by auto
  have r: "r" and w': "w' = discard e (unlink (e_level e) (e_slot e) e w)"
    using cancel_hit [OF ok Some] c by auto
  have ok': "wheel_ok [] w'" using cancel_ok [OF ok] c by (metis snd_conv)
  have cur: "current_ms w' = current_ms w" by (simp add: w' unlink_def wheel_simps)
  have "linked w' = linked (unlink (e_level e) (e_slot e) e w)"
    by (auto simp: w' linked_def wheel_simps)
  then have lk: "linked w' x \<longleftrightarrow> linked w x \<and> x \<noteq> e" for x using unlink_linked [OF ok e(1)] by simp
  have "settled 4 w'" using st by (simp add: settled_def cur lk)
  moreover have "timers w' j = ((timers w)(i := None)) j" for j
  proof (cases "j = i")
    case True
    have "timers w' i \<noteq> Some v" for v
      using lk linked_unique [OF ok e(1)] e(2) timers_linked [OF ok', of i v] by metis
    then have "timers w' i = None" by (metis not_None_eq)
    with True show ?thesis by simp
  next
    case False
    have "timers w' j = timers w j"
      by (rule timers_eqI) (use False e in \<open>auto simp: timers_linked [OF ok'] timers_linked [OF ok] cur lk\<close>)
    with False show ?thesis by simp
  qed
  ultimately show ?thesis using r ok' cur Some by (auto simp: wheel_inv_def timers_def)
qed

section \<open>The earliest expiry\<close>

lemma scan_min:
  "fold (\<lambda>(i, e) earliest. if expiry_ms e < earliest then expiry_ms e else earliest) al m =
     Min (insert m (expiry_ms ` snd ` set al))"
proof (induction al arbitrary: m)
  case (Cons a al)
  obtain i e where a: "a = (i, e)" by (meson surj_pair)
  have "insert (if expiry_ms e < m then expiry_ms e else m) X = (if expiry_ms e < m then insert (expiry_ms e) X else insert m X)" for X
    by simp
  moreover have "Min (insert (if expiry_ms e < m then expiry_ms e else m) X) = Min (insert m (insert (expiry_ms e) X))"
    if "finite X" for X :: "nat set"
    using that by (cases "X = {}") (auto simp: min_def not_less)
  ultimately show ?case using Cons.IH by (simp add: a)
qed simp

definition expiries :: "'cb wheel \<Rightarrow> nat set" where
  "expiries w = expiry_ms ` snd ` set (tw_index w)"

definition bounded :: "'cb wheel \<Rightarrow> bool" where
  "bounded w \<longleftrightarrow> (\<forall>i t x f. timers w i = Some (t, x, f) \<longrightarrow> x < 2 ^ 64)"

lemma expiries_timers:
  assumes "wheel_ok [] w"
  shows "expiries w = {x. \<exists>i t f. timers w i = Some (t, x, f)}"
proof -
  have "distinct (map fst (tw_index w))" using assms by (simp add: wheel_ok_def index_ok_def)
  then have "(i, e) \<in> set (tw_index w) \<longleftrightarrow> map_of (tw_index w) i = Some e" for i e by simp
  then show ?thesis
    by (auto simp: expiries_def timers_def timer_of_def payload_def image_iff Bex_def) metis+
qed

lemma cache_refresh:
  assumes inv: "wheel_inv w" and b: "bounded w" and ne: "tw_index w \<noteq> []"
    and nx: "next_expiry_ms w = (n, w')"
  shows "n = Min (expiries w) - current_ms w \<and> wheel_inv w' \<and> timers w' = timers w
    \<and> current_ms w' = current_ms w \<and> next_id w' = next_id w"
proof -
  let ?x = "expiries w"
  let ?m = "if min_valid w then cached_min_expiry w else Min (insert UINT64_MAX ?x)"
  have ok: "wheel_ok [] w" using inv by (simp add: wheel_inv_def)
  have fin: "finite ?x" "?x \<noteq> {}" using ne by (auto simp: expiries_def)
  have c: "tw_count w \<noteq> 0" using ok ne by (simp add: wheel_ok_def book_ok_def)
  have ca: "cache_ok w" using ok by (simp add: wheel_ok_def book_ok_def)
  have le: "x \<le> UINT64_MAX" if "x \<in> ?x" for x
  proof -
    from that expiries_timers [OF ok] obtain i t f where "timers w i = Some (t, x, f)" by auto
    with b have "x < 2 ^ 64" unfolding bounded_def by blast
    then show ?thesis by (simp add: UINT64_MAX_def)
  qed
  have m: "?m = Min ?x"
  proof (cases "min_valid w")
    case True
    with ca fin show ?thesis
      by (auto simp: cache_ok_def expiries_def image_image intro!: Min_eqI [symmetric])
  next
    case False
    have "Min (insert UINT64_MAX ?x) = Min ?x" 
      using Min_insert [OF fin] le [OF Min_in [OF fin]] by simp
    with False show ?thesis by simp
  qed
  have "next_expiry_ms w = (?m - current_ms w, w\<lparr>cached_min_expiry := ?m, min_valid := True\<rparr>)"
    using c by (auto simp: next_expiry_ms_def Let_def scan_min expiries_def)
  with nx m have n: "n = Min ?x - current_ms w"
    and w': "w' = w\<lparr>cached_min_expiry := Min ?x, min_valid := True\<rparr>" by auto
  have lk: "linked w' = linked w" by (auto simp: w' linked_def)
  have "cache_ok w'"
    using fin Min_in [OF fin] by (auto simp: cache_ok_def w' expiries_def image_image)
  then have "wheel_ok [] w'" using ok by (simp add: wheel_ok_defs lk) (simp add: w')
  moreover have "settled 4 w'" using inv by (simp add: wheel_inv_def settled_def lk) (simp add: w')
  moreover have "timers w' = timers w" by (rule ext) (simp add: timers_def w')
  ultimately show ?thesis using n by (simp add: wheel_inv_def w')
qed

lemma next_expiry_idle: "tw_count w = 0 \<Longrightarrow> next_expiry_ms w = (UINT64_MAX, w)"
  by (simp add: next_expiry_ms_def)

section \<open>Reachable wheels\<close>

text \<open>
  The wheels a program can produce: the constructor on a non-empty pool and then any sequence of
  operations, as long as neither the id counter nor a clock value leaves \<open>uint64_t\<close>.
\<close>

inductive wheel_reach :: "'cb wheel \<Rightarrow> bool" where
  init: "FixedPoolResource objectSize alignment base mem capacity = Some p \<Longrightarrow>
    0 < kSlotSize objectSize alignment \<Longrightarrow> wheel_reach (TimerWheel p)"
| schedule: "wheel_reach w \<Longrightarrow> next_id w + 1 < 2 ^ 64 \<Longrightarrow> current_ms w + delay < 2 ^ 64 \<Longrightarrow>
    schedule delay f w = (i, w') \<Longrightarrow> wheel_reach w'"
| cancel: "wheel_reach w \<Longrightarrow> cancel i w = (r, w') \<Longrightarrow> wheel_reach w'"
| tick: "wheel_reach w \<Longrightarrow> current_ms w + elapsed < 2 ^ 64 \<Longrightarrow> tick elapsed w = (l, w') \<Longrightarrow> wheel_reach w'"
| poll: "wheel_reach w \<Longrightarrow> next_expiry_ms w = (n, w') \<Longrightarrow> wheel_reach w'"

lemma filter_table:
  assumes "\<And>t v. m' = Some (t, v) \<longleftrightarrow> m = Some (t, v) \<and> T < (t::nat)"
  shows "m' = (case m of None \<Rightarrow> None | Some (t, v) \<Rightarrow> if t \<le> T then None else Some (t, v))"
proof (cases m)
  case None
  with assms show ?thesis by (cases m') auto
next
  case (Some tv)
  obtain t v where "tv = (t, v)" by (meson surj_pair)
  with Some have m: "m = Some (t, v)" by simp
  show ?thesis
  proof (cases "T < t")
    case False
    then have "m' = None" using assms m by (metis not_None_eq option.inject prod.collapse prod.inject)
    with m False show ?thesis by simp
  qed (use assms m in simp)
qed

lemma tick_spec:
  assumes "wheel_inv w" and "current_ms w + elapsed < 2 ^ 64" and "tick elapsed w = (l, w')"
  shows "wheel_inv w' \<and> current_ms w' = current_ms w + elapsed
    \<and> (\<forall>t i v. (t, i, v) \<in> set (log_view l) \<longleftrightarrow> timers w i = Some (t, v) \<and> t \<le> current_ms w + elapsed)
    \<and> (\<forall>i t v. timers w' i = Some (t, v) \<longleftrightarrow> timers w i = Some (t, v) \<and> current_ms w + elapsed < t)
    \<and> distinct (map (fst \<circ> snd) (log_view l)) \<and> sorted (map fst (log_view l))"
  using tick_loop_spec [OF assms(1), of "current_ms w + elapsed" l w'] assms(2,3) by (simp add: tick_def)

lemma reach_inv: "wheel_reach w \<Longrightarrow> wheel_inv w \<and> bounded w"
proof (induction rule: wheel_reach.induct)
  case (init objectSize alignment base mem capacity p)
  then have "fixed.held_ok p []" using init_held by blast
  from wheel_ok_init [OF this] show ?case
    by (auto simp: wheel_inv_def settled_def linked_def TimerWheel_def bounded_def timers_def)
next
  case (schedule w delay f i w')
  show ?case
  proof (cases "fst (allocate (tw_pool w)) = None")
    case True
    with schedule schedule_full [OF True, of delay f] show ?thesis by auto
  next
    case False
    then obtain a p where "allocate (tw_pool w) = (Some a, p)" by (cases "allocate (tw_pool w)") auto
    from schedule_table [OF _ schedule(2,3) this schedule(4)] schedule show ?thesis
      unfolding bounded_def by (auto split: if_splits)
  qed
next
  case (cancel w i r w')
  then show ?case using cancel_table [of w i r w'] unfolding bounded_def by auto
next
  case (tick w elapsed l w')
  then show ?case using tick_spec [of w elapsed l w'] unfolding bounded_def by blast
next
  case (poll w n w')
  show ?case
  proof (cases "tw_index w = []")
    case True
    with poll have "tw_count w = 0" by (simp add: wheel_inv_def wheel_ok_def book_ok_def)
    with poll next_expiry_idle [of w] show ?thesis by auto
  next
    case False
    with poll cache_refresh [of w n w'] show ?thesis by (auto simp: bounded_def)
  qed
qed

section \<open>Clearing\<close>

lemma concat_upt_set: "set (concat (map f [0..<n])) = (\<Union>i < n. set (f i))"
  by (auto simp: lessThan_atLeast0)

lemma distinct_concat_upt:
  "(\<And>i. i < n \<Longrightarrow> distinct (f i)) \<Longrightarrow>
   (\<And>i j. i < j \<Longrightarrow> j < n \<Longrightarrow> set (f i) \<inter> set (f j) = {}) \<Longrightarrow> distinct (concat (map f [0..<n]))"
proof (induction n)
  case (Suc n)
  then have "distinct (concat (map f [0..<n]))" by simp
  moreover have "set (concat (map f [0..<n])) \<inter> set (f n) = {}"
    unfolding concat_upt_set using Suc.prems(2) [of _ n] by auto
  ultimately show ?case using Suc.prems(1) by simp
qed simp

lemma all_entries_linked:
  assumes "wheel_ok [] w"
  shows "e \<in> set (all_entries w) \<longleftrightarrow> linked w e" and "distinct (all_entries w)"
proof -
  have s: "e \<in> set (tw_slots w lv sl) \<longleftrightarrow> linked w e \<and> e_level e = lv \<and> e_slot e = sl" for e lv sl
    by (rule slots_linked [OF assms])
  have d: "distinct (tw_slots w lv sl)" for lv sl
    using assms by (simp add: wheel_ok_def slots_ok_def)
  have "linked w e \<Longrightarrow> e_level e < LEVELS \<and> e_slot e < SLOTS_PER_LEVEL"
    using assms unfolding linked_def wheel_ok_def slots_ok_def by blast
  then show "e \<in> set (all_entries w) \<longleftrightarrow> linked w e"
    unfolding all_entries_def concat_upt_set by (auto simp: s)
  show "distinct (all_entries w)"
    unfolding all_entries_def by (intro distinct_concat_upt d) (auto simp: concat_upt_set s)
qed

lemma clear_pool:
  assumes ok: "wheel_ok [] w"
  shows "fixed.held_ok (tw_pool (clear w)) []"
proof -
  let ?as = "map e_addr (all_entries w)"
  let ?hs = "map (e_addr \<circ> snd) (tw_index w)"
  have h: "fixed.held_ok (tw_pool w) ?hs" using ok by (simp add: wheel_ok_def book_ok_def)
  have d: "distinct ?as"
    using all_entries_linked [OF ok] addr_unique [OF ok] by (auto simp: distinct_map inj_on_def)
  have "e \<in> snd ` set (tw_index w) \<longleftrightarrow> linked w e" for e
  proof -
    have "distinct (map fst (tw_index w))" using ok by (simp add: wheel_ok_def index_ok_def)
    then have "(i, e) \<in> set (tw_index w) \<longleftrightarrow> tid e = i \<and> linked w e" for i
      using index_lookup [OF ok, of i e] by simp
    then show ?thesis by (metis (no_types, lifting) image_iff prod.collapse snd_conv)
  qed
  then have "snd ` set (tw_index w) = set (all_entries w)" using all_entries_linked(1) [OF ok] by blast
  then have "set ?hs = set ?as" by (metis image_comp list.set_map)
  with fixed.dealloc_many [OF h d] obtain hs'
    where hs': "fixed.held_ok (fold (\<lambda>s q. deallocate q s) ?as (tw_pool w)) hs'" "set hs' = {}" by auto
  then show ?thesis by (simp add: clear_def fold_map comp_def)
qed

section \<open>A small wheel\<close>

text \<open>A pool of two entries and one armed timer, on which the properties are exercised.\<close>

definition small_pool :: fixed_pool where
  "small_pool =
     \<lparr> fp_capacity = 2, fp_used = 0, free_list = Some 64, storage = 64, slot_size = 24,
       cells = (\<lambda>_. None)(64 := Some 88, 88 := None) \<rparr>"

definition small_wheel :: "unit wheel" where
  "small_wheel = snd (schedule 3 (Some ()) (TimerWheel small_pool))"

lemma small_init: "FixedPoolResource 24 8 64 (\<lambda>_. None) 2 = Some small_pool"
  and small_slot: "0 < kSlotSize 24 8"
proof -
  have k: "unat (kSlotSize 24 8) = 24" by (simp add: kSlotSize_def)
  then show "FixedPoolResource 24 8 64 (\<lambda>_. None) 2 = Some small_pool"
    by (simp add: FixedPoolResource_def small_pool_def slot_addr_def Let_def numeral_2_eq_2)
  show "0 < kSlotSize 24 8" by (simp add: kSlotSize_def)
qed

lemma small_empty:
  "wheel_reach (TimerWheel small_pool)" "current_ms (TimerWheel small_pool) = 0"
  "next_id (TimerWheel small_pool) = 1" "timers (TimerWheel small_pool) = Map.empty"
  "tw_count (TimerWheel small_pool) = 0" "fp_capacity (tw_pool (TimerWheel small_pool)) = 2"
proof -
  show "wheel_reach (TimerWheel small_pool)" by (rule wheel_reach.init [OF small_init small_slot])
qed (simp_all add: TimerWheel_def timers_def fun_eq_iff small_pool_def)

lemma small_armed:
  "wheel_reach small_wheel \<and> current_ms small_wheel = 0 \<and> timers small_wheel = [1 \<mapsto> (3, 3, Some ())]"
proof -
  obtain i where s: "schedule 3 (Some ()) (TimerWheel small_pool) = (i, small_wheel)"
    unfolding small_wheel_def by (metis surj_pair snd_conv)
  have al: "allocate (tw_pool (TimerWheel small_pool :: unit wheel)) =
      (Some 64, small_pool\<lparr>free_list := Some 88, fp_used := 1\<rparr>)"
    by (simp add: TimerWheel_def allocate_def small_pool_def)
  have "wheel_inv (TimerWheel small_pool :: unit wheel)" using reach_inv [OF small_empty(1)] by blast
  from schedule_table [OF this _ _ al s]
  have "i = 1 \<and> current_ms small_wheel = 0 \<and> timers small_wheel = [1 \<mapsto> (3, 3, Some ())]"
    by (simp add: small_empty fire_time_def)
  moreover have "wheel_reach small_wheel"
    by (rule wheel_reach.schedule [OF small_empty(1) _ _ s]) (simp_all add: small_empty)
  ultimately show ?thesis by blast
qed

section \<open>Properties\<close>

text \<open>C5: a tick of \<open>elapsed\<close> ms on a reachable wheel runs exactly the callbacks whose fire time lies
  within it: the log holds each such timer once, at its own fire time, in order of time; the clock
  advances by \<open>elapsed\<close>; the other timers stay armed with their fire times.\<close>

theorem tick_fires_exactly:
  assumes "wheel_reach w" and "current_ms w + elapsed < 2 ^ 64" and "tick elapsed w = (l, w')"
  shows "set (log_view l) = {(t, i, v). timers w i = Some (t, v) \<and> t \<le> current_ms w + elapsed}
    \<and> distinct (map (fst \<circ> snd) (log_view l)) \<and> sorted (map fst (log_view l))
    \<and> current_ms w' = current_ms w + elapsed
    \<and> (\<forall>i. timers w' i =
         (case timers w i of None \<Rightarrow> None
          | Some (t, v) \<Rightarrow> if t \<le> current_ms w + elapsed then None else Some (t, v)))"
proof -
  let ?T = "current_ms w + elapsed"
  note sp = tick_spec [OF _ assms(2,3)]
  have inv: "wheel_inv w" using reach_inv assms(1) by blast
  from sp [OF inv] have lg: "(t, i, v) \<in> set (log_view l) \<longleftrightarrow> timers w i = Some (t, v) \<and> t \<le> ?T" for t i v
    by blast
  have tm: "timers w' i = Some (t, v) \<longleftrightarrow> timers w i = Some (t, v) \<and> ?T < t" for t i v
    using sp [OF inv] by blast
  have "timers w' i = (case timers w i of None \<Rightarrow> None
      | Some (t, v) \<Rightarrow> if t \<le> ?T then None else Some (t, v))" for i
    by (rule filter_table) (rule tm)
  then show ?thesis using sp [OF inv] lg by auto
qed

theorem tick_fires_exactly_witness:
  "wheel_reach small_wheel \<and> set (log_view (fst (tick 5 small_wheel))) = {(3, 1, 3, Some ())}
   \<and> timers (snd (tick 5 small_wheel)) 1 = None"
proof -
  obtain l w' where t: "tick 5 small_wheel = (l, w')" by (meson surj_pair)
  have r: "wheel_reach small_wheel" and c: "current_ms small_wheel = 0"
    and tm: "timers small_wheel = [1 \<mapsto> (3, 3, Some ())]" using small_armed by auto
  from tick_fires_exactly [OF r _ t]
  have "set (log_view l) = {(t, i, v). timers small_wheel i = Some (t, v) \<and> t \<le> 5}
    \<and> timers w' 1 = None" by (simp add: c tm)
  moreover have "{(t, i, v). timers small_wheel i = Some (t, v) \<and> t \<le> 5} = {(3, 1, 3, Some ())}"
    by (auto simp: tm split: if_splits)
  ultimately show ?thesis using r t by simp
qed

text \<open>C20: scheduling on a reachable wheel fails exactly when as many timers are pending as the pool has
  slots, and then changes nothing; otherwise it hands out an unused id and arms one timer. The timer
  fires after its delay, except that a timer of delay 0, and a timer of at least 256 ms that expires
  on a multiple of 256 ms, fires 256 ms late.\<close>

theorem schedule_arms:
  assumes "wheel_reach w" and "next_id w + 1 < 2 ^ 64" and "current_ms w + delay < 2 ^ 64"
    and "schedule delay f w = (i, w')"
  shows "if tw_count w = fp_capacity (tw_pool w) then i = kInvalid \<and> w' = w
    else i \<noteq> kInvalid \<and> timers w i = None
      \<and> timers w' = (timers w)(i \<mapsto> (fire_time (current_ms w) delay, current_ms w + delay, f))"
proof -
  have inv: "wheel_inv w" and ok: "wheel_ok [] w" using reach_inv [OF assms(1)] by (auto simp: wheel_inv_def)
  show ?thesis
  proof (cases "fst (allocate (tw_pool w)) = None")
    case True
    with full_iff [OF ok] schedule_full [OF True, of delay f] assms(4) show ?thesis by simp
  next
    case False
    then obtain a p where "allocate (tw_pool w) = (Some a, p)" by (cases "allocate (tw_pool w)") auto
    note st = schedule_table [OF inv assms(2,3) this assms(4)]
    have "0 < next_id w" using ok by (simp add: wheel_ok_def book_ok_def)
    with st full_iff [OF ok] False show ?thesis by (auto simp: kInvalid_def)
  qed
qed

theorem schedule_arms_witness:
  "wheel_reach (TimerWheel small_pool :: unit wheel)
   \<and> timers (snd (schedule 0 (Some ()) (TimerWheel small_pool))) = [1 \<mapsto> (256, 0, Some ())]
   \<and> timers (snd (schedule 256 (Some ()) (TimerWheel small_pool))) = [1 \<mapsto> (512, 256, Some ())]"
proof -
  let ?w = "TimerWheel small_pool :: unit wheel"
  have id: "fst (schedule d f ?w) = 1" for d f
    by (simp add: schedule_def TimerWheel_def small_pool_def allocate_def Let_def kInvalid_def)
  have "schedule d f ?w = (1, snd (schedule d f ?w))" for d f using id by (metis prod.collapse)
  from schedule_arms [OF small_empty(1) _ _ this [of 0 "Some ()"]]
    schedule_arms [OF small_empty(1) _ _ this [of 256 "Some ()"]]
  show ?thesis using small_empty(1) by (simp add: small_empty fire_time_def)
qed

text \<open>C21: cancelling returns whether the timer was pending, and removes that timer and no other.\<close>

theorem cancel_disarms:
  assumes "wheel_reach w" and "cancel i w = (r, w')"
  shows "r = (timers w i \<noteq> None) \<and> timers w' = (timers w)(i := None) \<and> current_ms w' = current_ms w"
  using cancel_table [OF _ assms(2)] reach_inv [OF assms(1)] by blast

theorem cancel_disarms_witness:
  "wheel_reach small_wheel \<and> fst (cancel 1 small_wheel) \<and> \<not> fst (cancel 7 small_wheel)
   \<and> timers (snd (cancel 1 small_wheel)) = Map.empty"
proof -
  have r: "wheel_reach small_wheel" and tm: "timers small_wheel = [1 \<mapsto> (3, 3, Some ())]"
    using small_armed by auto
  have c: "cancel i small_wheel = (fst (cancel i small_wheel), snd (cancel i small_wheel))" for i by simp
  show ?thesis using r cancel_disarms [OF r c [of 1]] cancel_disarms [OF r c [of 7]] by (simp add: tm)
qed

text \<open>C22: the poll timeout is \<open>UINT64_MAX\<close> when no timer is pending, and otherwise the time to the earliest
  expiry, cached or not. A reactor that sleeps that long never oversleeps a timer, and some timer
  fires within 256 ms of the wake-up.\<close>

theorem next_expiry_earliest:
  assumes "wheel_reach w" and "next_expiry_ms w = (n, w')"
  shows "timers w' = timers w
    \<and> (if timers w = Map.empty then n = UINT64_MAX
       else n = Min {x. \<exists>i t f. timers w i = Some (t, x, f)} - current_ms w
         \<and> (\<forall>i t v. timers w i = Some (t, v) \<longrightarrow> current_ms w + n \<le> t)
         \<and> (\<exists>i t v. timers w i = Some (t, v) \<and> t \<le> current_ms w + n + 256))"
proof (cases "tw_index w = []")
  case True
  have "tw_count w = 0" using reach_inv [OF assms(1)] True by (simp add: wheel_inv_def wheel_ok_def book_ok_def)
  moreover have "timers w = Map.empty" using True by (simp add: timers_def fun_eq_iff)
  ultimately show ?thesis using next_expiry_idle [of w] assms(2) by auto
next
  case False
  have inv: "wheel_inv w" and ok: "wheel_ok [] w" and b: "bounded w"
    using reach_inv [OF assms(1)] by (auto simp: wheel_inv_def)
  from cache_refresh [OF inv b False assms(2)] have n: "n = Min (expiries w) - current_ms w"
    and t: "timers w' = timers w" by auto
  have fin: "finite (expiries w)" "expiries w \<noteq> {}" using False by (auto simp: expiries_def)
  then have ne: "timers w \<noteq> Map.empty" using expiries_timers [OF ok] by auto
  have due: "x \<le> t \<and> t \<le> x + 256" if "timers w i = Some (t, x, f)" for i t x f
    using that timers_linked [OF ok] by (auto simp: timer_of_def payload_def due_def)
  have "current_ms w + n \<le> t" if tv: "timers w i = Some (t, v)" for i t v
  proof -
    obtain x f where v: "v = (x, f)" by (meson surj_pair)
    with tv have "x \<in> expiries w" using expiries_timers [OF ok] by blast
    then have "Min (expiries w) \<le> x" using fin by simp
    with due [of i t x f] tv v timers_future [OF inv tv] n show ?thesis by auto
  qed
  moreover have "\<exists>i t v. timers w i = Some (t, v) \<and> t \<le> current_ms w + n + 256"
  proof -
    from Min_in [OF fin] obtain i t f where "timers w i = Some (t, Min (expiries w), f)"
      using expiries_timers [OF ok] by auto
    with due [OF this] n show ?thesis by (intro exI [of _ i] exI [of _ t]) auto
  qed
  ultimately show ?thesis using t ne n unfolding expiries_timers [OF ok] by simp
qed

theorem next_expiry_earliest_witness:
  "wheel_reach small_wheel \<and> timers small_wheel \<noteq> Map.empty \<and> fst (next_expiry_ms small_wheel) = 3"
proof -
  have r: "wheel_reach small_wheel" and c: "current_ms small_wheel = 0"
    and tm: "timers small_wheel = [1 \<mapsto> (3, 3, Some ())]" using small_armed by auto
  have "{x. \<exists>i t f. timers small_wheel i = Some (t, x, f)} = {3}" by (auto simp: tm split: if_splits)
  moreover obtain n w' where nx: "next_expiry_ms small_wheel = (n, w')" by (meson surj_pair)
  ultimately show ?thesis using next_expiry_earliest [OF r nx] r by (simp add: c tm)
qed

text \<open>C39: after any sequence of operations the destructor's \<open>clear\<close> leaves no pool slot in use and no
  timer pending: nothing leaks and nothing is freed twice.\<close>

theorem clear_returns_all:
  assumes "wheel_reach w"
  shows "set (free_addrs (tw_pool (clear w))) = slot_addrs (tw_pool (clear w))
    \<and> distinct (free_addrs (tw_pool (clear w)))
    \<and> available (tw_pool (clear w)) = fp_capacity (tw_pool (clear w)) \<and> timers (clear w) = Map.empty"
proof -
  have h: "fixed.held_ok (tw_pool (clear w)) []"
    using clear_pool reach_inv [OF assms] by (auto simp: wheel_inv_def)
  then have inv: "pool_inv (tw_pool (clear w))" by (simp add: fixed.held_ok_def)
  have "available (tw_pool (clear w)) = fp_capacity (tw_pool (clear w))"
    using fixed.held_length [OF h] slot_count [OF inv] inv by (simp add: available_def pool_inv_def)
  moreover have "timers (clear w) = Map.empty" by (simp add: timers_def clear_def fun_eq_iff)
  ultimately show ?thesis using h inv fixed.free_subset [OF inv]
    by (auto simp: fixed.held_ok_def pool_inv_def)
qed

theorem clear_returns_all_witness:
  "wheel_reach small_wheel \<and> available (tw_pool (clear small_wheel)) = fp_capacity (tw_pool (clear small_wheel))"
  using clear_returns_all [of small_wheel] small_armed by simp

end
