(* ===== verification/Base64.thy ===== *)
theory Base64
  imports Prelude
begin

text \<open>
  \<open>include/qbuem/crypto/base64.hpp\<close>: the alphabets and decode tables, the scalar and the NEON
  encoder, the encode driver and the decoder with the public functions over them. Writes through
  \<open>dst\<close> are the list of the characters written, in order from the position the caller passes.
  The locale \<open>alphabet\<close> holds what the coder relies on of its 64 characters; it is interpreted by
  the standard and by the URL-safe alphabet.
\<close>

unbundle bit_operations_syntax

section \<open>Sizes and tables\<close>

datatype errc = illegal_byte_sequence | value_too_large

definition base64_encoded_size_nopad :: "nat \<Rightarrow> nat" where
  "base64_encoded_size_nopad n = (n * 4 + 2) div 3"

definition base64_encoded_size :: "nat \<Rightarrow> nat" where
  "base64_encoded_size n = (n + 2) div 3 * 4"

definition base64_decoded_max :: "nat \<Rightarrow> nat" where
  "base64_decoded_max n = (n + 3) div 4 * 3"

definition kStdAlpha :: string where
  "kStdAlpha = ''ABCDEFGHIJKLMNOPQRSTUVWXYZabcdefghijklmnopqrstuvwxyz0123456789+/''"

definition kUrlAlpha :: string where
  "kUrlAlpha = ''ABCDEFGHIJKLMNOPQRSTUVWXYZabcdefghijklmnopqrstuvwxyz0123456789-_''"

definition make_decode_table :: "string \<Rightarrow> u8 list" where
  "make_decode_table alpha =
     (fold (\<lambda>i t. t[code (alpha ! i) := of_nat i]) [0..<64] (replicate 256 0xFF))[code CHR ''='' := 0xFE]"

section \<open>Encoding\<close>

fun encode_scalar :: "string \<Rightarrow> bytes \<Rightarrow> string" where
  "encode_scalar alpha (x # y # z # rest) =
     (let b = push_bit 16 (ucast x) OR push_bit 8 (ucast y) OR (ucast z :: u32)
      in [alpha ! unat (drop_bit 18 b AND 0x3F), alpha ! unat (drop_bit 12 b AND 0x3F),
          alpha ! unat (drop_bit 6 b AND 0x3F), alpha ! unat (b AND 0x3F)] @ encode_scalar alpha rest)"
| "encode_scalar alpha [x, y] =
     (let b = push_bit 16 (ucast x) OR push_bit 8 (ucast y :: u32)
      in [alpha ! unat (drop_bit 18 b AND 0x3F), alpha ! unat (drop_bit 12 b AND 0x3F),
          alpha ! unat (drop_bit 6 b AND 0x3F)])"
| "encode_scalar alpha [x] =
     (let b = push_bit 16 (ucast x :: u32)
      in [alpha ! unat (drop_bit 18 b AND 0x3F), alpha ! unat (drop_bit 12 b AND 0x3F)])"
| "encode_scalar alpha [] = []"

text \<open>The NEON loop: twelve bytes give sixteen indices; each lane of the result combines four table
  lookups (\<open>vqtbl1q_u8\<close> yields 0 for an index above 15) under the four range masks.\<close>

definition vqtbl1q_u8 :: "u8 list \<Rightarrow> u8 \<Rightarrow> u8" where
  "vqtbl1q_u8 t i = (if unat i < 16 then t ! unat i else 0)"

definition lane_mask :: "bool \<Rightarrow> u8" where
  "lane_mask c = (if c then 0xFF else 0)"

definition neon_tbl :: "string \<Rightarrow> nat \<Rightarrow> u8 list" where
  "neon_tbl alpha q = map (\<lambda>j. of_char (alpha ! (q * 16 + j))) [0..<16]"

definition neon_lane :: "string \<Rightarrow> u8 \<Rightarrow> u8" where
  "neon_lane alpha v =
     (let kMask = 0x0F;
          lo = v AND kMask;
          in0 = lane_mask (v \<le> 15);
          in1 = lane_mask (v > 15) AND lane_mask (v \<le> 31);
          in2 = lane_mask (v > 31) AND lane_mask (v \<le> 47);
          in3 = lane_mask (v > 47);
          r0 = vqtbl1q_u8 (neon_tbl alpha 0) lo AND in0;
          r1 = vqtbl1q_u8 (neon_tbl alpha 1) ((v - 16) AND kMask) AND in1;
          r2 = vqtbl1q_u8 (neon_tbl alpha 2) ((v - 32) AND kMask) AND in2;
          r3 = vqtbl1q_u8 (neon_tbl alpha 3) ((v - 48) AND kMask) AND in3
      in (r0 OR r1) OR (r2 OR r3))"

definition neon_idx :: "u8 \<Rightarrow> u8 \<Rightarrow> u8 \<Rightarrow> u8 list" where
  "neon_idx b0 b1 b2 =
     [drop_bit 2 b0 AND 0x3F, push_bit 4 (b0 AND 3) OR drop_bit 4 b1,
      push_bit 2 (b1 AND 0xF) OR drop_bit 6 b2, b2 AND 0x3F]"

fun encode_neon :: "string \<Rightarrow> bytes \<Rightarrow> nat \<times> string" where
  "encode_neon alpha src =
     (if 12 \<le> length src then
        (let idx = concat (map (\<lambda>g. neon_idx (src ! (g * 3)) (src ! (g * 3 + 1)) (src ! (g * 3 + 2))) [0..<4]);
             (i, out) = encode_neon alpha (drop 12 src)
         in (12 + i, map (\<lambda>v. char_of (unat (neon_lane alpha v))) idx @ out))
      else (0, []))"

declare encode_neon.simps [simp del]

definition pad_to :: "nat \<Rightarrow> bool \<Rightarrow> string \<Rightarrow> string" where
  "pad_to len pad out =
     (if pad then out @ replicate ((len + 2) div 3 * 4 - length out) CHR ''='' else out)"

definition encode_impl :: "string \<Rightarrow> bool \<Rightarrow> bytes \<Rightarrow> string" where
  "encode_impl alpha pad src =
     pad_to (length src) pad (take (base64_encoded_size_nopad (length src)) (encode_scalar alpha src))"

definition encode_impl_neon :: "string \<Rightarrow> bool \<Rightarrow> bytes \<Rightarrow> string" where
  "encode_impl_neon alpha pad src =
     (let (done', out) = encode_neon alpha src;
          o_neon = done' div 3 * 4;
          tail_out = ((length src - done') * 4 + 2) div 3
      in pad_to (length src) pad
           (take (o_neon + tail_out) (take o_neon out @ encode_scalar alpha (drop done' src))))"

definition base64_encode :: "bytes \<Rightarrow> string" where
  "base64_encode d = encode_impl kStdAlpha True d"

definition base64url_encode :: "bool \<Rightarrow> bytes \<Rightarrow> string" where
  "base64url_encode padding d = encode_impl kUrlAlpha padding d"

section \<open>Decoding\<close>

definition strip_pad :: "string \<Rightarrow> string" where
  "strip_pad s = rev (dropWhile (\<lambda>c. c = CHR ''='') (rev s))"

definition lookup :: "u8 list \<Rightarrow> char \<Rightarrow> u8" where
  "lookup table c = table ! code c"

text \<open>The loop over the quads and the tail after it.\<close>

fun decode_loop :: "u8 list \<Rightarrow> string \<Rightarrow> errc + bytes" where
  "decode_loop table (ca # cb # cc # cd # rest) =
     (let a = lookup table ca; b = lookup table cb; c = lookup table cc; d = lookup table cd in
      if (a OR b OR c OR d) = 0xFF then Inl illegal_byte_sequence
      else case decode_loop table rest of
        Inl e \<Rightarrow> Inl e
      | Inr out \<Rightarrow> Inr ((push_bit 2 a OR drop_bit 4 b) # (push_bit 4 b OR drop_bit 2 c) # (push_bit 6 c OR d) # out))"
| "decode_loop table [ca, cb, cc] =
     (let a = lookup table ca; b = lookup table cb; c = lookup table cc in
      if (a OR b OR c) = 0xFF then Inl illegal_byte_sequence
      else Inr [push_bit 2 a OR drop_bit 4 b, push_bit 4 b OR drop_bit 2 c])"
| "decode_loop table [ca, cb] =
     (let a = lookup table ca; b = lookup table cb in
      if (a OR b) = 0xFF then Inl illegal_byte_sequence
      else Inr [push_bit 2 a OR drop_bit 4 b])"
| "decode_loop table [ca] = Inl illegal_byte_sequence"
| "decode_loop table [] = Inr []"

definition out_len :: "nat \<Rightarrow> nat" where
  "out_len len = len div 4 * 3 + (if len mod 4 = 2 then 1 else if len mod 4 = 3 then 2 else 0)"

definition decode_impl :: "u8 list \<Rightarrow> string \<Rightarrow> nat \<Rightarrow> errc + bytes" where
  "decode_impl table src dst_size =
     (let s = strip_pad src; len = length s in
      if len mod 4 = 1 then Inl illegal_byte_sequence
      else if out_len len > dst_size then Inl value_too_large
      else decode_loop table s)"

definition base64_decode :: "string \<Rightarrow> errc + bytes" where
  "base64_decode s = decode_impl (make_decode_table kStdAlpha) s (base64_decoded_max (length s) + 3)"

definition base64url_decode :: "string \<Rightarrow> errc + bytes" where
  "base64url_decode s = decode_impl (make_decode_table kUrlAlpha) s (base64_decoded_max (length s) + 3)"

section \<open>Six-bit groups\<close>

lemma scalar_sextets:
  fixes x y z :: u8
  defines "b \<equiv> push_bit 16 (ucast x) OR push_bit 8 (ucast y) OR (ucast z :: u32)"
  shows "unat (drop_bit 18 b AND 0x3F) = unat (drop_bit 2 x AND 0x3F)"
    and "unat (drop_bit 12 b AND 0x3F) = unat (push_bit 4 (x AND 3) OR drop_bit 4 y)"
    and "unat (drop_bit 6 b AND 0x3F) = unat (push_bit 2 (y AND 0xF) OR drop_bit 6 z)"
    and "unat (b AND 0x3F) = unat (z AND 0x3F)"
  unfolding b_def and_masks by (rule unat_u32_u8, auto simp: bit_simps dest: bit_u8)+

lemma encode_scalar_sextets:
  "encode_scalar alpha (x # y # z # rest) =
     map (\<lambda>v. alpha ! unat v) (neon_idx x y z) @ encode_scalar alpha rest"
  "encode_scalar alpha [x, y] = map (\<lambda>v. alpha ! unat v) (take 3 (neon_idx x y 0))"
  "encode_scalar alpha [x] = map (\<lambda>v. alpha ! unat v) (take 2 (neon_idx x 0 0))"
  using scalar_sextets [of x y z] scalar_sextets [of x y 0] scalar_sextets [of x 0 0]
  by (simp_all add: neon_idx_def Let_def numeral_3_eq_3)

lemma sextet_small: "v \<in> set (neon_idx x y z) \<Longrightarrow> unat v < 64"
proof -
  assume "v \<in> set (neon_idx x y z)"
  then have "take_bit 6 v = v"
    by (auto simp: neon_idx_def and_masks intro!: bit_word_eqI) (auto simp: bit_simps dest: bit_u8)
  then have "unat v = take_bit 6 (unat v)" by (metis unsigned_take_bit_eq)
  moreover have "take_bit 6 (unat v) < 2 ^ 6" by (rule take_bit_nat_less_exp)
  ultimately show ?thesis by simp
qed

lemma sextet_nth:
  "unat (neon_idx x y z ! 0) < 64" "unat (neon_idx x y z ! 1) < 64"
  "unat (neon_idx x y z ! 2) < 64" "unat (neon_idx x y z ! 3) < 64"
  by (rule sextet_small, rule nth_mem, simp add: neon_idx_def)+

lemma join_split: "push_bit n (drop_bit n w) OR take_bit n w = (w :: u8)"
  by (rule bit_word_eqI) (auto simp: bit_simps not_less)

lemma join_sextets:
  fixes x y z :: u8
  shows "push_bit 2 (neon_idx x y z ! 0) OR drop_bit 4 (neon_idx x y z ! 1) = x"
    and "push_bit 4 (neon_idx x y z ! 1) OR drop_bit 2 (neon_idx x y z ! 2) = y"
    and "push_bit 6 (neon_idx x y z ! 2) OR (neon_idx x y z ! 3) = z"
proof -
  have "push_bit 2 (drop_bit 2 x AND 0x3F) = push_bit 2 (drop_bit 2 x)"
    by (rule bit_word_eqI) (auto simp: and_masks bit_simps dest: bit_u8)
  moreover have "drop_bit 4 (push_bit 4 (x AND 3) OR drop_bit 4 y) = take_bit 2 x"
    by (rule bit_word_eqI) (auto simp: and_masks bit_simps dest: bit_u8)
  ultimately show "push_bit 2 (neon_idx x y z ! 0) OR drop_bit 4 (neon_idx x y z ! 1) = x"
    using join_split [of 2 x] by (simp add: neon_idx_def)
  have "push_bit 4 (push_bit 4 (x AND 3) OR drop_bit 4 y) = push_bit 4 (drop_bit 4 y)"
    by (rule bit_word_eqI) (auto simp: and_masks bit_simps dest: bit_u8)
  moreover have "drop_bit 2 (push_bit 2 (y AND 0xF) OR drop_bit 6 z) = take_bit 4 y"
    by (rule bit_word_eqI) (auto simp: and_masks bit_simps dest: bit_u8)
  ultimately show "push_bit 4 (neon_idx x y z ! 1) OR drop_bit 2 (neon_idx x y z ! 2) = y"
    using join_split [of 4 y] by (simp add: neon_idx_def)
  have "push_bit 6 (push_bit 2 (y AND 0xF) OR drop_bit 6 z) = push_bit 6 (drop_bit 6 z)"
    by (rule bit_word_eqI) (auto simp: and_masks bit_simps dest: bit_u8)
  then show "push_bit 6 (neon_idx x y z ! 2) OR (neon_idx x y z ! 3) = z"
    using join_split [of 6 z] by (simp add: neon_idx_def and_masks)
qed

lemma small_bit7: "unat (v :: u8) < 64 \<Longrightarrow> \<not> bit v 7"
proof
  assume "unat v < 64" and "bit v 7"
  then have "bit (unat v) 7" by (simp add: bit_unsigned_iff)
  then have "odd (unat v div 128)" by (simp add: bit_iff_odd)
  with \<open>unat v < 64\<close> show False by simp
qed

lemma or_valid: "\<not> bit v 7 \<Longrightarrow> v \<noteq> (0xFF :: u8)"
proof -
  have "(0xFF :: u8) = mask 8" by (simp add: mask_eq_exp_minus_1)
  moreover have "bit (mask 8 :: u8) 7" by (simp add: bit_mask_iff)
  ultimately show "\<not> bit v 7 \<Longrightarrow> v \<noteq> 0xFF" by metis
qed

section \<open>Alphabets\<close>

locale alphabet =
  fixes alpha :: string
  assumes length_alpha: "length alpha = 64"
    and distinct_alpha: "distinct alpha"
    and pad_free: "CHR ''='' \<notin> set alpha"
begin

lemma code_inj: "code c = code d \<Longrightarrow> c = (d :: char)"
  by simp

lemma table_fold:
  assumes "n \<le> 64"
  shows "length (fold (\<lambda>i t. t[code (alpha ! i) := of_nat i]) [0..<n] (replicate 256 (0xFF :: u8))) = 256
    \<and> (\<forall>j < n. fold (\<lambda>i t. t[code (alpha ! i) := of_nat i]) [0..<n] (replicate 256 (0xFF :: u8)) ! code (alpha ! j) = of_nat j)"
  using assms
proof (induction n)
  case (Suc n)
  have "code (alpha ! j) \<noteq> code (alpha ! n)" if "j < n" for j
    using that Suc.prems distinct_alpha length_alpha by (auto simp: nth_eq_iff_index_eq)
  with Suc show ?case
    by (auto simp: less_Suc_eq nth_list_update) metis
qed simp

lemma lookup_alpha:
  assumes "unat v < 64"
  shows "lookup (make_decode_table alpha) (alpha ! unat v) = v"
proof -
  have "alpha ! unat v \<in> set alpha" using assms length_alpha by simp
  then have "alpha ! unat v \<noteq> CHR ''=''" using pad_free by metis
  then have "code (alpha ! unat v) \<noteq> code CHR ''=''" using code_inj by blast
  then show ?thesis
    using table_fold [of 64] assms unfolding lookup_def make_decode_table_def
    by (simp only: nth_list_update_neq) simp
qed

lemma decode_quad:
  assumes "unat a < 64" "unat b < 64" "unat c < 64" "unat d < 64"
  shows "decode_loop (make_decode_table alpha) (alpha ! unat a # alpha ! unat b # alpha ! unat c # alpha ! unat d # rest) =
    (case decode_loop (make_decode_table alpha) rest of Inl e \<Rightarrow> Inl e
     | Inr out \<Rightarrow> Inr ((push_bit 2 a OR drop_bit 4 b) # (push_bit 4 b OR drop_bit 2 c) # (push_bit 6 c OR d) # out))"
  and "decode_loop (make_decode_table alpha) [alpha ! unat a, alpha ! unat b, alpha ! unat c] =
    Inr [push_bit 2 a OR drop_bit 4 b, push_bit 4 b OR drop_bit 2 c]"
  and "decode_loop (make_decode_table alpha) [alpha ! unat a, alpha ! unat b] = Inr [push_bit 2 a OR drop_bit 4 b]"
  using or_valid [of "a OR b OR c OR d"] or_valid [of "a OR b OR c"] or_valid [of "a OR b"]
    assms [THEN small_bit7]
  by (simp_all add: lookup_alpha assms bit_or_iff)

lemma decode_encode: "decode_loop (make_decode_table alpha) (encode_scalar alpha d) = Inr d"
proof (induction d rule: encode_scalar.induct [of "\<lambda>_. P" for P])
  case (1 alpha' x y z rest)
  have "encode_scalar alpha (x # y # z # rest) =
      alpha ! unat (neon_idx x y z ! 0) # alpha ! unat (neon_idx x y z ! 1)
      # alpha ! unat (neon_idx x y z ! 2) # alpha ! unat (neon_idx x y z ! 3) # encode_scalar alpha rest"
    unfolding encode_scalar_sextets by (simp add: neon_idx_def)
  then show ?case using 1 by (simp only: decode_quad(1) sextet_nth join_sextets) simp
next
  case (2 alpha' x y)
  have "encode_scalar alpha [x, y] =
      [alpha ! unat (neon_idx x y 0 ! 0), alpha ! unat (neon_idx x y 0 ! 1), alpha ! unat (neon_idx x y 0 ! 2)]"
    unfolding encode_scalar_sextets by (simp add: neon_idx_def numeral_3_eq_3)
  then show ?case by (simp only: decode_quad(2) [OF sextet_nth(1) sextet_nth(2) sextet_nth(3) sextet_nth(4)] join_sextets)
next
  case (3 alpha' x)
  have "encode_scalar alpha [x] = [alpha ! unat (neon_idx x 0 0 ! 0), alpha ! unat (neon_idx x 0 0 ! 1)]"
    unfolding encode_scalar_sextets by (simp add: neon_idx_def numeral_2_eq_2)
  then show ?case by (simp only: decode_quad(3) [OF sextet_nth(1) sextet_nth(2) sextet_nth(3) sextet_nth(4)] join_sextets)
qed simp

lemma encode_scalar_set: "set (encode_scalar alpha d) \<subseteq> set alpha"
proof -
  have "alpha ! unat v \<in> set alpha" if "v \<in> set (neon_idx x y z)" for v x y z
    using sextet_small [OF that] length_alpha by simp
  then have m: "set (map (\<lambda>v. alpha ! unat v) vs) \<subseteq> set alpha" if "set vs \<subseteq> set (neon_idx x y z)" for vs x y z
    using that by auto
  show ?thesis
  proof (induction d rule: encode_scalar.induct [of "\<lambda>_. P" for P])
    case (1 alpha' x y z rest)
    then show ?case unfolding encode_scalar_sextets set_append using m [of "neon_idx x y z" x y z] by blast
  next
    case (2 alpha' x y)
    then show ?case unfolding encode_scalar_sextets using m [of "take 3 (neon_idx x y 0)"] set_take_subset by metis
  next
    case (3 alpha' x)
    then show ?case unfolding encode_scalar_sextets using m [of "take 2 (neon_idx x 0 0)"] set_take_subset by metis
  qed simp
qed

end

lemma encode_scalar_length: "length (encode_scalar alpha d) = base64_encoded_size_nopad (length d)"
  by (induction d rule: encode_scalar.induct [of "\<lambda>_. P" for P])
    (auto simp: base64_encoded_size_nopad_def Let_def)

lemma strip_pad_append: "CHR ''='' \<notin> set s \<Longrightarrow> strip_pad (s @ replicate n CHR ''='') = s"
proof -
  assume "CHR ''='' \<notin> set s"
  then have "dropWhile (\<lambda>c. c = CHR ''='') (rev s) = rev s" by (cases "rev s") (auto simp: rev_eq_Cons_iff)
  then show ?thesis by (simp add: strip_pad_def dropWhile_append)
qed

interpretation std: alphabet kStdAlpha
  by unfold_locales (simp_all add: kStdAlpha_def)

interpretation url: alphabet kUrlAlpha
  by unfold_locales (simp_all add: kUrlAlpha_def)

lemma out_len_quad: "out_len (Suc (Suc (Suc (Suc n)))) = Suc (Suc (Suc (out_len n)))"
proof -
  have "Suc (Suc (Suc (Suc n))) = n + 4" by simp
  then show ?thesis by (simp only: out_len_def div_add_self2 mod_add_self2) simp
qed

context alphabet
begin

lemma encode_impl_eq:
  "encode_impl alpha pad d =
     encode_scalar alpha d
     @ replicate (if pad then base64_encoded_size (length d) - base64_encoded_size_nopad (length d) else 0) CHR ''=''"
  by (simp add: encode_impl_def pad_to_def encode_scalar_length base64_encoded_size_def)

lemma decode_impl_encode:
  assumes "length d \<le> dst_size"
  shows "decode_impl (make_decode_table alpha) (encode_impl alpha pad d) dst_size = Inr d"
proof -
  have st: "strip_pad (encode_impl alpha pad d) = encode_scalar alpha d"
    unfolding encode_impl_eq by (rule strip_pad_append) (use encode_scalar_set pad_free in blast)
  let ?l = "base64_encoded_size_nopad (length d)"
  obtain q r where qr: "length d = 3 * q + r" "r < 3" by (metis mod_less_divisor mult_div_mod_eq zero_less_numeral)
  have l: "?l = ((3 * q + r) * 4 + 2) div 3" by (simp add: base64_encoded_size_nopad_def qr(1))
  have out: "(4 * q + t) div 4 = q" "(4 * q + t) mod 4 = t" if "t < 4" for t using that by simp_all
  from qr(2) consider "r = 0" | "r = 1" | "r = 2" by linarith
  then have "?l mod 4 \<noteq> 1 \<and> out_len ?l = length d"
  proof cases
    case 1
    have "?l = 4 * q + 0" unfolding l 1 by (rule div_nat_eqI) simp_all
    then show ?thesis using out [of 0] qr(1) 1 by (simp only: out_len_def) simp
  next
    case 2
    have "?l = 4 * q + 2" unfolding l 2 by (rule div_nat_eqI) simp_all
    then show ?thesis using out [of 2] qr(1) 2 by (simp only: out_len_def) simp
  next
    case 3
    have "?l = 4 * q + 3" unfolding l 3 by (rule div_nat_eqI) simp_all
    then show ?thesis using out [of 3] qr(1) 3 by (simp only: out_len_def) simp
  qed
  with assms show ?thesis
    by (simp add: decode_impl_def st encode_scalar_length decode_encode)
qed

lemma and_FF: "w AND 0xFF = (w :: u8)"
proof -
  have "(0xFF :: u8) = - 1" by simp
  then show ?thesis by (simp only: and.right_neutral)
qed

lemma neon_lane_lookup:
  assumes "unat v < 64"
  shows "char_of (unat (neon_lane alpha v)) = alpha ! unat v"
proof -
  define n where "n = unat v"
  have n: "n < 64" using assms by (simp add: n_def)
  have sub: "take_bit 4 (v - of_nat m) = of_nat (n - m)" if "m \<le> n" "n < m + 16" for m
  proof -
    have "v - of_nat m = of_nat (n - m)" using that by (simp add: n_def)
    moreover have "take_bit 4 (n - m) = n - m" using that by (intro take_bit_nat_eq_self) simp
    ultimately show ?thesis by (simp add: take_bit_of_nat)
  qed
  have tb: "vqtbl1q_u8 (neon_tbl alpha q) (of_nat j) = of_char (alpha ! (q * 16 + j))" if "j < 16" for q j
    using that by (simp add: vqtbl1q_u8_def neon_tbl_def unsigned_of_nat take_bit_nat_eq_self)
  note masks = neon_lane_def Let_def and_masks lane_mask_def and_FF word_le_nat_alt word_less_nat_alt n_def [symmetric]
  consider "n < 16" | "16 \<le> n" "n < 32" | "32 \<le> n" "n < 48" | "48 \<le> n" using n by linarith
  then have "neon_lane alpha v = of_char (alpha ! n)"
  proof cases
    case 1
    then show ?thesis using sub [of 0] tb [of n 0] by (simp add: masks)
  next
    case 2
    then show ?thesis using sub [of 16] tb [of "n - 16" 1] by (simp add: masks)
  next
    case 3
    then show ?thesis using sub [of 32] tb [of "n - 32" 2] by (simp add: masks)
  next
    case 4
    then show ?thesis using n sub [of 48] tb [of "n - 48" 3] by (simp add: masks)
  qed
  then show ?thesis by (simp add: n_def)
qed

lemma encode_group:
  assumes "3 \<le> length d"
  shows "encode_scalar alpha d =
    map (\<lambda>v. alpha ! unat v) (neon_idx (d ! 0) (d ! 1) (d ! 2)) @ encode_scalar alpha (drop 3 d)"
proof -
  obtain x y z rest where "d = x # y # z # rest"
    using assms by (metis Suc_le_length_iff numeral_3_eq_3)
  then show ?thesis by (simp add: encode_scalar_sextets(1) numeral_3_eq_3 numeral_2_eq_2 del: encode_scalar.simps)
qed

lemma neon_chars:
  "map (\<lambda>v. char_of (unat (neon_lane alpha v))) (neon_idx x y z) = map (\<lambda>v. alpha ! unat v) (neon_idx x y z)"
  using sextet_small by (intro map_cong refl neon_lane_lookup) blast

lemma encode_groups:
  assumes "12 \<le> length d"
  shows "encode_scalar alpha d =
    map (\<lambda>v. char_of (unat (neon_lane alpha v)))
      (concat (map (\<lambda>g. neon_idx (d ! (g * 3)) (d ! (g * 3 + 1)) (d ! (g * 3 + 2))) [0..<4]))
    @ encode_scalar alpha (drop 12 d)"
  using assms encode_group [of d] encode_group [of "drop 3 d"] encode_group [of "drop 6 d"] encode_group [of "drop 9 d"]
  by (simp add: neon_chars upt_rec flip: numeral_2_eq_2)

lemma neon_prefix:
  "fst (encode_neon alpha d) \<le> length d \<and> 3 dvd fst (encode_neon alpha d)
   \<and> length (snd (encode_neon alpha d)) = fst (encode_neon alpha d) div 3 * 4
   \<and> snd (encode_neon alpha d) @ encode_scalar alpha (drop (fst (encode_neon alpha d)) d) = encode_scalar alpha d"
proof (induction d rule: measure_induct_rule [of length])
  case (less d)
  show ?case
  proof (cases "12 \<le> length d")
    case True
    obtain i out where r: "encode_neon alpha (drop 12 d) = (i, out)" by (meson surj_pair)
    have "length (drop 12 d) < length d" using True by simp
    from less.IH [OF this] r have ih: "i \<le> length d - 12" "3 dvd i" "length out = i div 3 * 4"
      "out @ encode_scalar alpha (drop i (drop 12 d)) = encode_scalar alpha (drop 12 d)" by simp_all
    let ?idx = "concat (map (\<lambda>g. neon_idx (d ! (g * 3)) (d ! (g * 3 + 1)) (d ! (g * 3 + 2))) [0..<4])"
    have e: "encode_neon alpha d = (12 + i, map (\<lambda>v. char_of (unat (neon_lane alpha v))) ?idx @ out)"
      using True r by (simp only: encode_neon.simps [of alpha d]) simp
    have l: "length ?idx = 16" by (simp add: neon_idx_def upt_rec)
    have "12 + i \<le> length d" using ih(1) True by simp
    moreover have "3 dvd 12 + i" using ih(2) by (simp add: dvd_add)
    moreover have "length (map (\<lambda>v. char_of (unat (neon_lane alpha v)) :: char) ?idx @ out) = (12 + i) div 3 * 4"
      using ih(2,3) l by (auto elim!: dvdE)
    moreover have "(map (\<lambda>v. char_of (unat (neon_lane alpha v))) ?idx @ out)
        @ encode_scalar alpha (drop (12 + i) d) = encode_scalar alpha d"
      unfolding encode_groups [OF True] using ih(4) by (simp add: add.commute)
    ultimately show ?thesis unfolding e fst_conv snd_conv by blast
  next
    case False
    then show ?thesis by (simp add: encode_neon.simps [of alpha d])
  qed
qed

lemma neon_same: "encode_impl_neon alpha pad d = encode_impl alpha pad d"
proof -
  obtain n out where r: "encode_neon alpha d = (n, out)" by (meson surj_pair)
  with neon_prefix [of d] have np: "n \<le> length d" "3 dvd n" "length out = n div 3 * 4"
    "out @ encode_scalar alpha (drop n d) = encode_scalar alpha d" by simp_all
  have t: "((length d - n) * 4 + 2) div 3 = length (encode_scalar alpha (drop n d))"
    by (simp add: encode_scalar_length base64_encoded_size_nopad_def)
  have "take (n div 3 * 4 + length (encode_scalar alpha (drop n d)))
      (take (n div 3 * 4) out @ encode_scalar alpha (drop n d)) = encode_scalar alpha d"
    by (simp add: np(3) flip: np(4))
  then show ?thesis
    by (simp only: encode_impl_neon_def r Let_def prod.case t) (simp add: encode_impl_def encode_scalar_length)
qed

end

section \<open>Properties\<close>

text \<open>C29: decoding what the standard encoder produced gives back the bytes, for every input.\<close>

theorem base64_roundtrip: "base64_decode (base64_encode d) = Inr d"
proof -
  have "length d \<le> base64_decoded_max (length (base64_encode d)) + 3"
    by (simp add: base64_encode_def std.encode_impl_eq encode_scalar_length base64_encoded_size_nopad_def
        base64_decoded_max_def)
  then show ?thesis unfolding base64_decode_def base64_encode_def by (rule std.decode_impl_encode)
qed

text \<open>the URL-safe coder round-trips with and without padding.\<close>

theorem base64url_roundtrip: "base64url_decode (base64url_encode padding d) = Inr d"
proof -
  have "length d \<le> base64_decoded_max (length (base64url_encode padding d)) + 3"
    by (simp add: base64url_encode_def url.encode_impl_eq encode_scalar_length base64_encoded_size_nopad_def
        base64_decoded_max_def)
  then show ?thesis unfolding base64url_decode_def base64url_encode_def by (rule url.decode_impl_encode)
qed

text \<open>C37: the NEON encoder, vector lanes and all, writes exactly what the scalar encoder writes, with the
  standard and with the URL-safe alphabet, padded or not.\<close>

theorem encode_neon_equiv:
  "encode_impl_neon kStdAlpha pad d = encode_impl kStdAlpha pad d
   \<and> encode_impl_neon kUrlAlpha pad d = encode_impl kUrlAlpha pad d"
  by (simp add: std.neon_same url.neon_same)

text \<open>the decoder stays inside the caller's buffer: what it writes has exactly the length it checked
  against \<open>dst_size\<close>, and it fails with \<open>value_too_large\<close> only when that length does not fit.\<close>

theorem decode_impl_bounds:
  "case decode_impl table src dst_size of
      Inr out \<Rightarrow> length out = out_len (length (strip_pad src)) \<and> length out \<le> dst_size
    | Inl value_too_large \<Rightarrow> dst_size < out_len (length (strip_pad src))
    | Inl illegal_byte_sequence \<Rightarrow> True"
proof -
  have loop: "case decode_loop table s of Inr out \<Rightarrow> length out = out_len (length s)
      | Inl e \<Rightarrow> e = illegal_byte_sequence" for s
  proof (induction table s rule: decode_loop.induct)
    case (1 table ca cb cc cd rest)
    then show ?case by (auto simp: Let_def out_len_quad split: sum.splits)
  qed (auto simp: Let_def out_len_def)
  show ?thesis using loop [of "strip_pad src"]
    by (auto simp: decode_impl_def Let_def split: sum.splits errc.splits if_splits)
qed

text \<open>a pad character inside the text is accepted: \<open>A=AA\<close> decodes to three bytes, although it is
  not Base64, because its table value \<open>0xFE\<close> does not make the combined value \<open>0xFF\<close>.\<close>

theorem interior_pad_accepted: "base64_decode ''A=AA'' = Inr [0x0F, 0xE0, 0]"
proof -
  have t: "lookup (make_decode_table kStdAlpha) (CHR ''A'') = 0"
    using std.lookup_alpha [of 0] by (simp add: kStdAlpha_def)
  have e: "lookup (make_decode_table kStdAlpha) (CHR ''='') = 0xFE"
    by (simp add: lookup_def make_decode_table_def std.table_fold)
  show ?thesis
    by (simp add: base64_decode_def decode_impl_def strip_pad_def out_len_def base64_decoded_max_def Let_def t e)
qed

end
