(* ===== verification/Frame_Codec.thy ===== *)
theory Frame_Codec
  imports Prelude
begin

text \<open>
  The interface \<open>IFrameCodec\<close> of \<open>include/qbuem/codec/frame_codec.hpp\<close> as a locale. \<open>decode\<close> takes the
  decoder state and the bytes in the buffer and returns the status, the new state, what is left of
  the buffer and the frame it completed; \<open>reset\<close> prepares for the next frame. The laws: a decoder
  that asked for more data resumes where it stopped, a decision does not depend on bytes that
  arrive later, and the encoding of a frame decodes to that frame. From them the client lemma: a
  stream of frames is delivered intact however the transport cuts it into pieces.
\<close>

datatype DecodeStatus = Complete | Incomplete | Error

text \<open>Two outcomes agree when they decide the same; what is left of the buffer after an error, when the
  connection is closed, does not matter.\<close>

definition agree :: "DecodeStatus \<times> 's \<times> 'b list \<times> 'f option \<Rightarrow> DecodeStatus \<times> 's \<times> 'b list \<times> 'f option \<Rightarrow> bool" where
  "agree x y \<longleftrightarrow> fst x = fst y \<and> (fst x \<noteq> Error \<longrightarrow> x = y)"

lemma agree_refl [simp]: "agree x x"
  by (simp add: agree_def)

lemma agree_sym: "agree x y \<Longrightarrow> agree y x"
  unfolding agree_def by metis

locale frame_codec =
  fixes decode :: "'s \<Rightarrow> 'b list \<Rightarrow> DecodeStatus \<times> 's \<times> 'b list \<times> 'f option"
    and reset :: "'s \<Rightarrow> 's"
    and wire :: "'f \<Rightarrow> 'b list"
    and valid :: "'f \<Rightarrow> bool"
    and fresh :: "'s \<Rightarrow> bool"
  assumes resume: "decode s a = (Incomplete, s', r, fo) \<Longrightarrow> agree (decode s (a @ b)) (decode s' (r @ b))"
    and decided: "decode s a = (st, s', r, fo) \<Longrightarrow> st \<noteq> Incomplete \<Longrightarrow> decode s (a @ b) = (st, s', r @ b, fo)"
    and frame: "fresh s \<Longrightarrow> valid f \<Longrightarrow>
          \<exists>s'. decode s (wire f @ rest) = (Complete, s', rest, Some f) \<and> fresh (reset s')"
    and wire_nonempty: "valid f \<Longrightarrow> wire f \<noteq> []"
    and idle: "fresh s \<Longrightarrow> fst (decode s []) = Incomplete"
begin

text \<open>The receiving loop: decode until the decoder wants more data, then wait for the next piece. The
  number bounds the frames taken from one piece; the length of the stream is always enough.\<close>

fun drain :: "nat \<Rightarrow> 's \<Rightarrow> 'b list \<Rightarrow> 'f list \<times> 's \<times> 'b list" where
  "drain 0 s buf = ([], s, buf)"
| "drain (Suc n) s buf =
     (case decode s buf of
        (Complete, s', r, Some f) \<Rightarrow> (let (fs, s'', r') = drain n (reset s') r in (f # fs, s'', r'))
      | (_, s', r, _) \<Rightarrow> ([], s', r))"

fun receive :: "nat \<Rightarrow> 's \<Rightarrow> 'b list \<Rightarrow> 'b list list \<Rightarrow> 'f list" where
  "receive n s buf [] = []"
| "receive n s buf (c # cs) = (let (fs, s', r) = drain n s (buf @ c) in fs @ receive n s' r cs)"

definition stands_at :: "'s \<Rightarrow> 'b list \<Rightarrow> 'b list \<Rightarrow> bool" where
  "stands_at s buf p \<longleftrightarrow> (\<exists>s0. fresh s0 \<and> (\<forall>b. agree (decode s (buf @ b)) (decode s0 (p @ b))))"

lemma stands_fresh: "fresh s \<Longrightarrow> stands_at s [] []"
  by (auto simp: stands_at_def)

lemma short_incomplete:
  assumes "fresh s" "valid f" "wire f = p @ q" "q \<noteq> []"
  shows "fst (decode s p) = Incomplete"
proof (rule ccontr)
  obtain st s' r fo where d: "decode s p = (st, s', r, fo)" by (meson prod_cases4)
  assume "fst (decode s p) \<noteq> Incomplete"
  with d have "decode s (p @ q) = (st, s', r @ q, fo)" using decided by simp
  moreover obtain s'' where "decode s (p @ q) = (Complete, s'', [], Some f)"
    using frame [OF assms(1,2), of "[]"] assms(3) by auto
  ultimately show False using assms(4) by simp
qed

lemma split_stream:
  assumes "p @ t = concat (map wire fs)" and "\<forall>f \<in> set fs. valid f"
  obtains (full) f fs' p' where "fs = f # fs'" "p = wire f @ p'" "p' @ t = concat (map wire fs')"
  | (partial) f fs' q where "fs = f # fs'" "wire f = p @ q" "q \<noteq> []"
  | (empty) "p = []"
proof (cases fs)
  case Nil
  with assms empty show ?thesis by simp
next
  case (Cons f fs')
  with assms have "p @ t = wire f @ concat (map wire fs')" by simp
  then obtain us where "p = wire f @ us \<and> us @ t = concat (map wire fs') \<or> p @ us = wire f \<and> t = us @ concat (map wire fs')"
    by (metis append_eq_append_conv2)
  then show ?thesis
  proof
    assume "p = wire f @ us \<and> us @ t = concat (map wire fs')"
    with full Cons show ?thesis by blast
  next
    assume u: "p @ us = wire f \<and> t = us @ concat (map wire fs')"
    show ?thesis
    proof (cases "us = []")
      case True
      with u full [of f fs' "[]"] Cons show ?thesis by simp
    next
      case False
      with u partial Cons show ?thesis by metis
    qed
  qed
qed

lemma drain_stream:
  assumes "stands_at s buf p" and "p @ t = concat (map wire fs)" and "\<forall>f \<in> set fs. valid f"
    and "length p < n"
  shows "\<exists>gs hs s' r p'. drain n s buf = (gs, s', r) \<and> fs = gs @ hs \<and> stands_at s' r p'
    \<and> p' @ t = concat (map wire hs) \<and> (t = [] \<longrightarrow> hs = [])"
  using assms
proof (induction n arbitrary: s buf p fs)
  case (Suc n)
  from Suc.prems(1) obtain s0 where s0: "fresh s0" and eq: "\<And>b. agree (decode s (buf @ b)) (decode s0 (p @ b))"
    by (auto simp: stands_at_def)
  have d: "decode s buf = decode s0 p" if "fst (decode s0 p) \<noteq> Error"
    using eq [of "[]"] that unfolding agree_def append_Nil2 by metis
  have wait: ?case if inc: "fst (decode s0 p) = Incomplete" and stop: "t = [] \<longrightarrow> fs = []"
  proof -
    obtain s' r fo where dd: "decode s0 p = (Incomplete, s', r, fo)" using inc by (cases "decode s0 p") auto
    then have "stands_at s' r p" using s0 resume agree_sym unfolding stands_at_def by blast
    moreover have "drain (Suc n) s buf = ([], s', r)" using d dd by simp
    ultimately show ?thesis using Suc.prems(2) stop by fastforce
  qed
  from Suc.prems(2,3) show ?case
  proof (cases rule: split_stream)
    case (full f fs' p')
    then have v: "valid f" using Suc.prems(3) by simp
    obtain s' where s': "decode s0 p = (Complete, s', p', Some f)" "fresh (reset s')"
      using frame [OF s0 v, of p'] full by auto
    have "stands_at (reset s') p' p'" using s'(2) by (auto simp: stands_at_def)
    moreover have "length p' < n" using full(2) wire_nonempty [OF v] Suc.prems(4) by (cases "wire f") auto
    ultimately obtain gs hs s'' r p'' where "drain n (reset s') p' = (gs, s'', r)" "fs' = gs @ hs"
      "stands_at s'' r p''" "p'' @ t = concat (map wire hs)" "t = [] \<longrightarrow> hs = []"
      using Suc.IH [of "reset s'" p' p' fs'] full Suc.prems(3) by auto
    then have "drain (Suc n) s buf = (f # gs, s'', r) \<and> fs = (f # gs) @ hs" using d s' full by simp
    then show ?thesis using \<open>stands_at s'' r p''\<close> \<open>p'' @ t = _\<close> \<open>t = [] \<longrightarrow> hs = []\<close> by blast
  next
    case (partial f fs' q)
    then have "t \<noteq> []" using Suc.prems(2) by auto
    then show ?thesis using wait short_incomplete [OF s0 _ partial(2,3)] Suc.prems(3) partial(1) by simp
  next
    case empty
    then have "t = [] \<longrightarrow> fs = []" using Suc.prems(2,3) wire_nonempty by (cases fs) auto
    then show ?thesis using wait idle [OF s0] empty by simp
  qed
qed simp

lemma stands_more: "stands_at s buf p \<Longrightarrow> stands_at s (buf @ c) (p @ c)"
  by (auto simp: stands_at_def)

lemma receive_stream:
  assumes "stands_at s buf p" and "p @ concat cs = concat (map wire fs)" and "\<forall>f \<in> set fs. valid f"
    and "length (concat (map wire fs)) < n" and "cs = [] \<longrightarrow> fs = []"
  shows "receive n s buf cs = fs"
  using assms
proof (induction cs arbitrary: s buf p fs)
  case (Cons c cs)
  have eq: "(p @ c) @ concat cs = concat (map wire fs)" using Cons.prems(2) by simp
  then have "length (p @ c) < n" using Cons.prems(4) by (metis length_append add_lessD1)
  with eq drain_stream [OF stands_more [OF Cons.prems(1)] _ Cons.prems(3)]
  obtain gs hs s' r p' where dr: "drain n s (buf @ c) = (gs, s', r)" "fs = gs @ hs" "stands_at s' r p'"
    "p' @ concat cs = concat (map wire hs)" "concat cs = [] \<longrightarrow> hs = []" by blast
  have "receive n s' r cs = hs"
    using Cons.IH [OF dr(3,4)] Cons.prems(3,4) dr(2,5) by auto
  then show ?case using dr by simp
qed simp

lemma receive_frames:
  assumes "fresh s" and "\<forall>f \<in> set fs. valid f" and "concat cs = concat (map wire fs)"
    and "length (concat (map wire fs)) < n"
  shows "receive n s [] cs = fs"
proof -
  have "cs = [] \<longrightarrow> fs = []" using assms(2,3) wire_nonempty by (cases fs) auto
  then show ?thesis using receive_stream [OF stands_fresh [OF assms(1)], of cs fs n] assms by simp
qed

end

end
