(* ===== verification/Codecs.thy ===== *)
theory Codecs
  imports Frame_Codec
begin

text \<open>
  The two stateful stream codecs of \<open>include/qbuem/codec\<close>: \<open>LengthPrefixedCodec\<close> (a four-byte
  big-endian length and the payload, assembled in a header and a body buffer) and \<open>LineCodec\<close>
  (lines ended by LF or CRLF). Both implement the interface \<open>frame_codec\<close>. \<open>htonl\<close> and \<open>memcpy\<close>
  together write the four bytes of the length, most significant first. \<open>encode\<close> returns the byte
  strings its iovec entries point to, or none when it reports failure.
\<close>

unbundle bit_operations_syntax

section \<open>LengthPrefixedCodec\<close>

record lp_frame =
  lp_length :: u32
  lp_payload :: bytes

datatype ParseState = Header | Body

record lp_codec =
  lp_state :: ParseState
  header_buf :: bytes
  header_received :: nat
  pending_length :: u32
  body_buf :: bytes

definition kHeaderSize :: nat where
  "kHeaderSize = 4"

definition kMaxFrameSize :: u32 where
  "kMaxFrameSize = 64 * 1024 * 1024"

definition LengthPrefixedCodec :: lp_codec where
  "LengthPrefixedCodec =
     \<lparr> lp_state = Header, header_buf = replicate kHeaderSize 0, header_received = 0, pending_length = 0,
       body_buf = [] \<rparr>"

definition ntohl :: "bytes \<Rightarrow> u32" where
  "ntohl h = push_bit 24 (ucast (h ! 0)) OR push_bit 16 (ucast (h ! 1)) OR push_bit 8 (ucast (h ! 2)) OR ucast (h ! 3)"

definition htonl :: "u32 \<Rightarrow> bytes" where
  "htonl w = [ucast (drop_bit 24 w), ucast (drop_bit 16 w), ucast (drop_bit 8 w), ucast w]"

text \<open>The loop that fills the header buffer: the state and the number of bytes consumed.\<close>

fun fill_header :: "lp_codec \<Rightarrow> bytes \<Rightarrow> lp_codec \<times> bytes" where
  "fill_header c [] = (c, [])"
| "fill_header c (b # bs) =
     (if header_received c < kHeaderSize
      then fill_header (c\<lparr>header_buf := (header_buf c)[header_received c := b],
                          header_received := header_received c + 1\<rparr>) bs
      else (c, b # bs))"

definition decode_body :: "lp_codec \<Rightarrow> bytes \<Rightarrow> DecodeStatus \<times> lp_codec \<times> bytes \<times> lp_frame option" where
  "decode_body c buf =
     (let remaining = unat (pending_length c) - length (body_buf c);
          to_copy = min remaining (length buf);
          c1 = c\<lparr>body_buf := body_buf c @ take to_copy buf\<rparr>;
          rest = drop to_copy buf
      in if length (body_buf c1) < unat (pending_length c1) then (Incomplete, c1, rest, None)
         else (Complete, c1\<lparr>body_buf := []\<rparr>, rest,
               Some \<lparr> lp_length = pending_length c1, lp_payload = body_buf c1 \<rparr>))"

definition lp_decode :: "lp_codec \<Rightarrow> bytes \<Rightarrow> DecodeStatus \<times> lp_codec \<times> bytes \<times> lp_frame option" where
  "lp_decode c buf =
     (if lp_state c = Header then
        (let (c1, rest) = fill_header c buf in
         if header_received c1 < kHeaderSize then (Incomplete, c1, rest, None)
         else
           (let c2 = c1\<lparr>pending_length := ntohl (header_buf c1)\<rparr> in
            if pending_length c2 > kMaxFrameSize then (Error, c2, buf, None)
            else decode_body (c2\<lparr>lp_state := Body, body_buf := []\<rparr>) rest))
      else decode_body c buf)"

definition lp_encode :: "lp_frame \<Rightarrow> nat \<Rightarrow> bytes list option" where
  "lp_encode f max_vecs = (if max_vecs < 2 then None else Some [htonl (lp_length f), lp_payload f])"

definition lp_reset :: "lp_codec \<Rightarrow> lp_codec" where
  "lp_reset c = c\<lparr>lp_state := Header, pending_length := 0, header_received := 0, body_buf := []\<rparr>"

section \<open>LineCodec\<close>

definition line_decode :: "bool \<Rightarrow> string \<Rightarrow> DecodeStatus \<times> bool \<times> string \<times> string option" where
  "line_decode crlf buf =
     (case find_index (\<lambda>c. c = CHR 0x0A) buf of
        None \<Rightarrow> (Incomplete, crlf, buf, None)
      | Some lf_pos \<Rightarrow>
          (let line_end = (if crlf \<and> lf_pos > 0 \<and> buf ! (lf_pos - 1) = CHR 0x0D then lf_pos - 1 else lf_pos)
           in (Complete, crlf, drop (lf_pos + 1) buf, Some (take line_end buf))))"

definition line_encode :: "bool \<Rightarrow> string \<Rightarrow> nat \<Rightarrow> string list option" where
  "line_encode crlf line max_vecs =
     (if max_vecs < 2 then None
      else Some [line, if crlf then [CHR 0x0D, CHR 0x0A] else [CHR 0x0A]])"

definition line_reset :: "bool \<Rightarrow> bool" where
  "line_reset crlf = crlf"

section \<open>The length-prefixed codec meets the interface\<close>

lemma ntohl_htonl: "ntohl (htonl w) = w"
proof (rule bit_word_eqI)
  fix n :: nat
  assume "n < LENGTH(32)"
  then consider "n < 8" | "8 \<le> n" "n < 16" | "16 \<le> n" "n < 24" | "24 \<le> n" "n < 32" by fastforce
  then show "bit (ntohl (htonl w)) n \<longleftrightarrow> bit w n"
    by cases (auto simp: ntohl_def htonl_def bit_simps)
qed

lemma fill_header_more:
  "header_received (fst (fill_header c a)) < kHeaderSize \<Longrightarrow>
     snd (fill_header c a) = [] \<and> fill_header c (a @ b) = fill_header (fst (fill_header c a)) b"
  by (induction c a rule: fill_header.induct) (auto split: if_splits)

lemma fill_header_full:
  "\<not> header_received (fst (fill_header c a)) < kHeaderSize \<Longrightarrow>
     fill_header c (a @ b) = (fst (fill_header c a), snd (fill_header c a) @ b)"
proof (induction c a rule: fill_header.induct)
  case (1 c)
  then show ?case by (cases b) auto
qed (auto split: if_splits)

lemma fill_header_state [simp]: "lp_state (fst (fill_header c a)) = lp_state c"
  by (induction c a rule: fill_header.induct) auto

lemma decode_body_cases:
  "decode_body c a =
     (let n = unat (pending_length c) - length (body_buf c) in
      if length a < n then (Incomplete, c\<lparr>body_buf := body_buf c @ a\<rparr>, [], None)
      else (Complete, c\<lparr>body_buf := []\<rparr>, drop n a,
            Some \<lparr> lp_length = pending_length c, lp_payload = body_buf c @ take n a \<rparr>))"
  by (simp add: decode_body_def Let_def min_def) linarith

lemma decode_body_resume:
  assumes "decode_body c a = (Incomplete, c', r, fo)"
  shows "r = [] \<and> lp_state c' = lp_state c \<and> decode_body c (a @ b) = decode_body c' b"
proof -
  let ?n = "unat (pending_length c) - length (body_buf c)"
  from assms have lt: "length a < ?n" and c': "c' = c\<lparr>body_buf := body_buf c @ a\<rparr>" and "r = []"
    by (simp_all add: decode_body_cases Let_def split: if_splits)
  moreover have "unat (pending_length c') - length (body_buf c') = ?n - length a" by (simp add: c')
  moreover have "length (a @ b) < ?n \<longleftrightarrow> length b < ?n - length a" using lt by auto
  ultimately show ?thesis using lt by (simp add: decode_body_cases Let_def)
qed

lemma decode_body_decided:
  assumes "decode_body c a = (st, c', r, fo)" and "st \<noteq> Incomplete"
  shows "decode_body c (a @ b) = (st, c', r @ b, fo)"
  using assms by (auto simp: decode_body_cases Let_def split: if_splits)

definition lp_fresh :: "lp_codec \<Rightarrow> bool" where
  "lp_fresh c \<longleftrightarrow> lp_state c = Header \<and> header_received c = 0 \<and> length (header_buf c) = kHeaderSize"

definition lp_valid :: "lp_frame \<Rightarrow> bool" where
  "lp_valid f \<longleftrightarrow> unat (lp_length f) = length (lp_payload f) \<and> lp_length f \<le> kMaxFrameSize"

definition lp_wire :: "lp_frame \<Rightarrow> bytes" where
  "lp_wire f = concat (the (lp_encode f 2))"

lemma lp_resume:
  assumes "lp_decode c a = (Incomplete, c', r, fo)"
  shows "agree (lp_decode c (a @ b)) (lp_decode c' (r @ b))"
proof (cases "lp_state c = Header")
  case True
  show ?thesis
  proof (cases "header_received (fst (fill_header c a)) < kHeaderSize")
    case h: True
    with assms True have "c' = fst (fill_header c a)" and "r = snd (fill_header c a)"
      by (auto simp: lp_decode_def case_prod_beta)
    with True fill_header_more [OF h] show ?thesis
      by (simp add: lp_decode_def case_prod_beta Let_def agree_def)
  next
    case h: False
    let ?c2 = "(fst (fill_header c a))\<lparr>pending_length := ntohl (header_buf (fst (fill_header c a)))\<rparr>"
    let ?c3 = "?c2\<lparr>lp_state := Body, body_buf := []\<rparr>"
    from assms True h have d: "decode_body ?c3 (snd (fill_header c a)) = (Incomplete, c', r, fo)"
      and n: "\<not> pending_length ?c2 > kMaxFrameSize"
      by (auto simp: lp_decode_def case_prod_beta Let_def split: if_splits)
    from decode_body_resume [OF d] have "r = []" "lp_state c' = Body"
      "decode_body ?c3 (snd (fill_header c a) @ b) = decode_body c' b" by auto
    then show ?thesis using True h n by (simp add: lp_decode_def fill_header_full Let_def)
  qed
next
  case False
  with assms have d: "decode_body c a = (Incomplete, c', r, fo)" by (simp add: lp_decode_def)
  from decode_body_resume [OF d] False show ?thesis by (simp add: lp_decode_def)
qed

lemma lp_decided:
  assumes "lp_decode c a = (st, c', r, fo)" and "st \<noteq> Incomplete"
  shows "lp_decode c (a @ b) = (st, c', r @ b, fo)"
proof (cases "lp_state c = Header")
  case True
  have h: "\<not> header_received (fst (fill_header c a)) < kHeaderSize"
    using assms True by (auto simp: lp_decode_def case_prod_beta)
  show ?thesis
    using assms True h decode_body_decided [OF _ assms(2)]
    by (auto simp: lp_decode_def case_prod_beta Let_def fill_header_full)
next
  case False
  with assms decode_body_decided show ?thesis by (simp add: lp_decode_def)
qed

lemma lp_frame_law:
  assumes "lp_fresh c" and "lp_valid f"
  shows "\<exists>c'. lp_decode c (lp_wire f @ rest) = (Complete, c', rest, Some f) \<and> lp_fresh (lp_reset c')"
proof -
  let ?h = "htonl (lp_length f)"
  obtain h0 h1 h2 h3 where h: "?h = [h0, h1, h2, h3]" by (simp add: htonl_def)
  let ?c1 = "c\<lparr>header_buf := ?h, header_received := kHeaderSize\<rparr>"
  from assms(1) obtain x0 x1 x2 x3 where "header_buf c = [x0, x1, x2, x3]"
    by (auto simp: lp_fresh_def kHeaderSize_def numeral_eq_Suc length_Suc_conv)
  then have fl: "fill_header c (?h @ bs) = (?c1, bs)" for bs
    using assms(1) by (cases bs) (simp_all add: h lp_fresh_def kHeaderSize_def numeral_eq_Suc)
  have w: "lp_wire f @ rest = ?h @ (lp_payload f @ rest)" by (simp add: lp_wire_def lp_encode_def)
  let ?c3 = "?c1\<lparr>pending_length := lp_length f, lp_state := Body, body_buf := []\<rparr>"
  have "decode_body ?c3 (lp_payload f @ rest) = (Complete, ?c3, rest, Some f)"
    using assms(2) by (simp add: decode_body_def lp_valid_def)
  moreover have "lp_decode c (lp_wire f @ rest) = decode_body ?c3 (lp_payload f @ rest)"
    unfolding w lp_decode_def fl using assms by (auto simp: lp_fresh_def ntohl_htonl lp_valid_def Let_def)
  moreover have "lp_fresh (lp_reset ?c3)" using h by (simp add: lp_fresh_def lp_reset_def kHeaderSize_def)
  ultimately show ?thesis by metis
qed

interpretation lp: frame_codec lp_decode lp_reset lp_wire lp_valid lp_fresh
proof unfold_locales
  show "lp_wire f \<noteq> []" for f by (simp add: lp_wire_def lp_encode_def htonl_def)
  show "lp_fresh s \<Longrightarrow> fst (lp_decode s []) = Incomplete" for s
    by (simp add: lp_fresh_def lp_decode_def kHeaderSize_def)
qed (fact lp_resume lp_decided lp_frame_law)+

section \<open>The line codec meets the interface\<close>

definition line_valid :: "string \<Rightarrow> bool" where
  "line_valid l \<longleftrightarrow> CHR 0x0A \<notin> set l"

definition line_wire :: "bool \<Rightarrow> string \<Rightarrow> string" where
  "line_wire crlf l = concat (the (line_encode crlf l 2))"

lemma line_decided:
  assumes "line_decode crlf a = (st, c', r, fo)" and "st \<noteq> Incomplete"
  shows "line_decode crlf (a @ b) = (st, c', r @ b, fo)"
proof -
  from assms obtain i where i: "find_index (\<lambda>c. c = CHR 0x0A) a = Some i"
    by (auto simp: line_decode_def split: option.splits)
  then have lt: "i < length a" by (rule find_index_Some_length)
  have "find_index (\<lambda>c. c = CHR 0x0A) (a @ b) = Some i" using i by (simp add: find_index_append)
  with assms i lt show ?thesis by (auto simp: line_decode_def Let_def nth_append)
qed

lemma line_wire_decode: "line_valid l \<Longrightarrow> line_decode crlf (line_wire crlf l @ rest) = (Complete, crlf, rest, Some l)"
proof -
  assume v: "line_valid l"
  let ?w = "if crlf then l @ [CHR 0x0D] else l"
  have w: "line_wire crlf l @ rest = ?w @ CHR 0x0A # rest" by (simp add: line_wire_def line_encode_def)
  have nl: "\<forall>y \<in> set ?w. \<not> y = CHR 0x0A" using v by (auto simp: line_valid_def)
  have "find_index (\<lambda>c. c = CHR 0x0A) (?w @ CHR 0x0A # rest) = Some (length ?w)"
    by (rule find_index_hit [OF refl nl])
  then show ?thesis unfolding w by (cases crlf) (simp_all add: line_decode_def Let_def nth_append)
qed

lemma line_resume:
  assumes "line_decode s a = (Incomplete, s', r, fo)"
  shows "agree (line_decode s (a @ b)) (line_decode s' (r @ b))"
proof (cases "find_index (\<lambda>c. c = CHR 0x0A) a")
  case None
  with assms have "s' = s \<and> r = a" by (simp add: line_decode_def del: find_index_None)
  then show ?thesis by simp
next
  case (Some i)
  with assms show ?thesis by (simp add: line_decode_def Let_def)
qed

lemma line_wire_nonempty: "line_wire m l \<noteq> []" and line_idle: "fst (line_decode m []) = Incomplete"
  by (simp_all add: line_wire_def line_encode_def line_decode_def)

lemma line_frame:
  "s = m \<Longrightarrow> line_valid f \<Longrightarrow>
     \<exists>s'. line_decode s (line_wire m f @ rest) = (Complete, s', rest, Some f) \<and> line_reset s' = m"
  using line_wire_decode [of f m rest] by (simp add: line_reset_def)

interpretation crlf: frame_codec line_decode line_reset "line_wire True" line_valid "\<lambda>c. c = True"
  by unfold_locales (fact line_resume line_decided line_frame | simp add: line_wire_nonempty line_idle)+

interpretation lf: frame_codec line_decode line_reset "line_wire False" line_valid "\<lambda>c. c = False"
  by unfold_locales (fact line_resume line_decided line_frame | simp add: line_wire_nonempty line_idle)+

section \<open>Properties\<close>

text \<open>C13: a stream of valid frames reaches the receiver of a fresh \<open>LengthPrefixedCodec\<close> intact and in order,
  however the transport cuts the bytes into pieces, when the receiver calls \<open>reset\<close> after each frame.\<close>

theorem lp_stream_intact:
  assumes "\<forall>f \<in> set fs. unat (lp_length f) = length (lp_payload f) \<and> lp_length f \<le> kMaxFrameSize"
    and "concat pieces = concat (map (\<lambda>f. concat (the (lp_encode f 2))) fs)"
  shows "lp.receive (length (concat pieces) + 1) LengthPrefixedCodec [] pieces = fs"
proof (rule lp.receive_frames)
  show "lp_fresh LengthPrefixedCodec" by (simp add: lp_fresh_def LengthPrefixedCodec_def)
  show "concat pieces = concat (map lp_wire fs)" using assms(2) by (simp add: lp_wire_def [abs_def])
qed (use assms in \<open>auto simp: lp_valid_def lp_wire_def [abs_def]\<close>)

theorem lp_stream_intact_witness:
  "lp.receive 11 LengthPrefixedCodec [] [[0, 0], [0, 2, 7], [8, 0, 0, 0, 0]] =
     [\<lparr> lp_length = 2, lp_payload = [7, 8] \<rparr>, \<lparr> lp_length = 0, lp_payload = [] \<rparr>]"
proof -
  let ?ps = "[[0, 0], [0, 2, 7], [8, 0, 0, 0, 0]] :: bytes list"
  have "lp.receive (length (concat ?ps) + 1) LengthPrefixedCodec [] ?ps =
      [\<lparr> lp_length = 2, lp_payload = [7, 8] \<rparr>, \<lparr> lp_length = 0, lp_payload = [] \<rparr>]"
    by (rule lp_stream_intact) (simp_all add: lp_encode_def htonl_def kMaxFrameSize_def)
  moreover have "length (concat ?ps) + 1 = 11" by simp
  ultimately show ?thesis by (simp only:)
qed

text \<open>lines without a line feed reach the receiver intact and in order however the stream is cut, in
  CRLF and in LF mode.\<close>

theorem line_stream_intact:
  assumes "\<forall>l \<in> set ls. CHR 0x0A \<notin> set l"
    and "concat pieces = concat (map (\<lambda>l. concat (the (line_encode m l 2))) ls)"
  shows "(if m then crlf.receive else lf.receive) (length (concat pieces) + 1) m [] pieces = ls"
proof (cases m)
  case True
  have "crlf.receive (length (concat pieces) + 1) m [] pieces = ls"
    by (rule crlf.receive_frames) (use True assms in \<open>auto simp: line_valid_def line_wire_def [abs_def]\<close>)
  with True show ?thesis by simp
next
  case False
  have "lf.receive (length (concat pieces) + 1) m [] pieces = ls"
    by (rule lf.receive_frames) (use False assms in \<open>auto simp: line_valid_def line_wire_def [abs_def]\<close>)
  with False show ?thesis by simp
qed

theorem line_stream_intact_witness:
  "crlf.receive 8 True [] [''a'', [CHR 0x0D], [CHR 0x0A, CHR ''b'', CHR ''c''], [CHR 0x0D, CHR 0x0A]] = [''a'', ''bc'']"
proof -
  let ?ps = "[''a'', [CHR 0x0D], [CHR 0x0A, CHR ''b'', CHR ''c''], [CHR 0x0D, CHR 0x0A]]"
  have "(if True then crlf.receive else lf.receive) (length (concat ?ps) + 1) True [] ?ps = [''a'', ''bc'']"
    by (rule line_stream_intact) (simp_all add: line_encode_def)
  moreover have "length (concat ?ps) + 1 = 8" by simp
  ultimately show ?thesis by (simp only: if_True)
qed

text \<open>a length prefix is refused exactly when it announces more than 64 MiB, and then nothing of the body
  is buffered.\<close>

theorem lp_oversize_refused:
  "(fst (lp_decode LengthPrefixedCodec (htonl n @ rest)) = Error \<longleftrightarrow> kMaxFrameSize < n)
   \<and> length (body_buf (fst (snd (lp_decode LengthPrefixedCodec (htonl n @ rest))))) \<le> unat kMaxFrameSize"
proof -
  let ?c = "LengthPrefixedCodec\<lparr>header_buf := htonl n, header_received := 4\<rparr>"
  have fl: "fill_header LengthPrefixedCodec (htonl n @ rest) = (?c, rest)"
    by (cases rest) (simp_all add: htonl_def LengthPrefixedCodec_def kHeaderSize_def numeral_eq_Suc)
  let ?c3 = "?c\<lparr>pending_length := n, lp_state := Body, body_buf := []\<rparr>"
  have d: "lp_decode LengthPrefixedCodec (htonl n @ rest) =
      (if kMaxFrameSize < n then (Error, ?c\<lparr>pending_length := n\<rparr>, htonl n @ rest, None) else decode_body ?c3 rest)"
    unfolding lp_decode_def fl by (simp add: ntohl_htonl Let_def kHeaderSize_def LengthPrefixedCodec_def)
  show ?thesis
  proof (cases "kMaxFrameSize < n")
    case True
    then show ?thesis unfolding d by (simp add: LengthPrefixedCodec_def)
  next
    case False
    then have "unat n \<le> unat kMaxFrameSize" by (simp add: word_le_nat_alt not_less)
    with False show ?thesis unfolding d by (simp add: decode_body_cases Let_def)
  qed
qed

end
