(* ===== verification/Http_Request.thy ===== *)
theory Http_Request
  imports Prelude "HOL-Library.AList"
begin

text \<open>
  The request value type of \<open>include/qbuem/http/request.hpp\<close>: the request method, the setters of the
  parser and the router, header and path-parameter lookup in the inline arrays (a list of the
  entries in use, capped at the array sizes), the key-value scanner behind cookies and forms, and
  the lazily filled query cache. A \<open>string_view\<close> is the string it shows.
\<close>

section \<open>Model\<close>

datatype Method = Get | Post | Put | Delete | Patch | Options | Head | Unknown

definition string_to_method :: "string \<Rightarrow> Method" where
  "string_to_method m =
     (if m = ''GET'' then Get else if m = ''POST'' then Post else if m = ''PUT'' then Put
      else if m = ''DELETE'' then Delete else if m = ''PATCH'' then Patch
      else if m = ''OPTIONS'' then Options else if m = ''HEAD'' then Head else Unknown)"

definition kMaxInlineHeaders :: nat where
  "kMaxInlineHeaders = 32"

definition kMaxInlineParams :: nat where
  "kMaxInlineParams = 16"

record request =
  rq_method :: Method
  rq_path :: string
  query_string :: string
  rq_body :: string
  remote_addr :: string
  headers_flat :: "(string \<times> string) list"
  params_flat :: "(string \<times> string) list"
  query_cache :: "(string \<times> string) list option"

definition Request :: request where
  "Request =
     \<lparr> rq_method = Unknown, rq_path = [], query_string = [], rq_body = [], remote_addr = [],
       headers_flat = [], params_flat = [], query_cache = None \<rparr>"

fun flat_lookup :: "(string \<times> string) list \<Rightarrow> string \<Rightarrow> string" where
  "flat_lookup [] key = []"
| "flat_lookup ((k, v) # rest) key = (if k = key then v else flat_lookup rest key)"

definition header :: "request \<Rightarrow> string \<Rightarrow> string" where
  "header r key = flat_lookup (headers_flat r) key"

definition param :: "request \<Rightarrow> string \<Rightarrow> string" where
  "param r key = flat_lookup (params_flat r) key"

definition set_method :: "Method \<Rightarrow> request \<Rightarrow> request" where
  "set_method m r = r\<lparr>rq_method := m\<rparr>"

definition set_path :: "string \<Rightarrow> request \<Rightarrow> request" where
  "set_path raw r =
     (case find_index (\<lambda>c. c = CHR ''?'') raw of
        None \<Rightarrow> r\<lparr>rq_path := raw, query_string := [], query_cache := None\<rparr>
      | Some q \<Rightarrow> r\<lparr>rq_path := take q raw, query_string := drop (q + 1) raw, query_cache := None\<rparr>)"

definition set_body :: "string \<Rightarrow> request \<Rightarrow> request" where
  "set_body b r = r\<lparr>rq_body := b\<rparr>"

definition add_header :: "string \<Rightarrow> string \<Rightarrow> request \<Rightarrow> request" where
  "add_header key v r =
     (if length (headers_flat r) < kMaxInlineHeaders then r\<lparr>headers_flat := headers_flat r @ [(key, v)]\<rparr> else r)"

definition set_param :: "string \<Rightarrow> string \<Rightarrow> request \<Rightarrow> request" where
  "set_param key v r =
     (if length (params_flat r) < kMaxInlineParams then r\<lparr>params_flat := params_flat r @ [(key, v)]\<rparr> else r)"

definition set_remote_addr :: "string \<Rightarrow> request \<Rightarrow> request" where
  "set_remote_addr addr r = r\<lparr>remote_addr := addr\<rparr>"

text \<open>The scanners cut the text at each separator; \<open>pair_value\<close> is the test of one piece.\<close>

definition pair_value :: "string \<Rightarrow> string \<Rightarrow> string option" where
  "pair_value key pair =
     (case find_index (\<lambda>c. c = CHR ''='') pair of
        Some eq \<Rightarrow> (if take eq pair = key then Some (drop (eq + 1) pair) else None)
      | None \<Rightarrow> None)"

function scan_kv :: "string \<Rightarrow> char \<Rightarrow> string \<Rightarrow> string" where
  "scan_kv src sep key =
     (if src = [] then []
      else
        (let s = dropWhile (\<lambda>c. c = CHR '' '') src in
         case find_index (\<lambda>c. c = sep) s of
           None \<Rightarrow> (case pair_value key s of Some v \<Rightarrow> v | None \<Rightarrow> [])
         | Some delim \<Rightarrow>
             (case pair_value key (take delim s) of Some v \<Rightarrow> v
              | None \<Rightarrow> scan_kv (drop (delim + 1) s) sep key)))"
  by pat_completeness auto
termination
proof (relation "measure (\<lambda>(src, sep, key). length src)")
  fix src sep key s delim
  assume "src \<noteq> []" and "s = dropWhile (\<lambda>c. c = CHR '' '') src" and "find_index (\<lambda>c. c = sep) s = Some delim"
  then have "delim < length s" and "length s \<le> length src"
    by (simp_all add: find_index_Some_length length_dropWhile_le)
  then show "((drop (delim + 1) s, sep, key), src, sep, key) \<in> measure (\<lambda>(src, sep, key). length src)"
    by simp
qed simp

declare scan_kv.simps [simp del]

definition cookie :: "request \<Rightarrow> string \<Rightarrow> string" where
  "cookie r key = scan_kv (header r ''Cookie'') CHR '';'' key"

fun find_sub :: "string \<Rightarrow> string \<Rightarrow> nat option" where
  "find_sub pat [] = (if pat = [] then Some 0 else None)"
| "find_sub pat (x # xs) = (if take (length pat) (x # xs) = pat then Some 0 else map_option Suc (find_sub pat xs))"

definition form :: "request \<Rightarrow> string \<Rightarrow> string" where
  "form r key =
     (if find_sub ''application/x-www-form-urlencoded'' (header r ''Content-Type'') = None then []
      else scan_kv (rq_body r) CHR ''&'' key)"

definition kMaxQueryStringBytes :: nat where
  "kMaxQueryStringBytes = 65536"

definition kMaxQueryParams :: nat where
  "kMaxQueryParams = 128"

definition cache_pair :: "string \<Rightarrow> (string \<times> string) list \<Rightarrow> (string \<times> string) list" where
  "cache_pair pair cache =
     (case find_index (\<lambda>c. c = CHR ''='') pair of
        Some eq \<Rightarrow> AList.update (take eq pair) (drop (eq + 1) pair) cache
      | None \<Rightarrow> cache)"

function fill_cache :: "string \<Rightarrow> (string \<times> string) list \<Rightarrow> (string \<times> string) list" where
  "fill_cache src cache =
     (if src = [] \<or> length cache \<ge> kMaxQueryParams then cache
      else case find_index (\<lambda>c. c = CHR ''&'') src of
        None \<Rightarrow> cache_pair src cache
      | Some delim \<Rightarrow> fill_cache (drop (delim + 1) src) (cache_pair (take delim src) cache))"
  by pat_completeness auto
termination
  by (relation "measure (\<lambda>(src, cache). length src)") (auto dest: find_index_Some_length)

declare fill_cache.simps [simp del]

definition ensure_query_cache :: "request \<Rightarrow> request" where
  "ensure_query_cache r =
     (case query_cache r of
        Some c \<Rightarrow> r
      | None \<Rightarrow>
          r\<lparr>query_cache :=
              Some (if length (query_string r) > kMaxQueryStringBytes then [] else fill_cache (query_string r) [])\<rparr>)"

definition query :: "request \<Rightarrow> string \<Rightarrow> string \<times> request" where
  "query r key =
     (let r' = ensure_query_cache r in
      (case map_of (the (query_cache r')) key of Some v \<Rightarrow> v | None \<Rightarrow> [], r'))"

section \<open>Key-value texts\<close>

fun join_pairs :: "string \<Rightarrow> (string \<times> string) list \<Rightarrow> string" where
  "join_pairs sep [] = []"
| "join_pairs sep [(k, v)] = k @ CHR ''='' # v"
| "join_pairs sep ((k, v) # kv # kvs) = k @ CHR ''='' # v @ sep @ join_pairs sep (kv # kvs)"

lemma find_eq: "CHR ''='' \<notin> set k \<Longrightarrow> find_index (\<lambda>c. c = CHR ''='') (k @ CHR ''='' # v) = Some (length k)"
  by (rule find_index_hit) auto

lemma pair_value_pair: "CHR ''='' \<notin> set k \<Longrightarrow> pair_value key (k @ CHR ''='' # v) = (if k = key then Some v else None)"
  by (simp add: pair_value_def find_eq)

lemma cache_pair_pair: "CHR ''='' \<notin> set k \<Longrightarrow> cache_pair (k @ CHR ''='' # v) c = AList.update k v c"
  by (simp add: cache_pair_def find_eq)

definition clean_pair :: "char \<Rightarrow> string \<times> string \<Rightarrow> bool" where
  "clean_pair sep kv \<longleftrightarrow>
     CHR ''='' \<notin> set (fst kv) \<and> sep \<notin> set (fst kv) \<and> sep \<notin> set (snd kv) \<and> sep \<noteq> CHR ''=''"

lemma find_sep:
  "clean_pair sep (k, v) \<Longrightarrow>
     find_index (\<lambda>c. c = sep) (k @ CHR ''='' # v @ sep # rest) = Some (length (k @ CHR ''='' # v))"
  using find_index_hit [of "\<lambda>c. c = sep" sep "k @ CHR ''='' # v" rest] by (auto simp: clean_pair_def)

lemma find_sep_none: "clean_pair sep (k, v) \<Longrightarrow> find_index (\<lambda>c. c = sep) (k @ CHR ''='' # v) = None"
  by (auto simp: clean_pair_def)

lemma length_update_le: "length (AList.update k v al) \<le> Suc (length al)"
  by (induction al) auto

lemma fill_cache_join:
  "\<forall>kv \<in> set kvs. clean_pair CHR ''&'' kv \<Longrightarrow> length c + length kvs \<le> kMaxQueryParams \<Longrightarrow>
     fill_cache (join_pairs ''&'' kvs) c = fold (\<lambda>(k, v). AList.update k v) kvs c"
proof (induction kvs arbitrary: c rule: join_pairs.induct [of "\<lambda>_. P" for P])
  case 1
  then show ?case by (simp add: fill_cache.simps)
next
  case (2 _ k v)
  then have cl: "clean_pair CHR ''&'' (k, v)" by simp
  have "fill_cache (k @ CHR ''='' # v) c = cache_pair (k @ CHR ''='' # v) c"
    using 2 find_sep_none [OF cl] by (simp add: fill_cache.simps [of "k @ CHR ''='' # v"] del: find_index_None)
  then show ?case using cl by (simp add: cache_pair_pair clean_pair_def)
next
  case (3 _ k v kv kvs)
  then have cl: "clean_pair CHR ''&'' (k, v)" by simp
  let ?c = "AList.update k v c" and ?rest = "join_pairs ''&'' (kv # kvs)"
  have "length ?c + length (kv # kvs) \<le> kMaxQueryParams"
    using 3(3) length_update_le [of k v c] by simp
  then have "fill_cache ?rest ?c = fold (\<lambda>(k, v). AList.update k v) (kv # kvs) ?c"
    using 3(1,2) by simp
  moreover have "fill_cache (k @ CHR ''='' # v @ CHR ''&'' # ?rest) c = fill_cache ?rest ?c"
    using 3(3) find_sep [OF cl, of ?rest] cl
    by (simp add: fill_cache.simps [of "k @ CHR ''='' # v @ CHR ''&'' # ?rest"] cache_pair_pair clean_pair_def)
  ultimately show ?case by simp
qed

lemma map_of_fold_update:
  "map_of (fold (\<lambda>(k, v). AList.update k v) kvs c) key =
     (case map_of (rev kvs) key of Some v \<Rightarrow> Some v | None \<Rightarrow> map_of c key)"
proof (induction kvs arbitrary: c)
  case (Cons kv kvs)
  then show ?case
    by (cases kv) (auto simp: update_conv' map_add_def split: option.splits)
qed simp

lemma scan_kv_nonempty:
  assumes "s \<noteq> []" and "hd s \<noteq> CHR '' ''" and "set gap \<subseteq> {CHR '' ''}"
  shows "scan_kv (gap @ s) sep key =
    (case find_index (\<lambda>c. c = sep) s of
       None \<Rightarrow> (case pair_value key s of Some v \<Rightarrow> v | None \<Rightarrow> [])
     | Some delim \<Rightarrow>
         (case pair_value key (take delim s) of Some v \<Rightarrow> v
          | None \<Rightarrow> scan_kv (drop (delim + 1) s) sep key))"
proof -
  have "dropWhile (\<lambda>c. c = CHR '' '') (gap @ s) = s"
    using assms by (induction gap) (auto simp: dropWhile_eq_self_iff)
  with assms(1) show ?thesis by (simp add: scan_kv.simps [of "gap @ s"])
qed

definition trim_pair :: "char \<Rightarrow> string \<times> string \<Rightarrow> bool" where
  "trim_pair sep kv \<longleftrightarrow> clean_pair sep kv \<and> (fst kv = [] \<or> hd (fst kv) \<noteq> CHR '' '')"

lemma scan_kv_join:
  "\<forall>kv \<in> set kvs. trim_pair sep kv \<Longrightarrow> set gap \<subseteq> {CHR '' ''} \<Longrightarrow> kvs \<noteq> [] \<Longrightarrow>
     scan_kv (gap @ join_pairs [sep, CHR '' ''] kvs) sep key = (case map_of kvs key of Some v \<Rightarrow> v | None \<Rightarrow> [])"
proof (induction kvs arbitrary: gap rule: join_pairs.induct [of "\<lambda>_. P" for P])
  case (2 _ k v)
  then have cl: "clean_pair sep (k, v)" and h: "hd (k @ CHR ''='' # v) \<noteq> CHR '' ''"
    by (cases k; simp add: trim_pair_def)+
  have "scan_kv (gap @ k @ CHR ''='' # v) sep key = (case pair_value key (k @ CHR ''='' # v) of Some v \<Rightarrow> v | None \<Rightarrow> [])"
    using scan_kv_nonempty [OF _ h 2(2), of sep key] find_sep_none [OF cl] by (simp del: find_index_None)
  then show ?case using cl by (simp add: pair_value_pair clean_pair_def)
next
  case (3 _ k v kv kvs)
  let ?rest = "join_pairs [sep, CHR '' ''] (kv # kvs)"
  let ?s = "k @ CHR ''='' # v @ sep # CHR '' '' # ?rest"
  have cl: "clean_pair sep (k, v)" and h: "hd ?s \<noteq> CHR '' ''"
    using 3(2) by (cases k; simp add: trim_pair_def)+
  have ih: "scan_kv ([CHR '' ''] @ ?rest) sep key = (case map_of (kv # kvs) key of Some v \<Rightarrow> v | None \<Rightarrow> [])"
    by (rule 3(1)) (use 3(2) in auto)
  have "scan_kv (gap @ ?s) sep key =
      (case pair_value key (k @ CHR ''='' # v) of Some v \<Rightarrow> v | None \<Rightarrow> scan_kv (CHR '' '' # ?rest) sep key)"
  proof -
    define q where "q = k @ CHR ''='' # v"
    have s: "?s = q @ sep # CHR '' '' # ?rest" by (simp add: q_def)
    have "find_index (\<lambda>c. c = sep) (q @ sep # CHR '' '' # ?rest) = Some (length q)"
      using find_sep [OF cl, of "CHR '' '' # ?rest"] by (simp add: q_def)
    with scan_kv_nonempty [OF _ h 3(3), of sep key] show ?thesis unfolding s q_def [symmetric] by (simp split: option.splits)
  qed
  then show ?case using cl ih by (simp add: pair_value_pair clean_pair_def)
qed simp

section \<open>Properties\<close>



text \<open>\<open>cookie\<close> on a Cookie header \<open>k1=v1; k2=v2; ...\<close> returns the value of the first cookie of that
  name, and the empty string when there is none.\<close>

theorem cookie_first_wins:
  assumes "\<forall>(k, v) \<in> set kvs. set k \<inter> {CHR ''='', CHR '';'', CHR '' ''} = {} \<and> CHR '';'' \<notin> set v"
    and "header r ''Cookie'' = join_pairs ''; '' kvs"
  shows "cookie r key = (case map_of kvs key of Some v \<Rightarrow> v | None \<Rightarrow> [])"
proof (cases "kvs = []")
  case True
  then show ?thesis using assms(2) by (simp add: cookie_def scan_kv.simps)
next
  case False
  have "\<forall>kv \<in> set kvs. trim_pair CHR '';'' kv"
    using assms(1) by (auto simp: trim_pair_def clean_pair_def dest!: bspec) (metis list.set_sel(1))
  from scan_kv_join [OF this, of "[]" key] False show ?thesis by (simp add: cookie_def assms(2))
qed

theorem cookie_first_wins_witness:
  "cookie (add_header ''Cookie'' ''id=7; theme=dark; id=8'' Request) ''id'' = ''7''
   \<and> cookie (add_header ''Cookie'' ''id=7; theme=dark; id=8'' Request) ''x'' = []"
  using cookie_first_wins [of "[(''id'', ''7''), (''theme'', ''dark''), (''id'', ''8'')]"
      "add_header ''Cookie'' ''id=7; theme=dark; id=8'' Request"]
  by (simp add: add_header_def header_def Request_def kMaxInlineHeaders_def)

end
