(* ===== verification/Http_Scan.thy ===== *)
theory Http_Scan
  imports Prelude
begin

text \<open>
  \<open>find_header_end\<close> of \<open>src/http/parser.cpp\<close>, the search for the blank line that ends the headers, in its
  four builds: scalar, SSE2, AVX2 and NEON. The vector builds compare a block of bytes with a
  carriage return, compact the comparison into a machine word and walk its set bits with
  \<open>ctz\<close> and \<open>mask &= mask - 1\<close>; the masks are words of the width of the code. Not found is \<open>None\<close>
  for \<open>SIZE_MAX\<close>.
\<close>

unbundle bit_operations_syntax

section \<open>Model\<close>

abbreviation CR :: char where
  "CR \<equiv> CHR 0x0D"

abbreviation LF :: char where
  "LF \<equiv> CHR 0x0A"

function scalar_scan :: "string \<Rightarrow> nat \<Rightarrow> nat option" where
  "scalar_scan data i =
     (if i + 3 < length data then
        (if data ! i = CR \<and> data ! (i + 1) = LF \<and> data ! (i + 2) = CR \<and> data ! (i + 3) = LF then Some i
         else scalar_scan data (i + 1))
      else None)"
  by pat_completeness auto
termination
  by (relation "measure (\<lambda>(data, i). length data - i)") auto

declare scalar_scan.simps [simp del]

definition ctz :: "'a :: len word \<Rightarrow> nat" where
  "ctz m = (case find_index (bit m) [0..<LENGTH('a)] of Some k \<Rightarrow> k | None \<Rightarrow> LENGTH('a))"

lemma clear_lowest_less: "m \<noteq> 0 \<Longrightarrow> unat (m AND (m - 1)) < unat (m :: 'a :: len word)"
proof -
  assume "m \<noteq> 0"
  then have "unat (m - 1) < unat m" by (simp add: measure_unat)
  moreover have "unat (m AND (m - 1)) \<le> unat (m - 1)"
    by (metis word_and_le1 word_le_nat_alt)
  ultimately show ?thesis by simp
qed

text \<open>The loop over the set bits; \<open>sh\<close> is 2 in the NEON build, where every byte has four mask bits.\<close>

function mask_loop :: "nat \<Rightarrow> string \<Rightarrow> nat \<Rightarrow> 'a :: len word \<Rightarrow> nat option" where
  "mask_loop sh data i m =
     (if m = 0 then None
      else
        (let off = i + drop_bit sh (ctz m) in
         if off + 3 < length data \<and> data ! (off + 1) = LF \<and> data ! (off + 2) = CR \<and> data ! (off + 3) = LF
         then Some off
         else mask_loop sh data i (m AND (m - 1))))"
  by pat_completeness auto
termination
  by (relation "measure (\<lambda>(sh, data, i, m). unat m)") (auto simp: clear_lowest_less)

declare mask_loop.simps [simp del]

fun movemask :: "string \<Rightarrow> u32" where
  "movemask [] = 0"
| "movemask (c # cs) = (if c = CR then 1 else 0) OR push_bit 1 (movemask cs)"

definition vceq :: "char \<Rightarrow> u8" where
  "vceq c = (if c = CR then 0xFF else 0)"

text \<open>\<open>vshrn_n_u16\<close> by 4 on the 16-bit lanes, and the lanes read as one 64-bit word.\<close>

fun neon_mask :: "string \<Rightarrow> u64" where
  "neon_mask (c # d # cs) =
     (let lane = push_bit 8 (ucast (vceq d)) OR (ucast (vceq c) :: u16);
          narrow = (ucast (drop_bit 4 lane) :: u8)
      in ucast narrow OR push_bit 8 (neon_mask cs))"
| "neon_mask cs = 0"

function avx2_scan :: "string \<Rightarrow> nat \<Rightarrow> nat option" where
  "avx2_scan data i =
     (if i + 32 \<le> length data then
        (case mask_loop 0 data i (movemask (take 32 (drop i data))) of
           Some off \<Rightarrow> Some off
         | None \<Rightarrow> avx2_scan data (i + 32))
      else scalar_scan data i)"
  by pat_completeness auto
termination
  by (relation "measure (\<lambda>(data, i). length data - i)") auto

function sse2_scan :: "string \<Rightarrow> nat \<Rightarrow> nat option" where
  "sse2_scan data i =
     (if i + 16 \<le> length data then
        (case mask_loop 0 data i (movemask (take 16 (drop i data))) of
           Some off \<Rightarrow> Some off
         | None \<Rightarrow> sse2_scan data (i + 16))
      else scalar_scan data i)"
  by pat_completeness auto
termination
  by (relation "measure (\<lambda>(data, i). length data - i)") auto

function neon_scan :: "string \<Rightarrow> nat \<Rightarrow> nat option" where
  "neon_scan data i =
     (if i + 16 \<le> length data then
        (if CR \<notin> set (take 16 (drop i data)) then neon_scan data (i + 16)
         else case mask_loop 2 data i (neon_mask (take 16 (drop i data))) of
           Some off \<Rightarrow> Some off
         | None \<Rightarrow> neon_scan data (i + 16))
      else scalar_scan data i)"
  by pat_completeness auto
termination
  by (relation "measure (\<lambda>(data, i). length data - i)") auto

declare avx2_scan.simps [simp del] sse2_scan.simps [simp del] neon_scan.simps [simp del]

definition find_header_end :: "string \<Rightarrow> nat option" where
  "find_header_end data = (if length data < 4 then None else scalar_scan data 0)"

definition find_header_end_avx2 :: "string \<Rightarrow> nat option" where
  "find_header_end_avx2 data = (if length data < 4 then None else avx2_scan data 0)"

definition find_header_end_sse2 :: "string \<Rightarrow> nat option" where
  "find_header_end_sse2 data = (if length data < 4 then None else sse2_scan data 0)"

definition find_header_end_neon :: "string \<Rightarrow> nat option" where
  "find_header_end_neon data = (if length data < 4 then None else neon_scan data 0)"

section \<open>Walking the set bits of a mask\<close>

lemma ctz_lowest:
  assumes "m \<noteq> (0 :: 'a :: len word)"
  shows "bit m (ctz m)" and "ctz m < LENGTH('a)" and "\<And>k. k < ctz m \<Longrightarrow> \<not> bit m k"
proof -
  from assms obtain n where "bit m n" by (auto simp: bit_eq_iff)
  then have "n < LENGTH('a)" by (rule bit_imp_le_length)
  with \<open>bit m n\<close> have "find_index (bit m) [0..<LENGTH('a)] \<noteq> None" by auto
  then obtain k where k: "find_index (bit m) [0..<LENGTH('a)] = Some k" by (meson not_None_eq)
  then have c: "ctz m = k" by (simp add: ctz_def)
  from k show "bit m (ctz m)" "ctz m < LENGTH('a)" "\<And>k. k < ctz m \<Longrightarrow> \<not> bit m k"
    unfolding c by (auto simp: find_index_Some_iff)
qed

lemma clear_lowest_bit:
  assumes "m \<noteq> (0 :: 'a :: len word)"
  shows "bit (m AND (m - 1)) k \<longleftrightarrow> bit m k \<and> k \<noteq> ctz m"
proof -
  define c s where "c = ctz m" and "s = Suc (ctz m)"
  have cs: "k < s \<longleftrightarrow> k \<le> c" for k by (auto simp: c_def s_def)
  note lo = ctz_lowest [OF assms, folded c_def]
  have hi: "s \<le> n \<Longrightarrow> s + (n - s) = n" for n by simp
  have m: "m = push_bit s (drop_bit s m) OR push_bit c 1"
  proof (rule bit_word_eqI)
    fix n
    assume "n < LENGTH('a)"
    then show "bit m n \<longleftrightarrow> bit (push_bit s (drop_bit s m) OR push_bit c 1) n"
      using lo cs [of n] by (cases "n = c"; cases "s \<le> n") (auto simp: bit_simps)
  qed
  have "c < s" by (simp add: c_def s_def)
  then have "push_bit s (drop_bit s m) AND push_bit c 1 = 0" "push_bit s (drop_bit s m) AND mask c = 0"
    by (auto intro!: bit_word_eqI simp: bit_simps)
  then have "m = push_bit s (drop_bit s m) + push_bit c 1"
    and m1: "push_bit s (drop_bit s m) OR mask c = push_bit s (drop_bit s m) + mask c"
    using m by (simp_all add: disjunctive_add_eq_or)
  moreover have "push_bit c (1 :: 'a word) - 1 = mask c" by (simp add: mask_eq_exp_minus_1)
  ultimately have "m - 1 = push_bit s (drop_bit s m) OR mask c" by (metis add_diff_eq)
  then have "bit (m - 1) k \<longleftrightarrow> (if k < c then k < LENGTH('a) else k \<noteq> c \<and> bit m k)" for k
    using cs [of k] bit_imp_le_length [of m k] by (cases "s \<le> k") (auto simp: bit_simps)
  with lo show ?thesis by (auto simp: bit_and_iff c_def [symmetric])
qed

definition set_bits :: "'a :: len word \<Rightarrow> nat list" where
  "set_bits m = filter (bit m) [0..<LENGTH('a)]"

lemma set_bits_step:
  assumes "m \<noteq> (0 :: 'a :: len word)"
  shows "set_bits m = ctz m # set_bits (m AND (m - 1))"
proof -
  note lo = ctz_lowest [OF assms]
  let ?c = "ctz m"
  have s: "[0..<LENGTH('a)] = [0..<?c] @ ?c # [Suc ?c..<LENGTH('a)]"
    using lo(2) by (metis le_add1 le_add_same_cancel1 less_imp_le_nat upt_add_eq_append upt_conv_Cons le_Suc_ex)
  have "filter (bit m) [0..<?c] = []" "filter (bit (m AND (m - 1))) [0..<?c] = []"
    using lo(3) by (auto simp: filter_empty_conv clear_lowest_bit [OF assms])
  moreover have "filter (bit (m AND (m - 1))) [Suc ?c..<LENGTH('a)] = filter (bit m) [Suc ?c..<LENGTH('a)]"
    by (rule filter_cong) (auto simp: clear_lowest_bit [OF assms])
  ultimately show ?thesis
    unfolding set_bits_def s using lo(1) clear_lowest_bit [OF assms, of ?c] by simp
qed

definition hit :: "string \<Rightarrow> nat \<Rightarrow> bool" where
  "hit data off \<longleftrightarrow> off + 3 < length data \<and> data ! off = CR \<and> data ! (off + 1) = LF
     \<and> data ! (off + 2) = CR \<and> data ! (off + 3) = LF"

lemma mask_loop_find:
  "mask_loop sh data i m =
     find (\<lambda>off. off + 3 < length data \<and> data ! (off + 1) = LF \<and> data ! (off + 2) = CR \<and> data ! (off + 3) = LF)
       (map (\<lambda>k. i + k div 2 ^ sh) (set_bits m))"
proof (induction sh data i m rule: mask_loop.induct)
  case (1 sh data i m)
  show ?case
  proof (cases "m = 0")
    case True
    then show ?thesis by (subst mask_loop.simps) (simp add: set_bits_def)
  next
    case False
    then show ?thesis
      using 1 by (simp add: mask_loop.simps [of sh data i m] set_bits_step [OF False] drop_bit_nat_def Let_def)
  qed
qed

lemma find_map_filter: "find P (map f (filter Q xs)) = map_option f (find (\<lambda>k. Q k \<and> P (f k)) xs)"
  by (induction xs) auto

lemma find_shift: "find P [i..<i + n] = map_option ((+) i) (find (\<lambda>k. P (i + k)) [0..<n])"
proof -
  have "[i..<i + n] = map ((+) i) [0..<n]" by (rule nth_equalityI) auto
  then show ?thesis using find_map_filter [of P "(+) i" "\<lambda>_. True" "[0..<n]"] by simp
qed

lemma find_nibbles: "find Q (map (\<lambda>k. k div 4) [0..<4 * n]) = find Q [0..<n]"
proof (induction n)
  case (Suc n)
  have "[0..<4 * Suc n] = [0..<4 * n] @ [4 * n, 4 * n + 1, 4 * n + 2, 4 * n + 3]"
    by (rule nth_equalityI) (auto simp: nth_append less_Suc_eq numeral_eq_Suc)
  moreover have "(4 * n) div 4 = n" "(4 * n + 1) div 4 = n" "(4 * n + 2) div 4 = n" "(4 * n + 3) div 4 = n"
    by presburger+
  ultimately have "map (\<lambda>k. k div 4) [0..<4 * Suc n] = map (\<lambda>k. k div 4) [0..<4 * n] @ [n, n, n, n]"
    by (simp only: map_append list.map)
  with Suc show ?case by (simp only: find_append) (simp add: find_append split: option.splits)
qed simp

lemma scalar_scan_find: "scalar_scan data i = find (hit data) [i..<length data]"
proof (induction data i rule: scalar_scan.induct)
  case (1 data i)
  show ?case
  proof (cases "i + 3 < length data")
    case True
    then have "[i..<length data] = i # [i + 1..<length data]" by (simp add: upt_conv_Cons)
    with 1 True show ?thesis by (simp add: scalar_scan.simps [of data i] hit_def)
  next
    case False
    then have "find (hit data) [i..<length data] = None" by (auto simp: find_None_iff hit_def)
    with False show ?thesis by (simp add: scalar_scan.simps [of data i])
  qed
qed

lemma movemask_bit: "bit (movemask cs) k \<longleftrightarrow> k < length cs \<and> k < 32 \<and> cs ! k = CR"
proof (induction cs arbitrary: k)
  case (Cons c cs)
  have h: "bit (if c = CR then 1 else 0 :: u32) k \<longleftrightarrow> c = CR \<and> k = 0" by (simp add: bit_1_iff)
  have t: "bit (push_bit 1 (movemask cs)) k \<longleftrightarrow> 0 < k \<and> k < 32 \<and> bit (movemask cs) (k - 1)"
    unfolding bit_push_bit_iff by (auto simp: Suc_le_eq)
  have "bit (movemask (c # cs)) k \<longleftrightarrow> c = CR \<and> k = 0 \<or> 0 < k \<and> k < 32 \<and> bit (movemask cs) (k - 1)"
    by (simp only: movemask.simps bit_or_iff h t)
  then show ?case unfolding Cons by (cases k) auto
qed simp

lemma vceq_bit: "bit (vceq x) j \<longleftrightarrow> x = CR \<and> j < 8"
proof -
  have "(0xFF :: u8) = mask 8" by (simp add: mask_eq_exp_minus_1)
  then have "bit (0xFF :: u8) j \<longleftrightarrow> j < 8" by (simp only: bit_mask_iff) auto
  then show ?thesis by (simp add: vceq_def)
qed

lemma neon_mask_step:
  "bit (neon_mask (c # d # cs)) k \<longleftrightarrow>
     (if k < 4 then c = CR else if k < 8 then d = CR else k < 64 \<and> bit (neon_mask cs) (k - 8))"
proof -
  let ?n = "ucast (drop_bit 4 (push_bit 8 (ucast (vceq d)) OR (ucast (vceq c) :: u16))) :: u8"
  have n: "bit ?n k \<longleftrightarrow> k < 8 \<and> (if k < 4 then c = CR else d = CR)"
    by (auto simp: bit_simps vceq_bit)
  have "bit (push_bit 8 (neon_mask cs)) k \<longleftrightarrow> 8 \<le> k \<and> k < 64 \<and> bit (neon_mask cs) (k - 8)"
    unfolding bit_push_bit_iff by auto
  moreover have "bit (ucast ?n :: u64) k \<longleftrightarrow> bit ?n k" unfolding bit_unsigned_iff using n by auto
  ultimately show ?thesis using n unfolding neon_mask.simps Let_def bit_or_iff by auto
qed

lemma neon_mask_bit:
  "even (length cs) \<Longrightarrow> bit (neon_mask cs) k \<longleftrightarrow> k div 4 < length cs \<and> k < 64 \<and> cs ! (k div 4) = CR"
proof (induction cs arbitrary: k rule: neon_mask.induct)
  case (1 c d cs)
  have ih: "bit (neon_mask cs) (k - 8) \<longleftrightarrow> (k - 8) div 4 < length cs \<and> k - 8 < 64 \<and> cs ! ((k - 8) div 4) = CR"
    by (rule "1.IH" [OF refl refl]) (use "1.prems" in simp)
  consider (lo) "k < 4" | (mid) "4 \<le> k" "k < 8" | (hi) "8 \<le> k" by linarith
  then show ?case
  proof cases
    case lo
    then show ?thesis unfolding neon_mask_step by simp
  next
    case mid
    then have "k div 4 = 1" by simp
    with mid show ?thesis unfolding neon_mask_step by simp
  next
    case hi
    then obtain j where j: "k = j + 8" by (metis add.commute le_Suc_ex)
    then have "k div 4 = Suc (Suc (j div 4))" by simp
    with j ih show ?thesis unfolding neon_mask_step by auto
  qed
qed auto

section \<open>The vector builds find what the scalar build finds\<close>

lemma find_bound: "n \<le> m \<Longrightarrow> find (\<lambda>k. k < n \<and> R k) [0..<m] = find R [0..<n]"
proof -
  assume "n \<le> m"
  then have "[0..<m] = [0..<n] @ [n..<m]" by (metis le_add_diff_inverse upt_add_eq_append zero_le)
  moreover have "find (\<lambda>k. k < n \<and> R k) [n..<m] = None" by (auto simp: find_None_iff)
  moreover have "find (\<lambda>k. k < n \<and> R k) [0..<n] = find R [0..<n]" by (rule find_cong) auto
  ultimately show ?thesis by (simp add: find_append split: option.splits)
qed

lemma hit_lane:
  "i + n \<le> length data \<Longrightarrow> k < n \<Longrightarrow> hit data (i + k) \<longleftrightarrow> take n (drop i data) ! k = CR
     \<and> i + k + 3 < length data \<and> data ! (i + k + 1) = LF \<and> data ! (i + k + 2) = CR \<and> data ! (i + k + 3) = LF"
  by (auto simp: hit_def)

lemma mask_block:
  assumes "i + n \<le> length data" and "n \<le> 32"
  shows "mask_loop 0 data i (movemask (take n (drop i data))) = find (hit data) [i..<i + n]"
proof -
  have l: "length (take n (drop i data)) = n" using assms(1) by simp
  let ?Q = "\<lambda>k. k < n \<and> hit data (i + k)"
  have "mask_loop 0 data i (movemask (take n (drop i data))) = map_option ((+) i) (find ?Q [0..<32])"
    unfolding mask_loop_find set_bits_def find_map_filter movemask_bit l
    by (simp, rule arg_cong [where f = "map_option ((+) i)"], rule find_cong)
      (use hit_lane [OF assms(1)] in auto)
  then show ?thesis using assms(2) by (simp add: find_bound find_shift)
qed

lemma neon_block:
  assumes "i + 16 \<le> length data"
  shows "mask_loop 2 data i (neon_mask (take 16 (drop i data))) = find (hit data) [i..<i + 16]"
proof -
  have l: "length (take 16 (drop i data)) = 16" using assms(1) by simp
  then have b: "bit (neon_mask (take 16 (drop i data))) k \<longleftrightarrow> k div 4 < 16 \<and> k < 64 \<and> take 16 (drop i data) ! (k div 4) = CR" for k
    using neon_mask_bit [of "take 16 (drop i data)" k] by simp
  have "mask_loop 2 data i (neon_mask (take 16 (drop i data))) =
      map_option (\<lambda>k. i + k div 4) (find (\<lambda>k. hit data (i + k div 4)) [0..<64])"
    unfolding mask_loop_find set_bits_def find_map_filter b
    by (simp, rule arg_cong [where f = "map_option (\<lambda>k. i + k div 4)"], rule find_cong)
      (use hit_lane [OF assms(1)] in auto)
  also have "\<dots> = map_option ((+) i) (find (\<lambda>k. hit data (i + k)) (map (\<lambda>k. k div 4) [0..<4 * 16]))"
    by (simp add: find_map option.map_comp comp_def)
  finally show ?thesis unfolding find_nibbles by (simp add: find_shift)
qed

lemma find_blocks: "i + n \<le> m \<Longrightarrow> find P [i..<m] = (case find P [i..<i + n] of Some x \<Rightarrow> Some x | None \<Rightarrow> find P [i + n..<m])"
  by (metis find_append le_add_diff_inverse le_add1 upt_add_eq_append)

lemma avx2_scan_scalar: "avx2_scan data i = scalar_scan data i"
proof (induction data i rule: avx2_scan.induct)
  case (1 data i)
  then show ?case
    by (cases "i + 32 \<le> length data")
      (auto simp: avx2_scan.simps [of data i] mask_block scalar_scan_find find_blocks [of i 32] split: option.splits)
qed

lemma sse2_scan_scalar: "sse2_scan data i = scalar_scan data i"
proof (induction data i rule: sse2_scan.induct)
  case (1 data i)
  then show ?case
    by (cases "i + 16 \<le> length data")
      (auto simp: sse2_scan.simps [of data i] mask_block scalar_scan_find find_blocks [of i 16] split: option.splits)
qed

lemma block_without_CR:
  assumes "i + n \<le> length data" and "CR \<notin> set (take n (drop i data))"
  shows "find (hit data) [i..<i + n] = None"
proof -
  have "\<not> hit data x" if rg: "i \<le> x" "x < i + n" for x
  proof -
    obtain k where x: "x = i + k" and k: "k < n" using rg le_Suc_ex [OF rg(1)] by auto
    have "take n (drop i data) ! k \<in> set (take n (drop i data))" by (rule nth_mem) (use assms(1) k in simp)
    then have "take n (drop i data) ! k \<noteq> CR" using assms(2) by metis
    then show ?thesis using hit_lane [OF assms(1) k] x by simp
  qed
  then show ?thesis by (auto simp: find_None_iff)
qed

lemma neon_scan_scalar: "neon_scan data i = scalar_scan data i"
proof (induction data i rule: neon_scan.induct)
  case (1 data i)
  show ?case
  proof (cases "i + 16 \<le> length data")
    case True
    note sp = find_blocks [OF True, of "hit data"]
    show ?thesis
    proof (cases "CR \<in> set (take 16 (drop i data))")
      case cr: True
      show ?thesis
      proof (cases "find (hit data) [i..<i + 16]")
        case None
        with "1.IH"(2) True cr sp show ?thesis
          by (subst neon_scan.simps) (simp add: neon_block [OF True] scalar_scan_find)
      next
        case (Some off)
        with True cr sp show ?thesis
          by (subst neon_scan.simps) (simp add: neon_block [OF True] scalar_scan_find)
      qed
    next
      case False
      with "1.IH"(1) True sp block_without_CR [OF True False] show ?thesis
        by (subst neon_scan.simps) (simp add: scalar_scan_find)
    qed
  next
    case False
    then show ?thesis by (subst neon_scan.simps) simp
  qed
qed

lemma find_header_end_find: "find_header_end data = find (hit data) [0..<length data]"
proof (cases "length data < 4")
  case True
  then have "find (hit data) [0..<length data] = None" by (auto simp: find_None_iff hit_def)
  with True show ?thesis by (simp add: find_header_end_def)
qed (simp add: find_header_end_def scalar_scan_find)

section \<open>Properties\<close>

text \<open>C38: the AVX2, SSE2 and NEON builds of \<open>find_header_end\<close> return exactly what the scalar build returns,
  for every input.\<close>

theorem find_header_end_simd:
  "find_header_end_avx2 data = find_header_end data \<and> find_header_end_sse2 data = find_header_end data
   \<and> find_header_end_neon data = find_header_end data"
  by (simp add: find_header_end_avx2_def find_header_end_sse2_def find_header_end_neon_def find_header_end_def
      avx2_scan_scalar sse2_scan_scalar neon_scan_scalar)

end
