(* ===== verification/Http_Parser.thy ===== *)
theory Http_Parser
  imports Http_Request Http_Scan Frame_Codec
begin

text \<open>
  \<open>HttpParser\<close> of \<open>include/qbuem/http/parser.hpp\<close> and \<open>src/http/parser.cpp\<close>, and \<open>Http1Codec\<close> over it. The
  parser state is a record; \<open>parse\<close> returns the number of bytes consumed, or \<open>None\<close> on a hard error,
  with the new parser and request. Phase 1 is the byte-by-byte state machine over the request
  line and the headers, phase 2 the fixed-length or chunked body. \<open>pos\<close> and \<open>start\<close> are the loop
  variables of the code; a length computed by subtraction wraps at 64 bits as \<open>size_t\<close> does.
\<close>

section \<open>Model\<close>

datatype State =
  PMethod | PPath | PVersion | PHeaderKey | PHeaderValue | PBody | PChunkSize | PChunkData | PChunkDataEnd
  | PComplete | PError

record parser =
  p_state :: State
  headers_complete :: bool
  chunked :: bool
  current_header_key :: string
  body_length :: nat
  chunk_remaining :: nat
  chunk_body :: string
  error_status :: nat
  header_bytes :: nat

definition MAX_BODY_SIZE :: nat where
  "MAX_BODY_SIZE = 1 * 1024 * 1024"

definition MAX_HEADER_SIZE :: nat where
  "MAX_HEADER_SIZE = 8 * 1024"

definition HttpParser :: parser where
  "HttpParser =
     \<lparr> p_state = PMethod, headers_complete = False, chunked = False, current_header_key = [], body_length = 0,
       chunk_remaining = 0, chunk_body = [], error_status = 0, header_bytes = 0 \<rparr>"

definition fail :: "nat \<Rightarrow> parser \<Rightarrow> parser" where
  "fail st p = p\<lparr>error_status := st, p_state := PError\<rparr>"

definition substr :: "string \<Rightarrow> nat \<Rightarrow> nat \<Rightarrow> string" where
  "substr s start n = take n (drop start s)"

text \<open>\<open>std::from_chars\<close> into an \<open>unsigned long\<close>, with the requirement that it read the whole text.\<close>

definition is_digit :: "char \<Rightarrow> bool" where
  "is_digit c \<longleftrightarrow> code CHR ''0'' \<le> code c \<and> code c \<le> code CHR ''9''"

definition from_chars :: "string \<Rightarrow> nat option" where
  "from_chars cl =
     (let ds = takeWhile is_digit cl; n = foldl (\<lambda>a c. a * 10 + (code c - code CHR ''0'')) 0 ds in
      if ds = [] \<or> n \<ge> 2 ^ 64 \<or> length ds \<noteq> length cl then None else Some n)"

text \<open>The end of the header section: the smuggling guard and the choice of the body mode.\<close>

definition end_headers :: "nat \<Rightarrow> nat \<Rightarrow> parser \<Rightarrow> request \<Rightarrow> parser + nat \<times> parser" where
  "end_headers pos start p r =
     (let p = p\<lparr>headers_complete := True\<rparr>;
          te = header r ''Transfer-Encoding'';
          cl = header r ''Content-Length''
      in if te \<noteq> [] \<and> cl \<noteq> [] then Inl (fail 400 p)
         else if te = ''chunked'' then Inr (pos + 1, p\<lparr>chunked := True, p_state := PChunkSize\<rparr>)
         else if cl \<noteq> [] then
           (case from_chars cl of
              None \<Rightarrow> Inl (fail 400 p)
            | Some parsed \<Rightarrow>
                (let p = p\<lparr>body_length := parsed\<rparr> in
                 if parsed > MAX_BODY_SIZE then Inl (fail 413 p)
                 else Inr (pos + 1, p\<lparr>p_state := PBody\<rparr>)))
         else Inr (start, p\<lparr>p_state := PComplete\<rparr>))"

definition header_key_step ::
  "string \<Rightarrow> nat \<Rightarrow> nat \<Rightarrow> parser \<Rightarrow> request \<Rightarrow> parser \<times> request + nat \<times> nat \<times> parser \<times> request" where
  "header_key_step data pos start p r =
     (let c = data ! pos in
      if c = CHR '':'' then
        (let p = p\<lparr>current_header_key := substr data start (pos - start), p_state := PHeaderValue\<rparr> in
         if pos + 1 < length data \<and> data ! (pos + 1) = CHR '' '' then Inr (pos + 1, pos + 2, p, r)
         else Inr (pos, pos + 1, p, r))
      else if c = LF then
        (case end_headers pos start p r of Inl p \<Rightarrow> Inl (p, r) | Inr (start, p) \<Rightarrow> Inr (pos, start, p, r))
      else
        (let p = p\<lparr>header_bytes := header_bytes p + 1\<rparr> in
         if header_bytes p > MAX_HEADER_SIZE then Inl (fail 400 p, r) else Inr (pos, start, p, r)))"

definition header_value_step ::
  "string \<Rightarrow> nat \<Rightarrow> nat \<Rightarrow> parser \<Rightarrow> request \<Rightarrow> parser \<times> request + nat \<times> nat \<times> parser \<times> request" where
  "header_value_step data pos start p r =
     (if data ! pos = LF then
        (let v = substr data start ((pos + 2 ^ 64 - start - 1) mod 2 ^ 64) in
         if list_ex (\<lambda>ch. ch = CR \<or> ch = LF) v then Inl (fail 400 p, r)
         else
           (let p = p\<lparr>header_bytes := header_bytes p + (length (current_header_key p) + length v + 4)\<rparr> in
            if header_bytes p > MAX_HEADER_SIZE then Inl (fail 400 p, r)
            else Inr (pos, pos + 1, p\<lparr>p_state := PHeaderKey\<rparr>, add_header (current_header_key p) v r)))
      else Inr (pos, start, p, r))"

definition phase1_step ::
  "string \<Rightarrow> nat \<Rightarrow> nat \<Rightarrow> parser \<Rightarrow> request \<Rightarrow> parser \<times> request + nat \<times> nat \<times> parser \<times> request" where
  "phase1_step data pos start p r =
     (case p_state p of
        PMethod \<Rightarrow>
          (if data ! pos = CHR '' ''
           then Inr (pos, pos + 1, p\<lparr>p_state := PPath\<rparr>, set_method (string_to_method (substr data start (pos - start))) r)
           else Inr (pos, start, p, r))
      | PPath \<Rightarrow>
          (if data ! pos = CHR '' ''
           then Inr (pos, pos + 1, p\<lparr>p_state := PVersion\<rparr>, set_path (substr data start (pos - start)) r)
           else Inr (pos, start, p, r))
      | PVersion \<Rightarrow>
          (if data ! pos = LF then Inr (pos, pos + 1, p\<lparr>p_state := PHeaderKey\<rparr>, r) else Inr (pos, start, p, r))
      | PHeaderKey \<Rightarrow> header_key_step data pos start p r
      | PHeaderValue \<Rightarrow> header_value_step data pos start p r
      | _ \<Rightarrow> Inr (pos, start, p, r))"

definition in_phase1 :: "State \<Rightarrow> bool" where
  "in_phase1 st \<longleftrightarrow> st \<noteq> PBody \<and> st \<noteq> PChunkSize \<and> st \<noteq> PComplete \<and> st \<noteq> PError"

lemma phase1_step_pos: "phase1_step data pos start p r = Inr (pos', start', p', r') \<Longrightarrow> pos \<le> pos'"
  by (auto simp: phase1_step_def header_key_step_def header_value_step_def Let_def
      split: State.splits if_splits sum.splits prod.splits)

function phase1 ::
  "string \<Rightarrow> nat \<Rightarrow> nat \<Rightarrow> parser \<Rightarrow> request \<Rightarrow> parser \<times> request + nat \<times> nat \<times> parser \<times> request" where
  "phase1 data pos start p r =
     (if pos < length data \<and> in_phase1 (p_state p) then
        (case phase1_step data pos start p r of
           Inl e \<Rightarrow> Inl e
         | Inr (pos', start', p', r') \<Rightarrow> phase1 data (pos' + 1) start' p' r')
      else Inr (pos, start, p, r))"
  by pat_completeness auto
termination
  by (relation "measure (\<lambda>(data, pos, start, p, r). length data - pos)") (auto dest!: phase1_step_pos)

declare phase1.simps [simp del]

definition phase2_body :: "string \<Rightarrow> nat \<Rightarrow> parser \<Rightarrow> request \<Rightarrow> nat option \<times> parser \<times> request" where
  "phase2_body data body_start p r =
     (let avail = (if body_start < length data then length data - body_start else 0) in
      if avail < body_length p then (Some body_start, p, r)
      else (Some (body_start + body_length p), p\<lparr>p_state := PComplete\<rparr>,
            set_body (substr data body_start (body_length p)) r))"

definition find_crlf :: "string \<Rightarrow> nat \<Rightarrow> nat option" where
  "find_crlf data pos = map_option ((+) pos) (find_sub [CR, LF] (drop pos data))"

definition hex_digit :: "char \<Rightarrow> int" where
  "hex_digit c =
     (if code CHR ''0'' \<le> code c \<and> code c \<le> code CHR ''9'' then int (code c) - int (code CHR ''0'')
      else if code CHR ''a'' \<le> code c \<and> code c \<le> code CHR ''f'' then int (code c) - int (code CHR ''a'') + 10
      else if code CHR ''A'' \<le> code c \<and> code c \<le> code CHR ''F'' then int (code c) - int (code CHR ''A'') + 10
      else - 1)"

text \<open>The digit loop of a chunk-size line: the error status, or the size.\<close>

fun chunk_size :: "nat \<Rightarrow> string \<Rightarrow> nat + nat" where
  "chunk_size n [] = Inr n"
| "chunk_size n (hc # tok) =
     (let d = hex_digit hc in
      if d < 0 then Inl 400
      else let n' = n * 16 + nat d in if n' > MAX_BODY_SIZE then Inl 413 else chunk_size n' tok)"

definition chunk_size_step ::
  "string \<Rightarrow> nat \<Rightarrow> parser \<Rightarrow> request \<Rightarrow> (nat option \<times> parser \<times> request) + (nat \<times> parser)" where
  "chunk_size_step data pos p r =
     (case find_crlf data pos of
        None \<Rightarrow> Inl (Some pos, p, r)
      | Some eol \<Rightarrow>
          (let tok = substr data pos (eol - pos);
               size_tok = (case find_index (\<lambda>c. c = CHR '';'') tok of Some ext \<Rightarrow> take ext tok | None \<Rightarrow> tok)
           in case chunk_size 0 size_tok of
                Inl st \<Rightarrow> Inl (None, fail st p, r)
              | Inr n \<Rightarrow>
                  (let p = p\<lparr>chunk_remaining := n\<rparr>; pos = eol + 2 in
                   if n = 0 then
                     (case find_crlf data pos of
                        None \<Rightarrow> Inl (Some pos, p, r)
                      | Some trailer_end \<Rightarrow>
                          Inl (Some (trailer_end + 2), p\<lparr>p_state := PComplete\<rparr>, set_body (chunk_body p) r))
                   else if length (chunk_body p) + n > MAX_BODY_SIZE then Inl (None, fail 413 p, r)
                   else Inr (pos, p\<lparr>p_state := PChunkData\<rparr>))))"

definition chunk_data_step ::
  "string \<Rightarrow> nat \<Rightarrow> parser \<Rightarrow> request \<Rightarrow> (nat option \<times> parser \<times> request) + (nat \<times> parser)" where
  "chunk_data_step data pos p r =
     (let avail = (if pos < length data then length data - pos else 0) in
      if avail < chunk_remaining p then
        Inl (Some (pos + avail),
             p\<lparr>chunk_body := chunk_body p @ substr data pos avail, chunk_remaining := chunk_remaining p - avail\<rparr>, r)
      else
        Inr (pos + chunk_remaining p,
             p\<lparr>chunk_body := chunk_body p @ substr data pos (chunk_remaining p), chunk_remaining := 0,
               p_state := PChunkDataEnd\<rparr>))"

definition chunk_end_step ::
  "string \<Rightarrow> nat \<Rightarrow> parser \<Rightarrow> request \<Rightarrow> (nat option \<times> parser \<times> request) + (nat \<times> parser)" where
  "chunk_end_step data pos p r =
     (if pos + 2 > length data then Inl (Some pos, p, r)
      else if data ! pos \<noteq> CR \<or> data ! (pos + 1) \<noteq> LF then Inl (None, fail 400 p, r)
      else Inr (pos + 2, p\<lparr>p_state := PChunkSize\<rparr>))"

definition chunk_step ::
  "string \<Rightarrow> nat \<Rightarrow> parser \<Rightarrow> request \<Rightarrow> (nat option \<times> parser \<times> request) + (nat \<times> parser)" where
  "chunk_step data pos p r =
     (if p_state p = PChunkSize then chunk_size_step data pos p r
      else if p_state p = PChunkData then chunk_data_step data pos p r
      else chunk_end_step data pos p r)"

lemma find_sub_bound: "find_sub pat xs = Some i \<Longrightarrow> i + length pat \<le> length xs \<and> take (length pat) (drop i xs) = pat"
proof (induction xs arbitrary: i)
  case (Cons x xs)
  show ?case
  proof (cases "take (length pat) (x # xs) = pat")
    case True
    with Cons.prems have "i = 0" by simp
    moreover have "length pat \<le> length (x # xs)" using True by (metis length_take min.cobounded1 min_def)
    ultimately show ?thesis using True by simp
  next
    case False
    with Cons.prems obtain j where "find_sub pat xs = Some j" "i = Suc j" by auto
    with Cons.IH show ?thesis by simp
  qed
qed (simp split: if_splits)

lemma find_crlf_bound: "find_crlf data pos = Some eol \<Longrightarrow> pos \<le> eol \<and> eol + 2 \<le> length data"
  using find_sub_bound [of "[CR, LF]" "drop pos data"] by (fastforce simp: find_crlf_def)

definition chunk_rank :: "State \<Rightarrow> nat" where
  "chunk_rank st = (if st = PChunkData then 1 else 0)"

lemma chunk_step_rank:
  assumes "chunk_step data pos p r = Inr (pos', p')"
  shows "pos \<le> pos' \<and> 2 * (length data + 2 - pos') + chunk_rank (p_state p') < 2 * (length data + 2 - pos) + chunk_rank (p_state p)"
proof -
  consider "p_state p = PChunkSize" | "p_state p = PChunkData" | "p_state p \<noteq> PChunkSize" "p_state p \<noteq> PChunkData" by blast
  then show ?thesis
  proof cases
    case 1
    with assms obtain eol where "find_crlf data pos = Some eol" "pos' = eol + 2"
      by (auto simp: chunk_step_def chunk_size_step_def Let_def split: option.splits sum.splits if_splits)
    then show ?thesis using find_crlf_bound [of data pos eol] by (auto simp: chunk_rank_def)
  next
    case 2
    with assms show ?thesis
      by (auto simp: chunk_step_def chunk_data_step_def chunk_rank_def Let_def split: if_splits)
  next
    case 3
    with assms show ?thesis by (auto simp: chunk_step_def chunk_end_step_def chunk_rank_def split: if_splits)
  qed
qed

function chunk_loop :: "string \<Rightarrow> nat \<Rightarrow> parser \<Rightarrow> request \<Rightarrow> nat option \<times> parser \<times> request" where
  "chunk_loop data pos p r =
     (case chunk_step data pos p r of
        Inl out \<Rightarrow> out
      | Inr (pos', p') \<Rightarrow> chunk_loop data pos' p' r)"
  by pat_completeness auto
termination
  by (relation "measure (\<lambda>(data, pos, p, r). 2 * (length data + 2 - pos) + chunk_rank (p_state p))")
    (auto dest: chunk_step_rank)

declare chunk_loop.simps [simp del]

text \<open>Phase 2, from wherever phase 1 stopped.\<close>

definition phase2 :: "string \<Rightarrow> nat \<Rightarrow> nat \<Rightarrow> parser \<Rightarrow> request \<Rightarrow> nat option \<times> parser \<times> request" where
  "phase2 data pos start p r =
     (if p_state p = PError then (None, p, r)
      else if p_state p = PComplete then (Some pos, p, r)
      else if p_state p = PBody then phase2_body data start p r
      else if p_state p = PChunkSize \<or> p_state p = PChunkData \<or> p_state p = PChunkDataEnd
        then chunk_loop data pos p r
      else (Some pos, p, r))"

definition run_phases :: "string \<Rightarrow> parser \<Rightarrow> request \<Rightarrow> nat option \<times> parser \<times> request" where
  "run_phases data p r =
     (case phase1 data 0 0 p r of
        Inl (p', r') \<Rightarrow> (None, p', r')
      | Inr (pos, start, p', r') \<Rightarrow> phase2 data pos start p' r')"

definition parse :: "string \<Rightarrow> parser \<Rightarrow> request \<Rightarrow> nat option \<times> parser \<times> request" where
  "parse data p r =
     (if \<not> headers_complete p \<and> in_phase1 (p_state p) then
        (if find_header_end data = None then
           (let p = p\<lparr>header_bytes := header_bytes p + length data\<rparr> in
            if header_bytes p > MAX_HEADER_SIZE then (None, fail 400 p, r) else (Some (length data), p, r))
         else run_phases data (p\<lparr>header_bytes := 0\<rparr>) r)
      else run_phases data p r)"

definition is_complete :: "parser \<Rightarrow> bool" where
  "is_complete p \<longleftrightarrow> p_state p = PComplete"

text \<open>\<open>Http1Codec::decode\<close>: the status, the parser, the rest of the buffer and the request.\<close>

definition http1_decode :: "parser \<Rightarrow> request \<Rightarrow> string \<Rightarrow> DecodeStatus \<times> parser \<times> request \<times> string" where
  "http1_decode p out buf =
     (if buf = [] then (Incomplete, p, out, buf)
      else case parse buf p out of
        (None, p', out') \<Rightarrow> (Error, p', out', buf)
      | (Some consumed, p', out') \<Rightarrow>
          (if \<not> is_complete p' then (Incomplete, p', out', [])
           else (Complete, p', out', drop consumed buf)))"

definition http1_reset :: "parser \<Rightarrow> parser" where
  "http1_reset p = HttpParser"

end
