(* ===== verification/Http_Parser_Run.thy ===== *)
theory Http_Parser_Run
  imports Http_Parser
begin

text \<open>
  What the parser does on well-formed requests. The lemmas follow the state machine over one
  segment of the text at a time: the request line, one header line, all header lines, the blank
  line. From them: a rendered request is parsed back, body and all, with a fixed length or in
  chunks, and the parser consumes exactly that request, whatever follows it in the buffer.
\<close>

section \<open>Segments of phase 1\<close>

lemma phase1_go:
  "pos < length data \<Longrightarrow> in_phase1 (p_state p) \<Longrightarrow> phase1_step data pos start p r = Inr (pos', start', p', r') \<Longrightarrow>
     phase1 data pos start p r = phase1 data (pos' + 1) start' p' r'"
  by (subst phase1.simps) simp

lemma phase1_idle:
  assumes "in_phase1 (p_state p)" and "n + k \<le> length data"
    and "\<And>i. n \<le> i \<Longrightarrow> i < n + k \<Longrightarrow> phase1_step data i start p r = Inr (i, start, p, r)"
  shows "phase1 data n start p r = phase1 data (n + k) start p r"
  using assms
proof (induction k arbitrary: n)
  case (Suc k)
  have "phase1 data n start p r = phase1 data (n + 1) start p r"
    by (rule phase1_go) (use Suc.prems in auto)
  also have "\<dots> = phase1 data (n + 1 + k) start p r"
    by (rule Suc.IH) (use Suc.prems in auto)
  finally show ?case by simp
qed simp

lemma nth_segment: "n = length pre \<Longrightarrow> n \<le> i \<Longrightarrow> i < n + length seg \<Longrightarrow> (pre @ seg @ rest) ! i \<in> set seg"
  by (auto simp: nth_append)

lemma substr_segment: "n = length pre \<Longrightarrow> k = length seg \<Longrightarrow> substr (pre @ seg @ rest) n k = seg"
  by (simp add: substr_def)

lemma phase1_method:
  assumes "p_state p = PMethod" and "CHR '' '' \<notin> set m" and data: "data = pre @ m @ CHR '' '' # rest"
  shows "phase1 data (length pre) (length pre) p r =
    phase1 data (length pre + length m + 1) (length pre + length m + 1) (p\<lparr>p_state := PPath\<rparr>)
      (set_method (string_to_method m) r)"
proof -
  let ?n = "length pre"
  have "phase1 data ?n ?n p r = phase1 data (?n + length m) ?n p r"
  proof (rule phase1_idle)
    show "phase1_step data i ?n p r = Inr (i, ?n, p, r)" if "?n \<le> i" "i < ?n + length m" for i
      using nth_segment [OF refl that, of "CHR '' '' # rest"] assms by (auto simp: phase1_step_def)
  qed (use assms in \<open>auto simp: in_phase1_def\<close>)
  also have "\<dots> = phase1 data (?n + length m + 1) (?n + length m + 1) (p\<lparr>p_state := PPath\<rparr>)
      (set_method (string_to_method m) r)"
    by (rule phase1_go)
      (use assms substr_segment [of ?n pre "length m" m "CHR '' '' # rest"]
        in \<open>auto simp: phase1_step_def in_phase1_def nth_append\<close>)
  finally show ?thesis .
qed

lemma phase1_path:
  assumes "p_state p = PPath" and "CHR '' '' \<notin> set m" and data: "data = pre @ m @ CHR '' '' # rest"
  shows "phase1 data (length pre) (length pre) p r =
    phase1 data (length pre + length m + 1) (length pre + length m + 1) (p\<lparr>p_state := PVersion\<rparr>) (set_path m r)"
proof -
  let ?n = "length pre"
  have "phase1 data ?n ?n p r = phase1 data (?n + length m) ?n p r"
  proof (rule phase1_idle)
    show "phase1_step data i ?n p r = Inr (i, ?n, p, r)" if "?n \<le> i" "i < ?n + length m" for i
      using nth_segment [OF refl that, of "CHR '' '' # rest"] assms by (auto simp: phase1_step_def)
  qed (use assms in \<open>auto simp: in_phase1_def\<close>)
  also have "\<dots> = phase1 data (?n + length m + 1) (?n + length m + 1) (p\<lparr>p_state := PVersion\<rparr>) (set_path m r)"
    by (rule phase1_go)
      (use assms substr_segment [of ?n pre "length m" m "CHR '' '' # rest"]
        in \<open>auto simp: phase1_step_def in_phase1_def nth_append\<close>)
  finally show ?thesis .
qed

lemma phase1_version:
  assumes "p_state p = PVersion" and "LF \<notin> set m" and data: "data = pre @ m @ LF # rest"
  shows "phase1 data (length pre) s p r =
    phase1 data (length pre + length m + 1) (length pre + length m + 1) (p\<lparr>p_state := PHeaderKey\<rparr>) r"
proof -
  let ?n = "length pre"
  have "phase1 data ?n s p r = phase1 data (?n + length m) s p r"
  proof (rule phase1_idle)
    show "phase1_step data i s p r = Inr (i, s, p, r)" if "?n \<le> i" "i < ?n + length m" for i
      using nth_segment [OF refl that, of "LF # rest"] assms by (auto simp: phase1_step_def)
  qed (use assms in \<open>auto simp: in_phase1_def\<close>)
  also have "\<dots> = phase1 data (?n + length m + 1) (?n + length m + 1) (p\<lparr>p_state := PHeaderKey\<rparr>) r"
    by (rule phase1_go) (use assms in \<open>auto simp: phase1_step_def in_phase1_def nth_append\<close>)
  finally show ?thesis .
qed

text \<open>A header key: every byte is counted.\<close>

lemma phase1_key_bytes:
  assumes "p_state p = PHeaderKey" and "CHR '':'' \<notin> set k" "LF \<notin> set k" and data: "data = pre @ k @ rest"
    and "header_bytes p + length k \<le> MAX_HEADER_SIZE"
  shows "phase1 data (length pre) s p r =
    phase1 data (length pre + length k) s (p\<lparr>header_bytes := header_bytes p + length k\<rparr>) r"
  using assms
proof (induction k arbitrary: pre p)
  case (Cons c k)
  let ?p = "p\<lparr>header_bytes := header_bytes p + 1\<rparr>"
  have "phase1 data (length pre) s p r = phase1 data (length pre + 1) s ?p r"
    by (rule phase1_go) (use Cons.prems in \<open>auto simp: phase1_step_def header_key_step_def in_phase1_def\<close>)
  also have "\<dots> = phase1 data (length (pre @ [c])) s ?p r" by simp
  also have "\<dots> = phase1 data (length (pre @ [c]) + length k) s (?p\<lparr>header_bytes := header_bytes ?p + length k\<rparr>) r"
    by (rule Cons.IH) (use Cons.prems in auto)
  finally show ?case by simp
qed simp

lemma phase1_value:
  assumes "p_state p = PHeaderValue" and v: "CR \<notin> set v" "LF \<notin> set v"
    and data: "data = pre @ v @ CR # LF # rest" and small: "length data < 2 ^ 64"
    and hb: "header_bytes p + (length (current_header_key p) + length v + 4) \<le> MAX_HEADER_SIZE"
  shows "phase1 data (length pre) (length pre) p r =
    phase1 data (length pre + length v + 2) (length pre + length v + 2)
      (p\<lparr>p_state := PHeaderKey, header_bytes := header_bytes p + (length (current_header_key p) + length v + 4)\<rparr>)
      (add_header (current_header_key p) v r)"
proof -
  let ?n = "length pre" and ?e = "length pre + length v + 1"
  have lf: "data ! i \<noteq> LF" if i: "?n \<le> i" "i < ?n + (length v + 1)" for i
    using nth_segment [of ?n pre i "v @ [CR]" "LF # rest"] i v data by auto
  have "phase1 data ?n ?n p r = phase1 data (?n + (length v + 1)) ?n p r"
    by (rule phase1_idle) (use assms lf in \<open>auto simp: in_phase1_def phase1_step_def header_value_step_def\<close>)
  also have "\<dots> = phase1 data ?e ?n p r" by simp
  also have "\<dots> = phase1 data (?e + 1) (?e + 1)
      (p\<lparr>p_state := PHeaderKey, header_bytes := header_bytes p + (length (current_header_key p) + length v + 4)\<rparr>)
      (add_header (current_header_key p) v r)"
  proof (rule phase1_go)
    have "(?e + 2 ^ 64 - ?n - 1) mod 2 ^ 64 = length v" using small data by simp
    then have sub: "substr data ?n ((?e + 2 ^ 64 - ?n - 1) mod 2 ^ 64) = v" by (simp add: data substr_def)
    have "data ! ?e = LF" by (simp add: data nth_append)
    moreover have "\<not> list_ex (\<lambda>ch. ch = CR \<or> ch = LF) v" using v by (auto simp: list_ex_iff)
    ultimately show "phase1_step data ?e ?n p r = Inr (?e, ?e + 1,
        p\<lparr>p_state := PHeaderKey, header_bytes := header_bytes p + (length (current_header_key p) + length v + 4)\<rparr>,
        add_header (current_header_key p) v r)"
      using assms(1) hb unfolding phase1_step_def header_value_step_def sub by (simp add: sub Let_def)
  qed (use assms in \<open>auto simp: in_phase1_def\<close>)
  finally show ?thesis by simp
qed

definition header_line :: "string \<times> string \<Rightarrow> string" where
  "header_line kv = fst kv @ '': '' @ snd kv @ [CR, LF]"

text \<open>What a header line adds to the byte count: its key is counted twice.\<close>

definition header_cost :: "string \<times> string \<Rightarrow> nat" where
  "header_cost kv = 2 * length (fst kv) + length (snd kv) + 4"

definition clean_header :: "string \<times> string \<Rightarrow> bool" where
  "clean_header kv \<longleftrightarrow> CHR '':'' \<notin> set (fst kv) \<and> LF \<notin> set (fst kv) \<and> CR \<notin> set (snd kv) \<and> LF \<notin> set (snd kv)"

lemma phase1_header_line:
  assumes "p_state p = PHeaderKey" and cl: "clean_header (k, v)" and data: "data = pre @ header_line (k, v) @ rest"
    and small: "length data < 2 ^ 64" and hb: "header_bytes p + header_cost (k, v) \<le> MAX_HEADER_SIZE"
  shows "phase1 data (length pre) (length pre) p r =
    phase1 data (length (pre @ header_line (k, v))) (length (pre @ header_line (k, v)))
      (p\<lparr>current_header_key := k, header_bytes := header_bytes p + header_cost (k, v)\<rparr>) (add_header k v r)"
proof -
  let ?n = "length pre" and ?p1 = "p\<lparr>header_bytes := header_bytes p + length k\<rparr>"
  let ?p2 = "?p1\<lparr>current_header_key := k, p_state := PHeaderValue\<rparr>"
  have d: "data = pre @ k @ CHR '':'' # CHR '' '' # v @ CR # LF # rest" by (simp add: data header_line_def)
  have "phase1 data ?n ?n p r = phase1 data (?n + length k) ?n ?p1 r"
    by (rule phase1_key_bytes) (use assms in \<open>auto simp: d clean_header_def header_cost_def\<close>)
  also have "\<dots> = phase1 data (?n + length k + 1 + 1) (?n + length k + 2) ?p2 r"
  proof (rule phase1_go)
    have "data ! (?n + length k) = CHR '':''" "data ! (?n + length k + 1) = CHR '' ''"
      by (simp_all add: d nth_append)
    moreover have "substr data ?n (?n + length k - ?n) = k" by (simp add: d substr_def)
    ultimately show "phase1_step data (?n + length k) ?n ?p1 r = Inr (?n + length k + 1, ?n + length k + 2, ?p2, r)"
      using assms(1) by (simp add: phase1_step_def header_key_step_def d)
  qed (use assms(1) in \<open>auto simp: d in_phase1_def\<close>)
  also have "\<dots> = phase1 data (length (pre @ k @ '': '')) (length (pre @ k @ '': '')) ?p2 r" by simp
  also have "\<dots> = phase1 data (length (pre @ k @ '': '') + length v + 2) (length (pre @ k @ '': '') + length v + 2)
      (?p2\<lparr>p_state := PHeaderKey, header_bytes := header_bytes ?p2 + (length (current_header_key ?p2) + length v + 4)\<rparr>)
      (add_header (current_header_key ?p2) v r)"
    by (rule phase1_value) (use cl small hb in \<open>auto simp: d clean_header_def header_cost_def\<close>)
  finally show ?thesis using assms(1) by (cases p) (simp add: header_line_def header_cost_def add_ac)
qed

lemma phase1_headers:
  assumes "p_state p = PHeaderKey" and "\<forall>kv \<in> set hs. clean_header kv"
    and data: "data = pre @ concat (map header_line hs) @ rest" and "length data < 2 ^ 64"
    and "header_bytes p + sum_list (map header_cost hs) \<le> MAX_HEADER_SIZE"
  shows "\<exists>key. phase1 data (length pre) (length pre) p r =
    phase1 data (length (pre @ concat (map header_line hs))) (length (pre @ concat (map header_line hs)))
      (p\<lparr>current_header_key := key, header_bytes := header_bytes p + sum_list (map header_cost hs)\<rparr>)
      (fold (\<lambda>(k, v). add_header k v) hs r)"
  using assms
proof (induction hs arbitrary: pre p r)
  case Nil
  then show ?case by (intro exI [of _ "current_header_key p"]) simp
next
  case (Cons kv hs)
  obtain k v where kv: "kv = (k, v)" by (meson surj_pair)
  let ?p = "p\<lparr>current_header_key := k, header_bytes := header_bytes p + header_cost (k, v)\<rparr>"
  let ?pre = "pre @ header_line (k, v)"
  have "phase1 data (length pre) (length pre) p r = phase1 data (length ?pre) (length ?pre) ?p (add_header k v r)"
    by (rule phase1_header_line) (use Cons.prems kv in auto)
  moreover obtain key where "phase1 data (length ?pre) (length ?pre) ?p (add_header k v r) =
    phase1 data (length (?pre @ concat (map header_line hs))) (length (?pre @ concat (map header_line hs)))
      (?p\<lparr>current_header_key := key, header_bytes := header_bytes ?p + sum_list (map header_cost hs)\<rparr>)
      (fold (\<lambda>(k, v). add_header k v) hs (add_header k v r))"
    using Cons.IH [of ?p ?pre "add_header k v r"] Cons.prems kv by auto
  ultimately show ?case by (intro exI [of _ key]) (simp add: kv add_ac)
qed

section \<open>A whole request head\<close>

definition render_head :: "string \<Rightarrow> string \<Rightarrow> string \<Rightarrow> (string \<times> string) list \<Rightarrow> string" where
  "render_head m path version hs =
     m @ '' '' @ path @ '' '' @ version @ [CR, LF] @ concat (map header_line hs) @ [CR, LF]"

definition clean_head :: "string \<Rightarrow> string \<Rightarrow> string \<Rightarrow> (string \<times> string) list \<Rightarrow> bool" where
  "clean_head m path version hs \<longleftrightarrow>
     CHR '' '' \<notin> set m \<and> CHR '' '' \<notin> set path \<and> LF \<notin> set version \<and> (\<forall>kv \<in> set hs. clean_header kv)
     \<and> length hs \<le> kMaxInlineHeaders \<and> sum_list (map header_cost hs) + 1 \<le> MAX_HEADER_SIZE"

lemma fold_add_header:
  "length (headers_flat r) + length hs \<le> kMaxInlineHeaders \<Longrightarrow>
     fold (\<lambda>(k, v). add_header k v) hs r = r\<lparr>headers_flat := headers_flat r @ hs\<rparr>"
  by (induction hs arbitrary: r) (auto simp: add_header_def)

lemma find_header_end_head:
  assumes "data = render_head m path version hs @ rest"
  shows "find_header_end data \<noteq> None"
proof -
  define pre where "pre = m @ '' '' @ path @ '' '' @ version"
  obtain pre' where d: "data = pre' @ [CR, LF, CR, LF] @ rest"
  proof (cases hs rule: rev_cases)
    case Nil
    with that [of pre] show ?thesis by (simp add: assms render_head_def pre_def)
  next
    case (snoc hs' kv)
    with that [of "pre @ [CR, LF] @ concat (map header_line hs') @ fst kv @ '': '' @ snd kv"] show ?thesis
      by (simp add: assms render_head_def pre_def header_line_def)
  qed
  then have "hit data (length pre')" by (simp add: hit_def nth_append numeral_2_eq_2 numeral_3_eq_3)
  moreover have "length pre' \<in> set [0..<length data]" using d by simp
  ultimately show ?thesis unfolding find_header_end_find by (metis find_None_iff)
qed

definition request_line :: "string \<Rightarrow> string \<Rightarrow> string \<Rightarrow> string" where
  "request_line m path version = m @ '' '' @ path @ '' '' @ version @ [CR, LF]"

lemma phase1_request_line:
  assumes "CHR '' '' \<notin> set m" "CHR '' '' \<notin> set path" "LF \<notin> set version"
    and data: "data = request_line m path version @ rest"
  shows "phase1 data 0 0 HttpParser Request =
    phase1 data (length (request_line m path version)) (length (request_line m path version))
      (HttpParser\<lparr>p_state := PHeaderKey\<rparr>) (set_path path (set_method (string_to_method m) Request))"
proof -
  let ?p1 = "HttpParser\<lparr>p_state := PPath\<rparr>" and ?r1 = "set_method (string_to_method m) Request"
  let ?a = "m @ '' ''" and ?b = "m @ '' '' @ path @ '' ''"
  have d: "data = m @ CHR '' '' # path @ CHR '' '' # version @ CR # LF # rest"
    by (simp add: data request_line_def)
  have "phase1 data (length ([] :: string)) (length ([] :: string)) HttpParser Request =
      phase1 data (length ([] :: string) + length m + 1) (length ([] :: string) + length m + 1) ?p1 ?r1"
    by (rule phase1_method) (use assms d in \<open>auto simp: HttpParser_def\<close>)
  then have 1: "phase1 data 0 0 HttpParser Request = phase1 data (length ?a) (length ?a) ?p1 ?r1" by simp
  have "phase1 data (length ?a) (length ?a) ?p1 ?r1 =
      phase1 data (length ?a + length path + 1) (length ?a + length path + 1) (?p1\<lparr>p_state := PVersion\<rparr>) (set_path path ?r1)"
    by (rule phase1_path) (use assms d in auto)
  then have 2: "phase1 data (length ?a) (length ?a) ?p1 ?r1 =
      phase1 data (length ?b) (length ?b) (HttpParser\<lparr>p_state := PVersion\<rparr>) (set_path path ?r1)" by simp
  have "phase1 data (length ?b) (length ?b) (HttpParser\<lparr>p_state := PVersion\<rparr>) (set_path path ?r1) =
      phase1 data (length ?b + length (version @ [CR]) + 1) (length ?b + length (version @ [CR]) + 1)
        (HttpParser\<lparr>p_state := PVersion, p_state := PHeaderKey\<rparr>) (set_path path ?r1)"
    by (rule phase1_version) (use assms d in auto)
  with 1 2 show ?thesis by (simp add: request_line_def add_ac)
qed

text \<open>The blank line: one byte counted, then the guard.\<close>

lemma phase1_blank:
  assumes "p_state p = PHeaderKey" and data: "data = pre @ CR # LF # rest" and "header_bytes p + 1 \<le> MAX_HEADER_SIZE"
  shows "phase1 data (length pre) (length pre) p r =
    (case end_headers (length pre + 1) (length pre) (p\<lparr>header_bytes := header_bytes p + 1\<rparr>) r of
       Inl p' \<Rightarrow> Inl (p', r)
     | Inr (start, p') \<Rightarrow> phase1 data (length pre + 2) start p' r)"
proof -
  let ?p = "p\<lparr>header_bytes := header_bytes p + 1\<rparr>"
  have "phase1 data (length pre) (length pre) p r =
      phase1 data (length pre + length [CR]) (length pre) (p\<lparr>header_bytes := header_bytes p + length [CR]\<rparr>) r"
    by (rule phase1_key_bytes) (use assms in auto)
  also have "\<dots> = phase1 data (length pre + 1) (length pre) ?p r" by simp
  also have "\<dots> = (case end_headers (length pre + 1) (length pre) ?p r of
       Inl p' \<Rightarrow> Inl (p', r) | Inr (start, p') \<Rightarrow> phase1 data (length pre + 2) start p' r)"
    by (subst phase1.simps)
      (use assms(1) in \<open>simp add: data nth_append phase1_step_def header_key_step_def in_phase1_def split: sum.splits prod.splits\<close>)
  finally show ?thesis .
qed

text \<open>Phase 1 on a request head: what the guard at the blank line decides.\<close>

lemma phase1_head:
  assumes cl: "clean_head m path version hs" and data: "data = render_head m path version hs @ rest"
    and small: "length data < 2 ^ 64"
  defines "r \<equiv> (set_path path (set_method (string_to_method m) Request))\<lparr>headers_flat := hs\<rparr>"
    and "e \<equiv> length (render_head m path version hs)"
  shows "\<exists>p. p_state p = PHeaderKey \<and> chunk_body p = [] \<and>
    phase1 data 0 0 HttpParser Request =
      (case end_headers (e - 1) (e - 2) p r of
         Inl p' \<Rightarrow> Inl (p', r)
       | Inr (start, p') \<Rightarrow> phase1 data e start p' r)"
proof -
  let ?c = "request_line m path version" and ?h = "concat (map header_line hs)"
  let ?r0 = "set_path path (set_method (string_to_method m) Request)"
  let ?p0 = "HttpParser\<lparr>p_state := PHeaderKey\<rparr>"
  have d: "data = ?c @ ?h @ CR # LF # rest" by (simp add: data render_head_def request_line_def)
  have "headers_flat ?r0 = []" by (simp add: set_path_def set_method_def Request_def split: option.splits)
  then have r: "fold (\<lambda>(k, v). add_header k v) hs ?r0 = r"
    using cl by (simp add: fold_add_header clean_head_def r_def)
  have 1: "phase1 data 0 0 HttpParser Request = phase1 data (length ?c) (length ?c) ?p0 ?r0"
    by (rule phase1_request_line) (use cl d in \<open>auto simp: clean_head_def\<close>)
  obtain key where 2: "phase1 data (length ?c) (length ?c) ?p0 ?r0 =
      phase1 data (length (?c @ ?h)) (length (?c @ ?h))
        (?p0\<lparr>current_header_key := key, header_bytes := header_bytes ?p0 + sum_list (map header_cost hs)\<rparr>) r"
    using phase1_headers [of ?p0 hs data ?c "CR # LF # rest" ?r0] cl small d r
    by (auto simp: clean_head_def HttpParser_def)
  let ?p = "?p0\<lparr>current_header_key := key, header_bytes := header_bytes ?p0 + sum_list (map header_cost hs)\<rparr>"
  have 3: "phase1 data (length (?c @ ?h)) (length (?c @ ?h)) ?p r =
    (case end_headers (length (?c @ ?h) + 1) (length (?c @ ?h)) (?p\<lparr>header_bytes := header_bytes ?p + 1\<rparr>) r of
       Inl p' \<Rightarrow> Inl (p', r)
     | Inr (start, p') \<Rightarrow> phase1 data (length (?c @ ?h) + 2) start p' r)"
    by (rule phase1_blank) (use cl d in \<open>auto simp: clean_head_def HttpParser_def\<close>)
  have e: "e = length (?c @ ?h) + 2" by (simp add: e_def render_head_def request_line_def)
  have e2: "length (?c @ ?h) = e - 2" and e1: "e - 2 + 1 = e - 1" and e0: "e - 2 + 2 = e" using e by simp_all
  let ?q = "?p\<lparr>header_bytes := header_bytes ?p + 1\<rparr>"
  have "phase1 data 0 0 HttpParser Request = (case end_headers (e - 1) (e - 2) ?q r of
      Inl p' \<Rightarrow> Inl (p', r) | Inr (start, p') \<Rightarrow> phase1 data e start p' r)"
    unfolding 1 2 3 by (simp only: e2 e1 e0)
  moreover have "p_state ?q = PHeaderKey \<and> chunk_body ?q = []" by (simp add: HttpParser_def)
  ultimately show ?thesis by blast
qed

end
