(* ===== verification/Http_Parser_Spec.thy ===== *)
theory Http_Parser_Spec
  imports Http_Parser_Run
begin

text \<open>
  The contract of the HTTP parser: rendered requests are parsed back (fixed-length and chunked
  bodies, with anything following in the buffer), every parser reachable by any sequence of calls
  on any bytes keeps its limits and its guards, and what the codec does with an incomplete request.
\<close>

section \<open>Numbers in headers\<close>

text \<open>What a string of digits denotes, by a table of digits and their place values: a definition apart from the digit loops of
  the parser, which are compared with it.\<close>

definition digit_table :: "(char \<times> nat) list" where
  "digit_table = zip ''0123456789abcdef'' [0..<16] @ zip ''ABCDEF'' [10..<16]"

definition numeral_in :: "nat \<Rightarrow> string \<Rightarrow> bool" where
  "numeral_in b cs \<longleftrightarrow> (\<forall>c \<in> set cs. case map_of digit_table c of None \<Rightarrow> False | Some d \<Rightarrow> d < b)"

fun place_value :: "nat \<Rightarrow> string \<Rightarrow> nat" where
  "place_value b [] = 0"
| "place_value b (c # cs) = the (map_of digit_table c) * b ^ length cs + place_value b cs"

lemma digit_table_list: "digit_table =
  [(CHR ''0'', 0), (CHR ''1'', 1), (CHR ''2'', 2), (CHR ''3'', 3), (CHR ''4'', 4), (CHR ''5'', 5), (CHR ''6'', 6), (CHR ''7'', 7),
   (CHR ''8'', 8), (CHR ''9'', 9), (CHR ''a'', 10), (CHR ''b'', 11), (CHR ''c'', 12), (CHR ''d'', 13), (CHR ''e'', 14), (CHR ''f'', 15),
   (CHR ''A'', 10), (CHR ''B'', 11), (CHR ''C'', 12), (CHR ''D'', 13), (CHR ''E'', 14), (CHR ''F'', 15)]"
  by (simp add: digit_table_def upt_conv_Cons)

lemma hex_digit_table: "map_of digit_table c = Some d \<Longrightarrow> hex_digit c = int d"
  by (auto simp: digit_table_list hex_digit_def split: if_splits)

lemma decimal_digit: "map_of digit_table c = Some d \<Longrightarrow> d < 10 \<Longrightarrow> is_digit c \<and> code c - code CHR ''0'' = d"
  by (auto simp: digit_table_list is_digit_def split: if_splits)

lemma digit_decimal:
  assumes "is_digit c"
  shows "case map_of digit_table c of None \<Rightarrow> False | Some d \<Rightarrow> d < 10"
proof -
  have "code c \<in> code ` set ''0123456789''" using assms by (simp add: is_digit_def) arith
  then have "c \<in> set ''0123456789''" by (elim imageE) (simp only: of_char_eq_iff)
  moreover have "\<forall>c \<in> set ''0123456789''. case map_of digit_table c of None \<Rightarrow> False | Some d \<Rightarrow> d < 10"
    by (simp add: digit_table_list)
  ultimately show ?thesis by blast
qed

lemma numeral_digits: "numeral_in 10 cs \<longleftrightarrow> (\<forall>c \<in> set cs. is_digit c)"
  unfolding numeral_in_def
proof (rule ball_cong [OF refl])
  show "(case map_of digit_table c of None \<Rightarrow> False | Some d \<Rightarrow> d < 10) = is_digit c" for c
    using decimal_digit [of c] digit_decimal [of c] by (cases "map_of digit_table c") auto
qed

lemma decimal_fold:
  "numeral_in 10 cs \<Longrightarrow> foldl (\<lambda>a c. a * 10 + (code c - code CHR ''0'')) n cs = n * 10 ^ length cs + place_value 10 cs"
proof (induction cs arbitrary: n)
  case (Cons c cs)
  then obtain d where d: "map_of digit_table c = Some d" "d < 10" by (auto simp: numeral_in_def split: option.splits)
  then show ?case using Cons decimal_digit [OF d] by (simp add: numeral_in_def algebra_simps)
qed simp

lemma from_chars_value:
  "from_chars cl = (if cl = [] \<or> \<not> numeral_in 10 cl \<or> place_value 10 cl \<ge> 2 ^ 64 then None else Some (place_value 10 cl))"
proof (cases "numeral_in 10 cl")
  case True
  then have t: "takeWhile is_digit cl = cl" by (simp add: numeral_digits takeWhile_eq_all_conv)
  have f: "foldl (\<lambda>a c. a * 10 + (code c - code CHR ''0'')) 0 cl = place_value 10 cl" using decimal_fold [OF True, of 0] by simp
  show ?thesis unfolding from_chars_def Let_def t f using True by simp
next
  case False
  have "length (takeWhile is_digit cl) \<noteq> length cl"
    using False by (metis numeral_digits takeWhile_eq_take take_all_iff order_refl set_takeWhileD)
  then show ?thesis using False by (simp add: from_chars_def Let_def)
qed

text \<open>The body that the Content-Length of a header section announces: none without the header.\<close>

definition announces :: "(string \<times> string) list \<Rightarrow> string \<Rightarrow> bool" where
  "announces hs body \<longleftrightarrow>
     (let cl = flat_lookup hs ''Content-Length'' in
      if cl = [] then body = [] else numeral_in 10 cl \<and> place_value 10 cl = length body)"

lemma announces_chars:
  "announces hs body \<Longrightarrow> length body \<le> MAX_BODY_SIZE \<Longrightarrow>
     if flat_lookup hs ''Content-Length'' = [] then body = [] else from_chars (flat_lookup hs ''Content-Length'') = Some (length body)"
  by (auto simp: announces_def Let_def from_chars_value MAX_BODY_SIZE_def)

section \<open>Fixed-length bodies\<close>

lemma parse_fresh:
  assumes "find_header_end data \<noteq> None"
  shows "parse data HttpParser Request = run_phases data HttpParser Request"
proof -
  have "HttpParser\<lparr>header_bytes := 0\<rparr> = HttpParser" by (simp add: HttpParser_def)
  then show ?thesis using assms by (auto simp: parse_def HttpParser_def in_phase1_def)
qed

lemma phase1_stops: "\<not> in_phase1 (p_state p) \<Longrightarrow> phase1 data pos start p r = Inr (pos, start, p, r)"
  by (subst phase1.simps) simp

definition parsed_head :: "string \<Rightarrow> string \<Rightarrow> (string \<times> string) list \<Rightarrow> request" where
  "parsed_head m path hs = (set_path path (set_method (string_to_method m) Request))\<lparr>headers_flat := hs\<rparr>"

lemma run_head:
  assumes cl: "clean_head m path version hs" and data: "data = render_head m path version hs @ rest"
    and small: "length data < 2 ^ 64" and e: "e = length (render_head m path version hs)"
    and nx: "\<And>p. p_state p = PHeaderKey \<Longrightarrow> chunk_body p = [] \<Longrightarrow>
      \<exists>start p'. end_headers (e - 1) (e - 2) p (parsed_head m path hs) = Inr (start, p') \<and> \<not> in_phase1 (p_state p')
        \<and> Q (phase2 data e start p' (parsed_head m path hs))"
  shows "Q (parse data HttpParser Request)"
proof -
  obtain p where p: "p_state p = PHeaderKey" "chunk_body p = []"
    "phase1 data 0 0 HttpParser Request =
      (case end_headers (e - 1) (e - 2) p (parsed_head m path hs) of
         Inl p' \<Rightarrow> Inl (p', parsed_head m path hs)
       | Inr (start, p') \<Rightarrow> phase1 data e start p' (parsed_head m path hs))"
    using phase1_head [OF cl data small] unfolding e parsed_head_def by blast
  obtain start p' where q: "end_headers (e - 1) (e - 2) p (parsed_head m path hs) = Inr (start, p')"
    "\<not> in_phase1 (p_state p')" "Q (phase2 data e start p' (parsed_head m path hs))"
    using nx [OF p(1,2)] by blast
  then have "run_phases data HttpParser Request = phase2 data e start p' (parsed_head m path hs)"
    unfolding run_phases_def p(3) by (simp add: phase1_stops)
  with q(3) show ?thesis using parse_fresh [OF find_header_end_head [OF data]] by simp
qed

lemma head_nonempty: "2 \<le> length (render_head m path version hs)"
  by (simp add: render_head_def)

lemma header_parsed: "header (parsed_head m path hs) key = flat_lookup hs key"
  by (simp add: header_def parsed_head_def)

definition completes :: "string \<Rightarrow> nat \<Rightarrow> request \<Rightarrow> nat option \<times> parser \<times> request \<Rightarrow> bool" where
  "completes data n r out \<longleftrightarrow> (\<exists>p. out = (Some n, p, r) \<and> is_complete p)"

lemma fixed_completes:
  assumes cl: "clean_head m path version hs" and "flat_lookup hs ''Transfer-Encoding'' = []"
    and "announces hs body" and "length body \<le> MAX_BODY_SIZE"
    and data: "data = render_head m path version hs @ body @ rest" and small: "length data < 2 ^ 64"
  shows "completes data (length (render_head m path version hs) + length body) (set_body body (parsed_head m path hs))
    (parse data HttpParser Request)"
proof (rule run_head [OF cl data small refl])
  note an = announces_chars [OF assms(3,4)]
  fix p :: parser
  assume p: "p_state p = PHeaderKey"
  let ?e = "length (render_head m path version hs)" and ?r = "parsed_head m path hs"
  show "\<exists>start p'. end_headers (?e - 1) (?e - 2) p ?r = Inr (start, p') \<and> \<not> in_phase1 (p_state p')
      \<and> completes data (?e + length body) (set_body body ?r) (phase2 data ?e start p' ?r)"
  proof (cases "flat_lookup hs ''Content-Length'' = []")
    case True
    then have "end_headers (?e - 1) (?e - 2) p ?r = Inr (?e - 2, p\<lparr>headers_complete := True, p_state := PComplete\<rparr>)"
      using assms(2) by (simp add: end_headers_def header_parsed)
    moreover have "set_body [] ?r = ?r"
      by (simp add: set_body_def parsed_head_def set_path_def set_method_def Request_def split: option.splits)
    ultimately show ?thesis
      using True an by (simp add: in_phase1_def phase2_def completes_def is_complete_def)
  next
    case False
    let ?p = "p\<lparr>headers_complete := True, body_length := length body, p_state := PBody\<rparr>"
    have "end_headers (?e - 1) (?e - 2) p ?r = Inr (?e, ?p)"
      using False assms(2,4) an head_nonempty [of m path version hs] by (simp add: end_headers_def header_parsed)
    moreover have "phase2 data ?e ?e ?p ?r = (Some (?e + length body), ?p\<lparr>p_state := PComplete\<rparr>, set_body body ?r)"
      by (simp add: phase2_def phase2_body_def data substr_def)
    ultimately show ?thesis by (simp add: in_phase1_def completes_def is_complete_def)
  qed
qed

text \<open>C6: a request with a Content-Length body, or with no body, is parsed back: method, path, headers and
  body are those rendered, and the parser consumes exactly the request, whatever follows it.\<close>

theorem parse_fixed_body:
  assumes cl: "clean_head m path version hs" and "flat_lookup hs ''Transfer-Encoding'' = []"
    and "announces hs body" and "length body \<le> MAX_BODY_SIZE"
    and data: "data = render_head m path version hs @ body @ rest" and small: "length data < 2 ^ 64"
  shows "completes data (length (render_head m path version hs) + length body) (set_body body (parsed_head m path hs))
    (parse data HttpParser Request)"
  by (rule fixed_completes [OF assms])

theorem parse_fixed_body_witness:
  "completes (render_head ''POST'' ''/a?x=1'' ''HTTP/1.1'' [(''Content-Length'', ''2'')] @ ''hi'' @ ''GET'')
     (length (render_head ''POST'' ''/a?x=1'' ''HTTP/1.1'' [(''Content-Length'', ''2'')]) + length ''hi'')
     (set_body ''hi'' (parsed_head ''POST'' ''/a?x=1'' [(''Content-Length'', ''2'')]))
     (parse (render_head ''POST'' ''/a?x=1'' ''HTTP/1.1'' [(''Content-Length'', ''2'')] @ ''hi'' @ ''GET'') HttpParser Request)"
proof (rule parse_fixed_body [where rest = "''GET''" and body = "''hi''"])
  show "clean_head ''POST'' ''/a?x=1'' ''HTTP/1.1'' [(''Content-Length'', ''2'')]"
    by (simp add: clean_head_def clean_header_def header_cost_def kMaxInlineHeaders_def MAX_HEADER_SIZE_def)
  show "announces [(''Content-Length'', ''2'')] ''hi''"
    by (simp add: announces_def numeral_in_def digit_table_list)
  show "length (render_head ''POST'' ''/a?x=1'' ''HTTP/1.1'' [(''Content-Length'', ''2'')] @ ''hi'' @ ''GET'') < 2 ^ 64"
    by (rule less_trans [of _ 100]) (simp_all add: render_head_def header_line_def)
qed (simp_all add: MAX_BODY_SIZE_def)

section \<open>Chunked bodies\<close>

lemma size_token:
  "(case find_index (\<lambda>c. c = CHR '';'') tok of Some ext \<Rightarrow> take ext tok | None \<Rightarrow> tok) = takeWhile (\<lambda>c. c \<noteq> CHR '';'') tok"
proof (induction tok)
  case (Cons c tok)
  then show ?case by (cases "find_index (\<lambda>c. c = CHR '';'') tok") (simp_all del: find_index_None)
qed simp

lemma find_sub_crlf: "CR \<notin> set line \<Longrightarrow> find_sub [CR, LF] (line @ CR # LF # rest) = Some (length line)"
proof (induction line)
  case (Cons c line)
  then have "take (length [CR, LF]) ((c # line) @ CR # LF # rest) \<noteq> [CR, LF]" by auto
  with Cons show ?case by auto
qed simp

lemma find_crlf_line: "CR \<notin> set line \<Longrightarrow> find_crlf (pre @ line @ CR # LF # rest) (length pre) = Some (length pre + length line)"
  by (simp add: find_crlf_def find_sub_crlf)

definition chunk_text :: "string \<times> string \<Rightarrow> string" where
  "chunk_text c = fst c @ [CR, LF] @ snd c @ [CR, LF]"

text \<open>A chunk is its size line, hexadecimal digits and perhaps an extension, and its data.\<close>

definition chunk_ok :: "string \<times> string \<Rightarrow> bool" where
  "chunk_ok c \<longleftrightarrow>
     CR \<notin> set (fst c)
     \<and> numeral_in 16 (takeWhile (\<lambda>x. x \<noteq> CHR '';'') (fst c))
     \<and> place_value 16 (takeWhile (\<lambda>x. x \<noteq> CHR '';'') (fst c)) = length (snd c) \<and> snd c \<noteq> []"

lemma chunk_size_value:
  "numeral_in 16 tok \<Longrightarrow> n * 16 ^ length tok + place_value 16 tok \<le> MAX_BODY_SIZE \<Longrightarrow>
     chunk_size n tok = Inr (n * 16 ^ length tok + place_value 16 tok)"
proof (induction tok arbitrary: n)
  case (Cons c tok)
  let ?d = "the (map_of digit_table c)"
  have d: "hex_digit c = int ?d" using Cons.prems(1) hex_digit_table [of c] by (auto simp: numeral_in_def split: option.splits)
  have e: "n * 16 ^ length (c # tok) + place_value 16 (c # tok) = (n * 16 + ?d) * 16 ^ length tok + place_value 16 tok"
    by (simp add: algebra_simps)
  have "n * 16 + ?d \<le> (n * 16 + ?d) * 16 ^ length tok" by simp
  then have "n * 16 + ?d \<le> MAX_BODY_SIZE" using Cons.prems(2) e by linarith
  then show ?case using Cons.IH [of "n * 16 + ?d"] Cons.prems e d by (simp add: numeral_in_def)
qed simp

lemma chunk_ok_size:
  "chunk_ok c \<Longrightarrow> length (snd c) \<le> MAX_BODY_SIZE \<Longrightarrow> chunk_size 0 (takeWhile (\<lambda>x. x \<noteq> CHR '';'') (fst c)) = Inr (length (snd c))"
  using chunk_size_value [of "takeWhile (\<lambda>x. x \<noteq> CHR '';'') (fst c)" 0] by (simp add: chunk_ok_def)

lemma chunk_run:
  assumes "p_state p = PChunkSize" and ok: "chunk_ok c" and data: "data = pre @ chunk_text c @ rest"
    and fits: "length (chunk_body p) + length (snd c) \<le> MAX_BODY_SIZE"
  shows "\<exists>p'. chunk_loop data (length pre) p r = chunk_loop data (length (pre @ chunk_text c)) p' r
    \<and> p_state p' = PChunkSize \<and> chunk_body p' = chunk_body p @ snd c"
proof -
  obtain line d where c: "c = (line, d)" by (meson surj_pair)
  let ?n = "length pre" and ?m = "length pre + length line + 2"
  let ?p1 = "p\<lparr>chunk_remaining := length d, p_state := PChunkData\<rparr>"
  let ?p2 = "?p1\<lparr>chunk_body := chunk_body p @ d, chunk_remaining := 0, p_state := PChunkDataEnd\<rparr>"
  have dt: "data = pre @ line @ CR # LF # d @ CR # LF # rest" by (simp add: data c chunk_text_def)
  have f: "find_crlf data ?n = Some (?n + length line)"
    unfolding dt by (rule find_crlf_line) (use ok c in \<open>simp add: chunk_ok_def\<close>)
  have tok: "substr data ?n (?n + length line - ?n) = line" by (simp add: dt substr_def)
  have "chunk_step data ?n p r = Inr (?m, ?p1)"
    using assms(1) ok fits f tok c chunk_ok_size [OF ok]
    by (simp add: chunk_step_def chunk_size_step_def size_token chunk_ok_def Let_def)
  then have 1: "chunk_loop data ?n p r = chunk_loop data ?m ?p1 r" by (subst chunk_loop.simps) simp
  have "chunk_step data ?m ?p1 r = Inr (?m + length d, ?p2)"
    by (simp add: chunk_step_def chunk_data_step_def dt substr_def)
  then have 2: "chunk_loop data ?m ?p1 r = chunk_loop data (?m + length d) ?p2 r" by (subst chunk_loop.simps) simp
  have "data ! (?m + length d) = CR" "data ! (?m + length d + 1) = LF" "?m + length d + 2 \<le> length data"
    by (simp_all add: dt nth_append)
  then have "chunk_step data (?m + length d) ?p2 r = Inr (?m + length d + 2, ?p2\<lparr>p_state := PChunkSize\<rparr>)"
    by (simp add: chunk_step_def chunk_end_step_def)
  then have 3: "chunk_loop data (?m + length d) ?p2 r =
      chunk_loop data (length (pre @ chunk_text c)) (?p2\<lparr>p_state := PChunkSize\<rparr>) r"
    by (subst chunk_loop.simps) (simp add: c chunk_text_def add_ac)
  show ?thesis
    by (rule exI [of _ "?p2\<lparr>p_state := PChunkSize\<rparr>"]) (use 1 2 3 c in simp)
qed

lemma chunks_run:
  assumes "p_state p = PChunkSize" and "\<forall>c \<in> set cs. chunk_ok c"
    and "data = pre @ concat (map chunk_text cs) @ rest"
    and "length (chunk_body p) + length (concat (map snd cs)) \<le> MAX_BODY_SIZE"
  shows "\<exists>p'. chunk_loop data (length pre) p r = chunk_loop data (length (pre @ concat (map chunk_text cs))) p' r
    \<and> p_state p' = PChunkSize \<and> chunk_body p' = chunk_body p @ concat (map snd cs)"
  using assms
proof (induction cs arbitrary: p pre)
  case (Cons c cs)
  obtain p1 where p1: "chunk_loop data (length pre) p r = chunk_loop data (length (pre @ chunk_text c)) p1 r"
    "p_state p1 = PChunkSize" "chunk_body p1 = chunk_body p @ snd c"
    using chunk_run [of p c data pre "concat (map chunk_text cs) @ rest" r] Cons.prems by auto
  obtain p2 where "chunk_loop data (length (pre @ chunk_text c)) p1 r =
      chunk_loop data (length ((pre @ chunk_text c) @ concat (map chunk_text cs))) p2 r"
    "p_state p2 = PChunkSize" "chunk_body p2 = chunk_body p1 @ concat (map snd cs)"
    using Cons.IH [of p1 "pre @ chunk_text c"] Cons.prems p1(2,3) by auto
  with p1 show ?case by (intro exI [of _ p2]) simp
qed auto

lemma last_chunk:
  assumes "p_state p = PChunkSize" and "CR \<notin> set line"
    and "chunk_size 0 (takeWhile (\<lambda>x. x \<noteq> CHR '';'') line) = Inr 0"
    and data: "data = pre @ line @ [CR, LF, CR, LF] @ rest"
  shows "completes data (length pre + length line + 4) (set_body (chunk_body p) r) (chunk_loop data (length pre) p r)"
proof -
  let ?n = "length pre" and ?m = "length pre + length line + 2"
  have "find_crlf data ?n = Some (?n + length line)"
    using find_crlf_line [OF assms(2), of pre "CR # LF # rest"] by (simp add: data)
  moreover have "find_crlf data ?m = Some ?m"
    using find_crlf_line [of "[]" "pre @ line @ [CR, LF]" rest] by (simp add: data)
  moreover have "substr data ?n (?n + length line - ?n) = line" by (simp add: data substr_def)
  ultimately have "chunk_step data ?n p r =
      Inl (Some (?m + 2), p\<lparr>chunk_remaining := 0, p_state := PComplete\<rparr>, set_body (chunk_body p) r)"
    using assms(1,3) by (simp add: chunk_step_def chunk_size_step_def size_token)
  then have "chunk_loop data ?n p r =
      (Some (?m + 2), p\<lparr>chunk_remaining := 0, p_state := PComplete\<rparr>, set_body (chunk_body p) r)"
    by (subst chunk_loop.simps) simp
  then show ?thesis by (simp add: completes_def is_complete_def)
qed

text \<open>C7: a chunked request is parsed back for every division of the body into chunks: the body is the
  concatenation of the chunk data, and the parser consumes exactly the request. The sizes are hexadecimal numbers of either
  case, with leading zeros or not, and may carry extensions; no trailers follow.\<close>

theorem parse_chunked_body:
  assumes cl: "clean_head m path version hs" and "flat_lookup hs ''Transfer-Encoding'' = ''chunked''"
    and "flat_lookup hs ''Content-Length'' = []" and "\<forall>c \<in> set cs. chunk_ok c"
    and "length (concat (map snd cs)) \<le> MAX_BODY_SIZE"
    and ct: "coded = concat (map chunk_text cs) @ ''0'' @ [CR, LF, CR, LF]"
    and data: "data = render_head m path version hs @ coded @ rest" and small: "length data < 2 ^ 64"
  shows "completes data (length (render_head m path version hs) + length coded)
    (set_body (concat (map snd cs)) (parsed_head m path hs)) (parse data HttpParser Request)"
proof (rule run_head [OF cl data small refl])
  fix p :: parser
  assume p: "p_state p = PHeaderKey" "chunk_body p = []"
  let ?h = "render_head m path version hs" and ?r = "parsed_head m path hs"
  let ?p = "p\<lparr>headers_complete := True, chunked := True, p_state := PChunkSize\<rparr>"
  have eh: "end_headers (length ?h - 1) (length ?h - 2) p ?r = Inr (length ?h, ?p)"
    using assms(2,3) head_nonempty [of m path version hs] by (simp add: end_headers_def header_parsed)
  obtain p' where p': "chunk_loop data (length ?h) ?p ?r = chunk_loop data (length (?h @ concat (map chunk_text cs))) p' ?r"
    "p_state p' = PChunkSize" "chunk_body p' = concat (map snd cs)"
    using chunks_run [of ?p cs data ?h "''0'' @ [CR, LF, CR, LF] @ rest" ?r] assms(4,5) data ct p by auto
  have "completes data (length (?h @ concat (map chunk_text cs)) + length ''0'' + 4) (set_body (chunk_body p') ?r)
      (chunk_loop data (length (?h @ concat (map chunk_text cs))) p' ?r)"
    by (rule last_chunk) (use p'(2) data ct in \<open>auto simp: hex_digit_def MAX_BODY_SIZE_def\<close>)
  then have "completes data (length ?h + length coded) (set_body (concat (map snd cs)) ?r) (phase2 data (length ?h) (length ?h) ?p ?r)"
    using p' by (simp add: phase2_def ct eval_nat_numeral)
  with eh show "\<exists>start p'. end_headers (length ?h - 1) (length ?h - 2) p ?r = Inr (start, p') \<and> \<not> in_phase1 (p_state p')
      \<and> completes data (length ?h + length coded) (set_body (concat (map snd cs)) ?r) (phase2 data (length ?h) start p' ?r)"
    by (intro exI [of _ "length ?h"] exI [of _ ?p]) (simp add: in_phase1_def)
qed

theorem parse_chunked_body_witness:
  "completes (render_head ''PUT'' ''/'' ''HTTP/1.1'' [(''Transfer-Encoding'', ''chunked'')]
       @ (concat (map chunk_text [(''2;x'', ''ab''), (''1'', ''c'')]) @ ''0'' @ [CR, LF, CR, LF]) @ ''rest'')
     (length (render_head ''PUT'' ''/'' ''HTTP/1.1'' [(''Transfer-Encoding'', ''chunked'')])
       + length (concat (map chunk_text [(''2;x'', ''ab''), (''1'', ''c'')]) @ ''0'' @ [CR, LF, CR, LF]))
     (set_body (concat (map snd [(''2;x'', ''ab''), (''1'', ''c'')]))
       (parsed_head ''PUT'' ''/'' [(''Transfer-Encoding'', ''chunked'')]))
     (parse (render_head ''PUT'' ''/'' ''HTTP/1.1'' [(''Transfer-Encoding'', ''chunked'')]
       @ (concat (map chunk_text [(''2;x'', ''ab''), (''1'', ''c'')]) @ ''0'' @ [CR, LF, CR, LF]) @ ''rest'') HttpParser Request)"
proof (rule parse_chunked_body [where rest = "''rest''"])
  show "clean_head ''PUT'' ''/'' ''HTTP/1.1'' [(''Transfer-Encoding'', ''chunked'')]"
    by (simp add: clean_head_def clean_header_def header_cost_def kMaxInlineHeaders_def MAX_HEADER_SIZE_def)
  show "\<forall>c \<in> set [(''2;x'', ''ab''), (''1'', ''c'')]. chunk_ok c"
    by (simp add: chunk_ok_def numeral_in_def digit_table_list)
  show "length (render_head ''PUT'' ''/'' ''HTTP/1.1'' [(''Transfer-Encoding'', ''chunked'')]
       @ (concat (map chunk_text [(''2;x'', ''ab''), (''1'', ''c'')]) @ ''0'' @ [CR, LF, CR, LF]) @ ''rest'') < 2 ^ 64"
    by (rule less_trans [of _ 200]) (simp_all add: render_head_def header_line_def chunk_text_def)
qed (simp_all add: MAX_BODY_SIZE_def)

section \<open>Parsers after any sequence of calls\<close>

inductive parser_reach :: "parser \<Rightarrow> request \<Rightarrow> bool" where
  init: "parser_reach HttpParser Request"
| parse: "parser_reach p r \<Longrightarrow> parse data p r = (out, p', r') \<Longrightarrow> parser_reach p' r'"

text \<open>The invariant: stored values are single lines, the arrays are not exceeded, no body is above
  the limit, and a request with both a length and a transfer coding has been refused.\<close>

definition limits_ok :: "parser \<Rightarrow> request \<Rightarrow> bool" where
  "limits_ok p r \<longleftrightarrow>
     length (headers_flat r) \<le> kMaxInlineHeaders
     \<and> (\<forall>(k, v) \<in> set (headers_flat r). CR \<notin> set v \<and> LF \<notin> set v)
     \<and> length (rq_body r) \<le> MAX_BODY_SIZE
     \<and> length (chunk_body p) + (if p_state p = PChunkData then chunk_remaining p else 0) \<le> MAX_BODY_SIZE
     \<and> (p_state p = PBody \<longrightarrow> body_length p \<le> MAX_BODY_SIZE)"

definition guard_ok :: "parser \<Rightarrow> request \<Rightarrow> bool" where
  "guard_ok p r \<longleftrightarrow>
     (p_state p \<in> {PBody, PChunkSize, PChunkData, PChunkDataEnd, PComplete} \<longrightarrow>
        header r ''Transfer-Encoding'' = [] \<or> header r ''Content-Length'' = [])"

definition parser_inv :: "parser \<Rightarrow> request \<Rightarrow> bool" where
  "parser_inv p r \<longleftrightarrow> limits_ok p r \<and> guard_ok p r"

lemmas inv_defs = parser_inv_def limits_ok_def guard_ok_def

lemma add_header_inv:
  "parser_inv p r \<Longrightarrow> CR \<notin> set v \<Longrightarrow> LF \<notin> set v \<Longrightarrow> limits_ok p (add_header k v r)"
  by (auto simp: inv_defs add_header_def)

lemma setters_frame [simp]:
  "headers_flat (set_method x r) = headers_flat r" "rq_body (set_method x r) = rq_body r"
  "headers_flat (set_path y r) = headers_flat r" "rq_body (set_path y r) = rq_body r"
  "headers_flat (set_body z r) = headers_flat r" "rq_body (set_body z r) = z"
  by (auto simp: set_method_def set_path_def set_body_def split: option.splits)

lemma end_headers_inv:
  assumes "parser_inv p r" "p_state p = PHeaderKey"
  shows "case end_headers pos start p r of Inl p' \<Rightarrow> parser_inv p' r | Inr (start', p') \<Rightarrow> parser_inv p' r"
  using assms by (auto simp: end_headers_def fail_def inv_defs Let_def split: option.splits)

lemma phase1_step_inv:
  assumes inv: "parser_inv p r"
  shows "case phase1_step data pos start p r of
      Inl (p', r') \<Rightarrow> parser_inv p' r' | Inr (pos', start', p', r') \<Rightarrow> parser_inv p' r'"
proof (cases "p_state p")
  case PHeaderKey
  show ?thesis
    using inv end_headers_inv [OF inv PHeaderKey, of pos start] PHeaderKey
    by (auto simp: phase1_step_def header_key_step_def Let_def fail_def inv_defs split: sum.splits prod.splits if_splits)
next
  case PHeaderValue
  then show ?thesis
    using inv by (auto simp: phase1_step_def header_value_step_def Let_def fail_def inv_defs list_ex_iff add_header_def
        split: if_splits)
qed (use inv in \<open>auto simp: phase1_step_def inv_defs header_def\<close>)

lemma phase1_inv:
  "parser_inv p r \<Longrightarrow> case phase1 data pos start p r of
      Inl (p', r') \<Rightarrow> parser_inv p' r' | Inr (pos', start', p', r') \<Rightarrow> parser_inv p' r'"
proof (induction data pos start p r rule: phase1.induct)
  case (1 data pos start p r)
  show ?case
  proof (cases "pos < length data \<and> in_phase1 (p_state p)")
    case True
    note st = phase1_step_inv [OF "1.prems", of data pos start]
    show ?thesis
    proof (cases "phase1_step data pos start p r")
      case (Inl e)
      then show ?thesis using st True by (subst phase1.simps) simp
    next
      case (Inr x)
      obtain pos' start' p' r' where x: "x = (pos', start', p', r')" by (meson prod_cases4)
      have "parser_inv p' r'" using st Inr x by simp
      from "1.IH" [OF True _ _ _ _ this] Inr x True show ?thesis by (subst phase1.simps) simp
    qed
  next
    case False
    then show ?thesis using "1.prems" by (subst phase1.simps) auto
  qed
qed

lemma chunk_size_bound: "chunk_size n tok = Inr k \<Longrightarrow> n \<le> MAX_BODY_SIZE \<Longrightarrow> k \<le> MAX_BODY_SIZE"
  by (induction n tok rule: chunk_size.induct) (auto simp: Let_def split: if_splits)

definition in_chunks :: "State \<Rightarrow> bool" where
  "in_chunks st \<longleftrightarrow> st = PChunkSize \<or> st = PChunkData \<or> st = PChunkDataEnd"

lemma chunk_size_step_inv:
  assumes inv: "parser_inv p r" and st: "p_state p = PChunkSize"
  shows "case chunk_size_step data pos p r of
      Inl (out, p', r') \<Rightarrow> parser_inv p' r' | Inr (pos', p') \<Rightarrow> parser_inv p' r \<and> in_chunks (p_state p')"
proof (cases "find_crlf data pos")
  case None
  then show ?thesis using inv by (simp add: chunk_size_step_def)
next
  case (Some eol)
  define tok where "tok = takeWhile (\<lambda>c. c \<noteq> CHR '';'') (substr data pos (eol - pos))"
  note step = chunk_size_step_def Some size_token tok_def [symmetric] Let_def
  show ?thesis
  proof (cases "chunk_size 0 tok")
    case (Inl e)
    then show ?thesis using inv by (simp add: step fail_def inv_defs)
  next
    case n: (Inr n)
    show ?thesis
    proof (cases "n = 0")
      case True
      then show ?thesis using inv st n
        by (cases "find_crlf data (eol + 2)") (simp_all add: step inv_defs header_def)
    next
      case False
      then show ?thesis using inv st n by (simp add: step inv_defs fail_def in_chunks_def)
    qed
  qed
qed

lemma chunk_step_inv:
  assumes inv: "parser_inv p r" and st: "in_chunks (p_state p)"
  shows "case chunk_step data pos p r of
      Inl (out, p', r') \<Rightarrow> parser_inv p' r' | Inr (pos', p') \<Rightarrow> parser_inv p' r \<and> in_chunks (p_state p')"
proof -
  consider "p_state p = PChunkSize" | "p_state p = PChunkData" | "p_state p = PChunkDataEnd"
    using st by (auto simp: in_chunks_def)
  then show ?thesis
  proof cases
    case 1
    then show ?thesis using chunk_size_step_inv [OF inv 1] by (simp add: chunk_step_def)
  next
    case 2
    then show ?thesis using inv
      by (cases "(if pos < length data then length data - pos else 0) < chunk_remaining p")
        (auto simp: chunk_step_def chunk_data_step_def Let_def inv_defs substr_def in_chunks_def
          intro: order_trans [OF add_left_mono [OF min.cobounded2]])
  next
    case 3
    then show ?thesis using inv by (simp add: chunk_step_def chunk_end_step_def fail_def inv_defs in_chunks_def)
  qed
qed

lemma chunk_loop_inv:
  "parser_inv p r \<Longrightarrow> in_chunks (p_state p) \<Longrightarrow>
     chunk_loop data pos p r = (out, p', r') \<Longrightarrow> parser_inv p' r'"
proof (induction data pos p r rule: chunk_loop.induct)
  case (1 data pos p r)
  note st = chunk_step_inv [OF "1.prems"(1,2), of data pos]
  show ?case
  proof (cases "chunk_step data pos p r")
    case (Inl x)
    then have "x = (out, p', r')" using "1.prems"(3) by (simp add: chunk_loop.simps [of data pos p r])
    with st Inl show ?thesis by simp
  next
    case (Inr y)
    obtain pos1 p1 where y: "y = (pos1, p1)" by (meson surj_pair)
    have "chunk_loop data pos1 p1 r = (out, p', r')"
      using "1.prems"(3) Inr y by (simp add: chunk_loop.simps [of data pos p r])
    with "1.IH" [OF Inr y [symmetric]] st Inr y show ?thesis by simp
  qed
qed

lemma phase2_inv:
  assumes "parser_inv p r" and "phase2 data pos start p r = (out, p', r')"
  shows "parser_inv p' r'"
proof -
  consider "p_state p = PBody" | "in_chunks (p_state p)" | "p_state p \<noteq> PBody" "\<not> in_chunks (p_state p)" by blast
  then show ?thesis
  proof cases
    case 1
    then show ?thesis using assms
      by (auto simp: phase2_def phase2_body_def Let_def inv_defs substr_def header_def split: if_splits)
  next
    case 2
    then show ?thesis using assms chunk_loop_inv [of p r data pos out p' r'] by (auto simp: phase2_def in_chunks_def)
  next
    case 3
    then show ?thesis using assms by (auto simp: phase2_def in_chunks_def split: if_splits)
  qed
qed

lemma run_phases_inv:
  assumes "parser_inv p r" and "run_phases data p r = (out, p', r')"
  shows "parser_inv p' r'"
  using phase1_inv [OF assms(1), of data 0 0] assms(2) phase2_inv
  by (auto simp: run_phases_def split: sum.splits prod.splits)

lemma header_bytes_inv: "parser_inv (p\<lparr>header_bytes := n\<rparr>) r = parser_inv p r"
  by (simp add: inv_defs)

lemma fail_inv: "parser_inv p r \<Longrightarrow> parser_inv (fail st p) r"
  by (simp add: inv_defs fail_def)

lemma parse_inv:
  assumes inv: "parser_inv p r" and out: "parse data p r = (out, p', r')"
  shows "parser_inv p' r'"
proof (cases "\<not> headers_complete p \<and> in_phase1 (p_state p)")
  case True
  let ?hb = "p\<lparr>header_bytes := header_bytes p + length data\<rparr>"
  show ?thesis
  proof (cases "find_header_end data = None")
    case None: True
    have "p' = (if header_bytes ?hb > MAX_HEADER_SIZE then fail 400 ?hb else ?hb) \<and> r' = r"
      using out True None by (simp add: parse_def Let_def split: if_splits)
    moreover have "parser_inv ?hb r" by (simp only: header_bytes_inv inv)
    ultimately show ?thesis using fail_inv by presburger
  next
    case False
    then have "run_phases data (p\<lparr>header_bytes := 0\<rparr>) r = (out, p', r')" using out True by (simp add: parse_def del: not_None_eq)
    then show ?thesis by (rule run_phases_inv [rotated]) (simp only: header_bytes_inv inv)
  qed
next
  case False
  then have "run_phases data p r = (out, p', r')" using out by (auto simp: parse_def)
  then show ?thesis by (rule run_phases_inv [OF inv])
qed

lemma reach_parser_inv: "parser_reach p r \<Longrightarrow> parser_inv p r"
proof (induction rule: parser_reach.induct)
  case init
  then show ?case by (simp add: inv_defs HttpParser_def Request_def header_def kMaxInlineHeaders_def MAX_BODY_SIZE_def)
next
  case (parse p r data out p' r')
  then show ?case using parse_inv by blast
qed

text \<open>C24: whatever bytes arrive and however they are cut into calls: at most 32 headers are stored, no stored
  header value contains a line break, and neither the body nor the dechunked data exceeds 1 MiB.\<close>

theorem parser_limits:
  assumes "parser_reach p r"
  shows "length (headers_flat r) \<le> kMaxInlineHeaders \<and> (\<forall>(k, v) \<in> set (headers_flat r). CR \<notin> set v \<and> LF \<notin> set v)
    \<and> length (rq_body r) \<le> MAX_BODY_SIZE \<and> length (chunk_body p) \<le> MAX_BODY_SIZE"
  using reach_parser_inv [OF assms] by (auto simp: inv_defs)

text \<open>In no reachable state past the headers are both stored.\<close>

lemma guard_reach:
  assumes "parser_reach p r" and "header r ''Transfer-Encoding'' \<noteq> []" and "header r ''Content-Length'' \<noteq> []"
  shows "p_state p \<notin> {PBody, PChunkSize, PChunkData, PChunkDataEnd, PComplete}"
  using reach_parser_inv [OF assms(1)] assms(2,3) by (auto simp: inv_defs)

text \<open>Refused for good: every later call fails too, whatever it is given.\<close>

definition refused :: "nat \<Rightarrow> nat option \<times> parser \<times> request \<Rightarrow> bool" where
  "refused st out \<longleftrightarrow>
     (\<exists>p r. out = (None, p, r) \<and> p_state p = PError \<and> error_status p = st \<and> (\<forall>data'. parse data' p r = (None, p, r)))"

lemma stays_refused: "p_state p = PError \<Longrightarrow> headers_complete p \<Longrightarrow> parse data' p r = (None, p, r)"
  by (simp add: parse_def run_phases_def phase1_stops in_phase1_def phase2_def)

lemma head_refused:
  assumes cl: "clean_head m path version hs" and data: "data = render_head m path version hs @ rest" and small: "length data < 2 ^ 64"
    and bad: "\<And>p pos start. \<exists>p'. end_headers pos start p (parsed_head m path hs) = Inl p' \<and> p_state p' = PError
      \<and> headers_complete p' \<and> error_status p' = st"
  shows "refused st (parse data HttpParser Request)"
proof -
  let ?e = "length (render_head m path version hs)" and ?r = "parsed_head m path hs"
  obtain p where p: "phase1 data 0 0 HttpParser Request =
      (case end_headers (?e - 1) (?e - 2) p ?r of Inl p' \<Rightarrow> Inl (p', ?r) | Inr (start, p') \<Rightarrow> phase1 data ?e start p' ?r)"
    using phase1_head [OF cl data small] unfolding parsed_head_def by blast
  obtain p' where p': "end_headers (?e - 1) (?e - 2) p ?r = Inl p'" "p_state p' = PError" "headers_complete p'" "error_status p' = st"
    using bad by blast
  then have "run_phases data HttpParser Request = (None, p', ?r)" unfolding run_phases_def p by simp
  then show ?thesis using parse_fresh [OF find_header_end_head [OF data]] p' stays_refused by (auto simp: refused_def)
qed


theorem parser_limits_witness:
  "\<exists>p. parser_reach p Request \<and> p_state p = PMethod \<and> header_bytes p = 3
    \<and> length (headers_flat Request) \<le> kMaxInlineHeaders \<and> length (chunk_body p) \<le> MAX_BODY_SIZE"
proof -
  let ?p = "HttpParser\<lparr>header_bytes := 3\<rparr>"
  have "parse ''GET'' HttpParser Request = (Some 3, ?p, Request)"
    by (simp add: parse_def HttpParser_def in_phase1_def find_header_end_def scalar_scan.simps MAX_HEADER_SIZE_def)
  then have "parser_reach ?p Request" by (rule parser_reach.parse [OF parser_reach.init])
  with parser_limits [OF this] show ?thesis by (intro exI [of _ ?p]) (simp add: HttpParser_def)
qed


section \<open>Requests that arrive in pieces\<close>

text \<open>a call that resumes inside a chunk skips all of its input: phase 1's loop walks over the bytes in its
  default branch, the chunk loop then finds none left, and the chunk stays as incomplete as it was.\<close>

theorem chunk_resume_skips:
  assumes "p_state p = PChunkData" and "headers_complete p" and "0 < chunk_remaining p"
  shows "parse data p r = (Some (length data), p, r)"
proof -
  have "phase1 data 0 0 p r = phase1 data (0 + length data) 0 p r"
    by (rule phase1_idle) (simp_all add: assms in_phase1_def phase1_step_def)
  then have "phase1 data 0 0 p r = Inr (length data, 0, p, r)" by (simp add: phase1.simps [of data "length data"])
  moreover have "chunk_loop data (length data) p r = (Some (length data), p, r)"
    using assms by (subst chunk_loop.simps) (simp add: chunk_step_def chunk_data_step_def substr_def)
  ultimately show ?thesis using assms by (simp add: parse_def run_phases_def phase2_def)
qed

theorem chunk_resume_skips_witness:
  "parse ''bc'' (HttpParser\<lparr>p_state := PChunkData, headers_complete := True, chunk_remaining := 2, chunk_body := ''a''\<rparr>) Request
   = (Some 2, HttpParser\<lparr>p_state := PChunkData, headers_complete := True, chunk_remaining := 2, chunk_body := ''a''\<rparr>, Request)"
  using chunk_resume_skips [of "HttpParser\<lparr>p_state := PChunkData, headers_complete := True, chunk_remaining := 2, chunk_body := ''a''\<rparr>"
      "''bc''" Request] by (simp add: numeral_2_eq_2)

text \<open>the codec given the first part of a header section answers incomplete and empties the buffer, but the
  parser has only counted the bytes: the request line and the headers it was given are stored nowhere.\<close>

theorem http1_incomplete_lost:
  assumes "find_header_end buf = None" and "buf \<noteq> []" and "length buf \<le> MAX_HEADER_SIZE"
  shows "http1_decode HttpParser Request buf = (Incomplete, HttpParser\<lparr>header_bytes := length buf\<rparr>, Request, [])"
  using assms by (simp add: http1_decode_def parse_def HttpParser_def in_phase1_def is_complete_def)

theorem http1_incomplete_lost_witness:
  "http1_decode HttpParser Request ''GET /'' = (Incomplete, HttpParser\<lparr>header_bytes := 5\<rparr>, Request, [])"
  using http1_incomplete_lost [of "''GET /''"] by (simp add: find_header_end_def scalar_scan.simps MAX_HEADER_SIZE_def)

end
