(* ===== verification/Hpack.thy ===== *)
theory Hpack
  imports Prelude
begin

text \<open>
  \<open>HpackDecoder\<close> and \<open>HpackEncoder\<close> of \<open>include/qbuem/server/http2_handler.hpp\<close>: the header compression of HTTP/2
  with the static table only. A span with a read position is the list of bytes not read yet; the
  integers are words of the width the code gives them, a header map is a map from names to values,
  and the encoder is given the headers in the order in which it iterates over them.
\<close>

section \<open>Model\<close>

definition STATIC_TABLE :: "(string \<times> string) list" where
  "STATIC_TABLE =
    [('''', ''''), ('':authority'', ''''), ('':method'', ''GET''), ('':method'', ''POST''), ('':path'', ''/''),
     ('':path'', ''/index.html''), ('':scheme'', ''http''), ('':scheme'', ''https''), ('':status'', ''200''),
     ('':status'', ''204''), ('':status'', ''206''), ('':status'', ''304''), ('':status'', ''400''),
     ('':status'', ''404''), ('':status'', ''500''), (''accept-charset'', ''''),
     (''accept-encoding'', ''gzip, deflate''), (''accept-language'', ''''), (''accept-ranges'', ''''),
     (''accept'', ''''), (''access-control-allow-origin'', ''''), (''age'', ''''), (''allow'', ''''),
     (''authorization'', ''''), (''cache-control'', ''''), (''content-disposition'', ''''),
     (''content-encoding'', ''''), (''content-language'', ''''), (''content-length'', ''''),
     (''content-location'', ''''), (''content-range'', ''''), (''content-type'', ''''), (''cookie'', ''''),
     (''date'', ''''), (''etag'', ''''), (''expect'', ''''), (''expires'', ''''), (''from'', ''''),
     (''host'', ''''), (''if-match'', ''''), (''if-modified-since'', ''''), (''if-none-match'', ''''),
     (''if-range'', ''''), (''if-unmodified-since'', ''''), (''last-modified'', ''''), (''link'', ''''),
     (''location'', ''''), (''max-forwards'', ''''), (''proxy-authenticate'', ''''),
     (''proxy-authorization'', ''''), (''range'', ''''), (''referer'', ''''), (''refresh'', ''''),
     (''retry-after'', ''''), (''server'', ''''), (''set-cookie'', ''''),
     (''strict-transport-security'', ''''), (''transfer-encoding'', ''''), (''user-agent'', ''''),
     (''vary'', ''''), (''via'', ''''), (''www-authenticate'', '''')]"

text \<open>The bytes of a string and back.\<close>

definition to_bytes :: "string \<Rightarrow> bytes" where
  "to_bytes s = map of_char s"

definition of_bytes :: "bytes \<Rightarrow> string" where
  "of_bytes bs = map (\<lambda>b. char_of (unat b)) bs"

fun decode_cont :: "u64 \<Rightarrow> nat \<Rightarrow> bytes \<Rightarrow> u64 \<times> bytes" where
  "decode_cont value64 shift [] = (value64, [])"
| "decode_cont value64 shift (byte # data) =
     (let sum = value64 + push_bit shift (ucast (byte AND 0x7F));
          value64 = (if sum > 0xFFFFFFFF then 0xFFFFFFFF else sum);
          shift = shift + 7
      in if byte AND 0x80 = 0 then (value64, data)
         else if shift \<ge> 64 then (value64, data)
         else decode_cont value64 shift data)"

fun decode_integer :: "bytes \<Rightarrow> nat \<Rightarrow> u32 \<times> bytes" where
  "decode_integer [] prefix_bits = (0, [])"
| "decode_integer (first # data) prefix_bits =
     (let mk = (ucast (push_bit prefix_bits 1 - 1 :: u32) :: u8);
          val = (ucast (first AND mk) :: u32)
      in if val < ucast mk then (val, data)
         else let (value64, data) = decode_cont (ucast val) 0 data in (ucast value64, data))"

definition decode_string :: "bytes \<Rightarrow> string \<times> bytes" where
  "decode_string data =
     (if data = [] then ([], [])
      else
        let (str_len, data) = decode_integer data 7;
            n = (if unat str_len > length data then length data else unat str_len)
        in (of_bytes (take n data), drop n data))"

definition literal_field :: "nat \<Rightarrow> bytes \<Rightarrow> (string \<times> string) \<times> bytes" where
  "literal_field prefix_bits data =
     (let (name_index, data) = decode_integer data prefix_bits;
          (nam, data) =
            (if 0 < name_index \<and> name_index < 62 then (fst (STATIC_TABLE ! unat name_index), data) else decode_string data);
          (val, data) = decode_string data
      in ((nam, val), data))"

text \<open>One round of the decoding loop: the header it stores, if any.\<close>

definition decode_field :: "u8 \<Rightarrow> bytes \<Rightarrow> (string \<times> string) option \<times> bytes" where
  "decode_field first data =
     (if first AND 0x80 \<noteq> 0 then
        (let (index, data) = decode_integer (first # data) 7 in
         (if 0 < index \<and> index < 62 then Some (STATIC_TABLE ! unat index) else None, data))
      else if first AND 0xC0 = 0x40 then (let (h, data) = literal_field 6 (first # data) in (Some h, data))
      else if first AND 0xF0 = 0x00 then (let (h, data) = literal_field 4 (first # data) in (Some h, data))
      else if first AND 0xF0 = 0x10 then (let (h, data) = literal_field 4 (first # data) in (Some h, data))
      else if first AND 0xE0 = 0x20 then (None, snd (decode_integer (first # data) 5))
      else (None, data))"

lemma decode_cont_length: "length (snd (decode_cont v n data)) \<le> length data"
  by (induction data arbitrary: v n) (auto simp: Let_def intro: le_SucI)

lemma decode_integer_length: "length (snd (decode_integer data n)) \<le> length data - 1"
proof (cases data)
  case (Cons b rest)
  then show ?thesis
    using decode_cont_length [of "ucast (ucast (b AND ucast (push_bit n 1 - 1 :: u32)) :: u32)" 0 rest]
    by (simp add: Let_def case_prod_unfold)
qed simp

lemma decode_string_length: "length (snd (decode_string data)) \<le> length data"
  using decode_integer_length [of data 7] by (auto simp: decode_string_def Let_def case_prod_unfold)

lemma literal_field_length: "length (snd (literal_field n data)) \<le> length data - 1"
  using decode_integer_length [of data n] decode_string_length [of "snd (decode_integer data n)"]
    decode_string_length [of "snd (decode_string (snd (decode_integer data n)))"]
  by (auto simp: literal_field_def Let_def case_prod_unfold intro: order_trans)

lemma decode_field_length: "length (snd (decode_field b data)) \<le> length data"
  using decode_integer_length [of "b # data"] literal_field_length [of _ "b # data"]
  by (simp add: decode_field_def case_prod_unfold Let_def del: decode_integer.simps)

lemma decode_field_rest: "decode_field b data = (h, rest) \<Longrightarrow> length rest \<le> length data"
  using decode_field_length [of b data] by simp

function decode_loop :: "(string \<rightharpoonup> string) \<Rightarrow> bytes \<Rightarrow> (string \<rightharpoonup> string)" where
  "decode_loop headers [] = headers"
| "decode_loop headers (first # data) =
     (case decode_field first data of
        (None, data') \<Rightarrow> decode_loop headers data'
      | (Some (nam, val), data') \<Rightarrow> decode_loop (headers(nam \<mapsto> val)) data')"
  by pat_completeness auto
termination
  by (relation "measure (\<lambda>(headers, data). length data)")
    (auto simp: less_Suc_eq_le dest: decode_field_rest [OF sym])

definition hpack_decode :: "bytes \<Rightarrow> (string \<rightharpoonup> string)" where
  "hpack_decode data = decode_loop Map.empty data"

function encode_rest :: "u32 \<Rightarrow> bytes" where
  "encode_rest val =
     (if val \<ge> 128 then ucast ((val AND 0x7F) OR 0x80) # encode_rest (drop_bit 7 val) else [ucast val])"
  by pat_completeness auto
termination
  by (relation "measure unat") (auto simp: drop_bit_eq_div word_le_nat_alt unat_div)

declare encode_rest.simps [simp del]

definition encode_integer :: "u32 \<Rightarrow> nat \<Rightarrow> u8 \<Rightarrow> bytes" where
  "encode_integer val prefix_bits prefix_byte =
     (let max_prefix = push_bit prefix_bits 1 - 1 in
      if val < max_prefix then [ucast (ucast prefix_byte OR val)]
      else ucast (ucast prefix_byte OR max_prefix) # encode_rest (val - max_prefix))"

definition encode_string :: "string \<Rightarrow> bytes" where
  "encode_string str = encode_integer (of_nat (length str)) 7 0x00 @ to_bytes str"

text \<open>The table search: the index of the full match and that of the first name match, 0 if there is none.\<close>

function match_loop :: "string \<Rightarrow> string \<Rightarrow> nat \<Rightarrow> nat \<Rightarrow> nat \<times> nat" where
  "match_loop nam val i name_match =
     (if i < 62 then
        (if fst (STATIC_TABLE ! i) = nam then
           (let name_match = (if name_match = 0 then i else name_match) in
            if snd (STATIC_TABLE ! i) = val then (i, name_match) else match_loop nam val (i + 1) name_match)
         else match_loop nam val (i + 1) name_match)
      else (0, name_match))"
  by pat_completeness auto
termination
  by (relation "measure (\<lambda>(nam, val, i, nm). 62 - i)") auto

declare match_loop.simps [simp del]

definition encode_header :: "string \<times> string \<Rightarrow> bytes" where
  "encode_header kv =
     (let (nam, val) = kv;
          (full_match, name_match) = match_loop nam val 1 0
      in if full_match > 0 then encode_integer (of_nat full_match) 7 0x80
         else if name_match > 0 then encode_integer (of_nat name_match) 4 0x00 @ encode_string val
         else 0x00 # encode_string nam @ encode_string val)"

definition hpack_encode :: "(string \<times> string) list \<Rightarrow> bytes" where
  "hpack_encode headers = concat (map encode_header headers)"

section \<open>Integers\<close>

lemma group_bits:
  "(ucast ((ucast ((w AND 0x7F) OR 0x80) :: u8) AND 0x7F) :: u64) = ucast (take_bit 7 (w :: u32))"
  "(ucast ((w AND 0x7F) OR 0x80) :: u8) AND 0x80 \<noteq> 0"
proof -
  show "(ucast ((ucast ((w AND 0x7F) OR 0x80) :: u8) AND 0x7F) :: u64) = ucast (take_bit 7 w)"
    unfolding mask7 by (rule bit_word_eqI) (auto simp: bit_simps bit7)
  have "bit ((ucast ((w AND 0x7F) OR 0x80) :: u8) AND 0x80) 7"
    unfolding mask7 by (auto simp: bit_simps bit7)
  then show "(ucast ((w AND 0x7F) OR 0x80) :: u8) AND 0x80 \<noteq> 0" by auto
qed

lemma last_bits:
  assumes "unat (w :: u32) < 128"
  shows "(ucast ((ucast w :: u8) AND 0x7F) :: u64) = ucast w" "(ucast w :: u8) AND 0x80 = 0"
proof -
  have "w = take_bit 7 w"
    using assms by (simp add: word_unat_eq_iff unsigned_take_bit_eq take_bit_nat_eq_self)
  then have w: "n < 7" if "bit w n" for n using that by (metis bit_take_bit_iff)
  show "(ucast ((ucast w :: u8) AND 0x7F) :: u64) = ucast w"
    unfolding mask7 by (rule bit_word_eqI) (auto simp: bit_simps dest: w less_trans)
  show "(ucast w :: u8) AND 0x80 = 0"
    by (rule bit_word_eqI) (auto simp: bit_simps bit7 dest: w)
qed

text \<open>One group of seven bits: the sum does not wrap and is not clamped.\<close>

lemma add_group:
  assumes "unat acc + g * 2 ^ shift < 2 ^ 32"
  shows "acc + push_bit shift (of_nat g :: u64) = of_nat (unat acc + g * 2 ^ shift)"
    and "\<not> (0xFFFFFFFF :: u64) < of_nat (unat acc + g * 2 ^ shift)"
proof -
  show "acc + push_bit shift (of_nat g :: u64) = of_nat (unat acc + g * 2 ^ shift)"
    by (simp add: push_bit_of_nat [symmetric] push_bit_eq_mult)
  have "unat (of_nat (unat acc + g * 2 ^ shift) :: u64) = unat acc + g * 2 ^ shift"
    using assms by (intro unat_of_nat_small) simp
  then show "\<not> (0xFFFFFFFF :: u64) < of_nat (unat acc + g * 2 ^ shift)"
    unfolding word_less_nat_alt using assms by simp
qed

lemma decode_cont_encode:
  assumes "unat acc + unat w * 2 ^ shift < 2 ^ 32" and "shift < 32"
  shows "decode_cont acc shift (encode_rest w @ rest) = (of_nat (unat acc + unat w * 2 ^ shift), rest)"
  using assms
proof (induction w arbitrary: acc shift rule: encode_rest.induct)
  case (1 w)
  show ?case
  proof (cases "w \<ge> 128")
    case True
    let ?g = "unat w mod 128" and ?d = "unat w div 128"
    have w: "128 \<le> unat w" using True by (simp add: word_le_nat_alt)
    have split: "unat w * 2 ^ shift = ?g * 2 ^ shift + ?d * 2 ^ (shift + 7)"
    proof -
      have "unat w * 2 ^ shift = (?g + ?d * 128) * 2 ^ shift" by (simp only: mod_div_mult_eq)
      also have "\<dots> = ?g * 2 ^ shift + ?d * 2 ^ (shift + 7)" unfolding distrib_right power_add by simp
      finally show ?thesis .
    qed
    have g: "unat (take_bit 7 w) = ?g" unfolding unsigned_take_bit_eq by (simp add: take_bit_eq_mod)
    have "(ucast (take_bit 7 w) :: u64) = of_nat (unat (take_bit 7 w))" by simp
    then have ug: "(ucast (take_bit 7 w) :: u64) = of_nat ?g" by (simp only: g)
    have le: "unat acc + ?g * 2 ^ shift < 2 ^ 32" using "1.prems"(1) split by simp
    have "128 * 2 ^ shift \<le> unat w * 2 ^ shift" by (rule mult_le_mono1 [OF w])
    then have "128 * 2 ^ shift < (2 :: nat) ^ 32" using "1.prems"(1) by linarith
    then have "(2 :: nat) ^ (shift + 7) < 2 ^ 32" unfolding power_add by simp
    then have sh: "shift + 7 < 32" by (rule power_less_imp_less_exp [rotated]) simp
    have d: "unat (drop_bit 7 w) = ?d" unfolding unat_drop_bit_eq by (simp add: drop_bit_eq_div)
    let ?acc = "of_nat (unat acc + ?g * 2 ^ shift) :: u64"
    have ua: "unat ?acc = unat acc + ?g * 2 ^ shift" using le by (intro unat_of_nat_small) simp
    have "decode_cont acc shift (encode_rest w @ rest) = decode_cont ?acc (shift + 7) (encode_rest (drop_bit 7 w) @ rest)"
      using True sh add_group [OF le] by (subst encode_rest.simps) (simp add: Let_def group_bits ug)
    also have "\<dots> = (of_nat (unat ?acc + ?d * 2 ^ (shift + 7)), rest)"
      using "1.IH" [OF True, of ?acc "shift + 7"] "1.prems"(1) sh split by (simp only: d ua)
    finally show ?thesis unfolding ua split by (simp only: add.assoc)
  next
    case False
    then have w: "unat w < 128" by (simp add: word_le_nat_alt)
    have uw: "(ucast w :: u64) = of_nat (unat w)" by simp
    show ?thesis
      using False add_group [OF "1.prems"(1)]
      by (subst encode_rest.simps) (simp add: Let_def last_bits [OF w] uw del: of_nat_unat)
  qed
qed

lemma prefix_mask: "push_bit n 1 - 1 = (mask n :: 'a :: len word)" "2 ^ n - 1 = (mask n :: 'a :: len word)"
  by (simp_all add: mask_eq_exp_minus_1 push_bit_eq_mult)

lemma unat_u32_u64: "unat (ucast (x :: u32) :: u64) = unat x"
proof -
  have "unat x < 2 ^ 32" using unsigned_less [of x] by simp
  then show ?thesis by (simp add: unsigned_ucast_eq take_bit_nat_eq_self)
qed

lemma ucast_u32_u64 [simp]: "(ucast (ucast (x :: u32) :: u64) :: u32) = x"
  by (rule bit_word_eqI) (auto simp: bit_simps)

lemma prefix_bits:
  assumes "n \<le> 8" and "take_bit n (pb :: u8) = 0"
  shows "(ucast ((ucast (ucast pb OR x) :: u8) AND ucast (mask n :: u32)) :: u32) = take_bit n x"
    and "(ucast (ucast (mask n :: u32) :: u8) :: u32) = mask n"
proof -
  have "\<not> bit (take_bit n pb) i" for i using assms(2) by simp
  then have pb: "\<not> bit pb i" if "i < n" for i using that by (auto simp: bit_take_bit_iff)
  show "(ucast ((ucast (ucast pb OR x) :: u8) AND ucast (mask n :: u32)) :: u32) = take_bit n x"
    by (rule bit_word_eqI) (use assms(1) pb in \<open>auto simp: bit_simps\<close>)
  show "(ucast (ucast (mask n :: u32) :: u8) :: u32) = mask n"
    by (rule bit_word_eqI) (use assms(1) in \<open>auto simp: bit_simps\<close>)
qed

lemma decode_encode_integer:
  assumes "n \<le> 8" and "take_bit n pb = 0"
  shows "decode_integer (encode_integer v n pb @ rest) n = (v, rest)"
proof (cases "v < mask n")
  case True
  have "(2 :: nat) ^ n \<le> 2 ^ 8" using assms(1) by (intro power_increasing) simp_all
  then have "unat (of_nat (2 ^ n - 1) :: u32) = 2 ^ n - 1" by (intro unat_of_nat_small) simp
  then have "unat (mask n :: u32) = 2 ^ n - 1" by (simp add: mask_eq_exp_minus_1 of_nat_diff)
  then have "unat v < 2 ^ n" using True by (simp add: word_less_nat_alt)
  then have "take_bit n v = v" by (simp add: word_unat_eq_iff unsigned_take_bit_eq take_bit_nat_eq_self)
  with True show ?thesis using prefix_bits [OF assms] by (simp add: encode_integer_def Let_def prefix_mask)
next
  case False
  have tb: "take_bit n (mask n :: u32) = mask n" by (rule bit_word_eqI) (auto simp: bit_simps)
  have uv: "unat (ucast (mask n :: u32) :: u64) + unat (v - mask n) = unat v"
  proof -
    have "mask n \<le> v" using False by simp
    then show ?thesis using unat_sub [of "mask n" v] by (simp add: unat_u32_u64 word_le_nat_alt)
  qed
  have "decode_cont (ucast (mask n :: u32)) 0 (encode_rest (v - mask n) @ rest) = (of_nat (unat v), rest)"
    using decode_cont_encode [of "ucast (mask n :: u32)" "v - mask n" 0 rest] uv unsigned_less [of v, where 'a = nat] by simp
  then show ?thesis using False prefix_bits [OF assms] by (simp add: encode_integer_def Let_def prefix_mask tb)
qed

section \<open>Strings and fields\<close>

lemma of_to_bytes [simp]: "of_bytes (to_bytes s) = s"
  by (simp add: of_bytes_def to_bytes_def comp_def)

lemma length_to_bytes [simp]: "length (to_bytes s) = length s"
  by (simp add: to_bytes_def)

lemma encode_integer_nonempty: "encode_integer v n pb \<noteq> []"
  by (simp add: encode_integer_def Let_def)

lemma decode_encode_string:
  assumes "length s < 2 ^ 32"
  shows "decode_string (encode_string s @ rest) = (s, rest)"
  using decode_encode_integer [of 7 0 "of_nat (length s)" "to_bytes s @ rest"] assms
  by (simp add: decode_string_def encode_string_def encode_integer_nonempty unat_of_nat_small)

lemma match_loop_sound:
  assumes "match_loop nam val i nm = (f, n)" and "nm = 0 \<or> nm < 62 \<and> fst (STATIC_TABLE ! nm) = nam" and "0 < i"
  shows "(f = 0 \<or> f < 62 \<and> STATIC_TABLE ! f = (nam, val)) \<and> (n = 0 \<or> n < 62 \<and> fst (STATIC_TABLE ! n) = nam)"
  using assms
proof (induction nam val i nm rule: match_loop.induct)
  case (1 nam val i nm)
  show ?case
  proof (cases "i < 62 \<and> fst (STATIC_TABLE ! i) = nam \<and> snd (STATIC_TABLE ! i) = val")
    case True
    then show ?thesis using "1.prems" match_loop.simps [of nam val i nm] by (auto simp: Let_def prod_eq_iff)
  next
    case False
    then show ?thesis
      using "1.IH" "1.prems" match_loop.simps [of nam val i nm] by (auto simp: Let_def split: if_splits)
  qed
qed

lemma static_index:
  assumes "0 < f" "f < 62"
  shows "0 < (of_nat f :: u32)" "(of_nat f :: u32) < 62" "unat (of_nat f :: u32) = f"
proof -
  show u: "unat (of_nat f :: u32) = f" using assms by (intro unat_of_nat_small) simp
  show "0 < (of_nat f :: u32)" "(of_nat f :: u32) < 62" unfolding word_less_nat_alt u using assms by simp_all
qed

text \<open>What the first byte of each representation looks like to the dispatcher.\<close>

lemma indexed_first:
  assumes "0 < f" "f < 62"
  shows "encode_integer (of_nat f) 7 0x80 = [ucast (0x80 OR of_nat f :: u32)]" "(ucast (0x80 OR of_nat f :: u32) :: u8) AND 0x80 \<noteq> 0"
proof -
  have "(of_nat f :: u32) < 0x7F" using static_index [OF assms] by (simp add: word_less_nat_alt)
  then show "encode_integer (of_nat f) 7 0x80 = [ucast (0x80 OR of_nat f :: u32)]" by (simp add: encode_integer_def)
  have "bit ((ucast (0x80 OR of_nat f :: u32) :: u8) AND 0x80) 7" by (auto simp: bit_simps bit7)
  then show "(ucast (0x80 OR of_nat f :: u32) :: u8) AND 0x80 \<noteq> 0" by auto
qed

lemma low_nibble:
  assumes "unat (c :: u8) < 16"
  shows "c AND 0x80 = 0" "c AND 0xC0 = 0" "c AND 0xF0 = 0"
proof -
  have "take_bit 4 c = c" using assms by (intro take_bit_small) simp
  note eq = and_take_bit [OF this]
  show "c AND 0x80 = 0" "c AND 0xC0 = 0" "c AND 0xF0 = 0" by (subst eq, simp)+
qed

lemma literal_first:
  obtains c t where "encode_integer v 4 0 = c # t" "unat c < 16"
proof -
  have u: "unat (ucast (x :: u32) :: u8) < 16" if "unat x < 16" for x
    using that by (simp add: unsigned_ucast_eq take_bit_nat_eq_self)
  show ?thesis
  proof (cases "v < 15")
    case True
    then show ?thesis using that [of "ucast v" "[]"] u [of v] by (simp add: encode_integer_def word_less_nat_alt)
  next
    case False
    then show ?thesis using that [of 15 "encode_rest (v - 15)"] by (simp add: encode_integer_def)
  qed
qed

lemma decode_encode_header:
  assumes "length k < 2 ^ 32" "length v < 2 ^ 32"
  shows "decode_loop m (encode_header (k, v) @ rest) = decode_loop (m(k \<mapsto> v)) rest"
proof -
  obtain f n where fn: "match_loop k v 1 0 = (f, n)" by force
  then have sound: "f = 0 \<or> f < 62 \<and> STATIC_TABLE ! f = (k, v)" "n = 0 \<or> n < 62 \<and> fst (STATIC_TABLE ! n) = k"
    using match_loop_sound [OF fn] by auto
  consider "0 < f" | "f = 0" "0 < n" | "f = 0" "n = 0" by blast
  then show ?thesis
  proof cases
    case 1
    then have f: "0 < f" "f < 62" "STATIC_TABLE ! f = (k, v)" using sound by auto
    have "decode_integer (encode_integer (of_nat f) 7 0x80 @ rest) 7 = (of_nat f, rest)"
      by (rule decode_encode_integer) simp_all
    then have "decode_field (ucast (0x80 OR of_nat f :: u32)) rest = (Some (k, v), rest)"
      using indexed_first [OF f(1,2)] static_index [OF f(1,2)] f(3)
      by (simp add: decode_field_def del: decode_integer.simps)
    then show ?thesis using 1 fn indexed_first(1) [OF f(1,2)] by (simp add: encode_header_def)
  next
    case 2
    then have n: "0 < n" "n < 62" "fst (STATIC_TABLE ! n) = k" using sound by auto
    obtain c t where ct: "encode_integer (of_nat n) 4 0 = c # t" "unat c < 16" by (rule literal_first)
    have "decode_integer (encode_integer (of_nat n) 4 0 @ encode_string v @ rest) 4 = (of_nat n, encode_string v @ rest)"
      by (rule decode_encode_integer) simp_all
    then have "decode_field c (t @ encode_string v @ rest) = (Some (k, v), rest)"
      using ct low_nibble [OF ct(2)] static_index [OF n(1,2)] n(3) decode_encode_string [OF assms(2)]
      by (simp add: decode_field_def literal_field_def del: decode_integer.simps)
    then show ?thesis using 2 fn ct by (simp add: encode_header_def)
  next
    case 3
    have "decode_integer (0 # encode_string k @ encode_string v @ rest) 4 = (0, encode_string k @ encode_string v @ rest)"
      by simp
    then have "decode_field 0 (encode_string k @ encode_string v @ rest) = (Some (k, v), rest)"
      using decode_encode_string [OF assms(1)] decode_encode_string [OF assms(2)]
      by (simp add: decode_field_def literal_field_def del: decode_integer.simps)
    then show ?thesis using 3 fn by (simp add: encode_header_def)
  qed
qed

lemma decode_loop_encode:
  "\<forall>(k, v) \<in> set hs. length k < 2 ^ 32 \<and> length v < 2 ^ 32 \<Longrightarrow>
     decode_loop m (hpack_encode hs @ rest) = decode_loop (m ++ map_of (rev hs)) rest"
proof (induction hs arbitrary: m)
  case (Cons h hs)
  obtain k v where h: "h = (k, v)" by force
  have "decode_loop m (hpack_encode (h # hs) @ rest) = decode_loop (m(k \<mapsto> v)) (hpack_encode hs @ rest)"
    using decode_encode_header [of k v m "hpack_encode hs @ rest"] Cons.prems h by (simp add: hpack_encode_def)
  also have "\<dots> = decode_loop (m(k \<mapsto> v) ++ map_of (rev hs)) rest" using Cons.IH Cons.prems by simp
  also have "m(k \<mapsto> v) ++ map_of (rev hs) = m ++ map_of (rev (h # hs))"
    by (rule ext) (simp add: h map_add_def split: option.splits)
  finally show ?case .
qed (simp add: hpack_encode_def)

section \<open>The round trip\<close>

text \<open>C14: a header block made by the encoder is decoded to the same headers, whatever mixture of indexed,
  name-indexed and literal fields it uses; of several headers with one name the last is kept.\<close>

theorem hpack_roundtrip:
  assumes "\<forall>(k, v) \<in> set hs. length k < 2 ^ 32 \<and> length v < 2 ^ 32"
  shows "hpack_decode (hpack_encode hs) = map_of (rev hs)"
  using decode_loop_encode [OF assms, of Map.empty "[]"] by (simp add: hpack_decode_def)

theorem hpack_roundtrip_witness:
  "hpack_decode (hpack_encode [('':method'', ''GET''), ('':path'', ''/a''), (''x'', ''y'')])
   = map_of [(''x'', ''y''), ('':path'', ''/a''), ('':method'', ''GET'')]"
  using hpack_roundtrip [of "[('':method'', ''GET''), ('':path'', ''/a''), (''x'', ''y'')]"] by simp

end
