(* ===== verification/Http2.thy ===== *)
theory Http2
  imports Hpack "HOL-Library.AList"
begin

text \<open>
  \<open>Http2Handler\<close> of \<open>include/qbuem/server/http2_handler.hpp\<close>: frames, streams, flow control and the limits against
  abuse. Every operation returns its result and the new handler. The stream table is an association
  list, whose order stands for the order in which the hash map is iterated; the windows are \<open>int64_t\<close>
  counters that every update checks against \<open>2^31 - 1\<close> and are integers here. The application handler is
  outside the class: each invocation is recorded in \<open>handled\<close> with its arguments, and what the
  application then sends are further operations. The unused \<open>outgoing\<close> channel of a stream is left out.
  A read outside a frame's payload is the result \<open>out_of_bounds\<close>.
\<close>

section \<open>Frames and streams\<close>

datatype Http2FrameType =
  DATA | HEADERS | PRIORITY | RST_STREAM | SETTINGS | PUSH_PROMISE | PING | GOAWAY | WINDOW_UPDATE | CONTINUATION
  | Unknown u8

text \<open>The underlying byte of a frame type; \<open>Unknown\<close> is any other byte read from the wire.\<close>

fun type_code :: "Http2FrameType \<Rightarrow> u8" where
  "type_code DATA = 0x0"
| "type_code HEADERS = 0x1"
| "type_code PRIORITY = 0x2"
| "type_code RST_STREAM = 0x3"
| "type_code SETTINGS = 0x4"
| "type_code PUSH_PROMISE = 0x5"
| "type_code PING = 0x6"
| "type_code GOAWAY = 0x7"
| "type_code WINDOW_UPDATE = 0x8"
| "type_code CONTINUATION = 0x9"
| "type_code (Unknown b) = b"

record Http2Frame =
  f_length :: u32
  f_type :: Http2FrameType
  f_flags :: u8
  f_stream_id :: u32
  f_payload :: bytes

definition HTTP2_FLAG_END_STREAM :: u8 where
  "HTTP2_FLAG_END_STREAM = 0x1"

definition HTTP2_FLAG_END_HEADERS :: u8 where
  "HTTP2_FLAG_END_HEADERS = 0x4"

definition HTTP2_FLAG_ACK :: u8 where
  "HTTP2_FLAG_ACK = 0x1"

definition HTTP2_FLAG_PADDED :: u8 where
  "HTTP2_FLAG_PADDED = 0x8"

definition HTTP2_FLAG_PRIORITY :: u8 where
  "HTTP2_FLAG_PRIORITY = 0x20"

lemmas flag_defs =
  HTTP2_FLAG_END_STREAM_def HTTP2_FLAG_END_HEADERS_def HTTP2_FLAG_ACK_def HTTP2_FLAG_PADDED_def HTTP2_FLAG_PRIORITY_def

definition has_flag :: "Http2Frame \<Rightarrow> u8 \<Rightarrow> bool" where
  "has_flag frame flag \<longleftrightarrow> f_flags frame AND flag \<noteq> 0"

datatype StreamState = IDLE | OPEN | HALF_CLOSED_LOCAL | HALF_CLOSED_REMOTE | CLOSED

record Http2Stream =
  s_id :: u32
  s_state :: StreamState
  request_headers :: "string \<rightharpoonup> string"
  request_body :: bytes
  s_send_window :: int
  s_recv_window :: int

datatype h2_error = protocol_error | connection_aborted | message_size | operation_would_block | out_of_bounds

record Http2Handler =
  streams :: "(u32 \<times> Http2Stream) list"
  pending_frames :: "Http2Frame list"
  last_stream_id :: u32
  continuation_buffer :: "u32 \<rightharpoonup> bytes"
  conn_send_window :: int
  conn_recv_window :: int
  peer_initial_window_size :: u32
  peer_max_frame_size :: u32
  peer_header_table_size :: u32
  peer_settings_received :: bool
  rst_stream_count :: u32
  handler_set :: bool
  handled :: "((string \<rightharpoonup> string) \<times> bytes \<times> u32) list"

type_synonym h2_result = "(h2_error + unit) \<times> Http2Handler"

section \<open>Constants\<close>

definition DEFAULT_HEADER_TABLE_SIZE :: u32 where
  "DEFAULT_HEADER_TABLE_SIZE = 4096"

definition DEFAULT_MAX_FRAME_SIZE :: u32 where
  "DEFAULT_MAX_FRAME_SIZE = 16384"

definition DEFAULT_INITIAL_WINDOW_SIZE :: u32 where
  "DEFAULT_INITIAL_WINDOW_SIZE = 65535"

definition MAX_WINDOW :: int where
  "MAX_WINDOW = 0x7FFFFFFF"

definition MIN_MAX_FRAME_SIZE :: u32 where
  "MIN_MAX_FRAME_SIZE = 16384"

definition MAX_ALLOWED_FRAME_SIZE :: u32 where
  "MAX_ALLOWED_FRAME_SIZE = 16777215"

definition MAX_CONCURRENT_STREAMS :: nat where
  "MAX_CONCURRENT_STREAMS = 128"

definition MAX_REQUEST_BODY :: nat where
  "MAX_REQUEST_BODY = 8 * 1024 * 1024"

definition MAX_HEADER_BLOCK :: nat where
  "MAX_HEADER_BLOCK = 64 * 1024"

definition MAX_RST_STREAMS :: u32 where
  "MAX_RST_STREAMS = 200"

lemmas h2_constants =
  DEFAULT_HEADER_TABLE_SIZE_def DEFAULT_MAX_FRAME_SIZE_def DEFAULT_INITIAL_WINDOW_SIZE_def MAX_WINDOW_def
  MIN_MAX_FRAME_SIZE_def MAX_ALLOWED_FRAME_SIZE_def MAX_CONCURRENT_STREAMS_def MAX_REQUEST_BODY_def
  MAX_HEADER_BLOCK_def MAX_RST_STREAMS_def

definition new_handler :: "bool \<Rightarrow> Http2Handler" where
  "new_handler app =
     \<lparr> streams = [], pending_frames = [], last_stream_id = 0, continuation_buffer = Map.empty,
       conn_send_window = uint DEFAULT_INITIAL_WINDOW_SIZE, conn_recv_window = uint DEFAULT_INITIAL_WINDOW_SIZE,
       peer_initial_window_size = DEFAULT_INITIAL_WINDOW_SIZE, peer_max_frame_size = DEFAULT_MAX_FRAME_SIZE,
       peer_header_table_size = DEFAULT_HEADER_TABLE_SIZE, peer_settings_received = False, rst_stream_count = 0,
       handler_set = app, handled = [] \<rparr>"

section \<open>Sending\<close>

definition append_uint16 :: "bytes \<Rightarrow> u16 \<Rightarrow> bytes" where
  "append_uint16 v val = v @ [ucast (drop_bit 8 val AND 0xFF), ucast (val AND 0xFF)]"

definition append_uint32 :: "bytes \<Rightarrow> u32 \<Rightarrow> bytes" where
  "append_uint32 v val =
     v @ [ucast (drop_bit 24 val AND 0xFF), ucast (drop_bit 16 val AND 0xFF), ucast (drop_bit 8 val AND 0xFF),
          ucast (val AND 0xFF)]"

definition push_frame :: "Http2Frame \<Rightarrow> Http2Handler \<Rightarrow> Http2Handler" where
  "push_frame frame h = h\<lparr>pending_frames := pending_frames h @ [frame]\<rparr>"

definition upd_stream :: "u32 \<Rightarrow> (Http2Stream \<Rightarrow> Http2Stream) \<Rightarrow> Http2Handler \<Rightarrow> Http2Handler" where
  "upd_stream sid f h = h\<lparr>streams := AList.map_entry sid f (streams h)\<rparr>"

definition erase_stream :: "u32 \<Rightarrow> Http2Handler \<Rightarrow> Http2Handler" where
  "erase_stream sid h = h\<lparr>streams := AList.delete sid (streams h)\<rparr>"

text \<open>The stream states after the server ends its side.\<close>

definition end_local :: "Http2Stream \<Rightarrow> Http2Stream" where
  "end_local s =
     (if s_state s = OPEN then s\<lparr>s_state := HALF_CLOSED_LOCAL\<rparr>
      else if s_state s = HALF_CLOSED_REMOTE then s\<lparr>s_state := CLOSED\<rparr>
      else s)"

definition send_headers :: "u32 \<Rightarrow> (string \<times> string) list \<Rightarrow> bool \<Rightarrow> Http2Handler \<Rightarrow> h2_result" where
  "send_headers stream_id headers end_stream h =
     (let encoded = hpack_encode headers;
          frame = \<lparr> f_length = of_nat (length encoded), f_type = HEADERS,
                    f_flags = (if end_stream then HTTP2_FLAG_END_HEADERS OR HTTP2_FLAG_END_STREAM else HTTP2_FLAG_END_HEADERS),
                    f_stream_id = stream_id, f_payload = encoded \<rparr>;
          h = push_frame frame h
      in (Inr (), if end_stream then upd_stream stream_id end_local h else h))"

definition send_data :: "u32 \<Rightarrow> bytes \<Rightarrow> bool \<Rightarrow> Http2Handler \<Rightarrow> h2_result" where
  "send_data stream_id data end_stream h =
     (let spent = int (length data);
          stream_win = (case map_of (streams h) stream_id of Some s \<Rightarrow> s_send_window s | None \<Rightarrow> MAX_WINDOW)
      in if spent > conn_send_window h \<or> spent > stream_win then (Inl operation_would_block, h)
         else
           let frame = \<lparr> f_length = of_nat (length data), f_type = DATA,
                         f_flags = (if end_stream then HTTP2_FLAG_END_STREAM else 0),
                         f_stream_id = stream_id, f_payload = data \<rparr>;
               h = h\<lparr>conn_send_window := conn_send_window h - spent\<rparr>;
               h = upd_stream stream_id (\<lambda>s. s\<lparr>s_send_window := s_send_window s - spent\<rparr>) h;
               h = push_frame frame h
           in (Inr (), if end_stream then upd_stream stream_id end_local h else h))"

definition drain_pending_frames :: "Http2Handler \<Rightarrow> Http2Frame list \<times> Http2Handler" where
  "drain_pending_frames h = (pending_frames h, h\<lparr>pending_frames := []\<rparr>)"

definition send_settings :: "bool \<Rightarrow> Http2Handler \<Rightarrow> Http2Handler" where
  "send_settings ack h =
     (if ack then
        push_frame \<lparr> f_length = 0, f_type = SETTINGS, f_flags = HTTP2_FLAG_ACK, f_stream_id = 0, f_payload = [] \<rparr> h
      else
        let p = append_uint32 (append_uint16 [] 0x1) DEFAULT_HEADER_TABLE_SIZE;
            p = append_uint32 (append_uint16 p 0x5) DEFAULT_MAX_FRAME_SIZE;
            p = append_uint32 (append_uint16 p 0x4) DEFAULT_INITIAL_WINDOW_SIZE
        in push_frame \<lparr> f_length = of_nat (length p), f_type = SETTINGS, f_flags = 0, f_stream_id = 0, f_payload = p \<rparr> h)"

text \<open>The payload loop of a ping, from the last byte to the first.\<close>

fun ping_bytes :: "nat \<Rightarrow> u64 \<Rightarrow> bytes \<Rightarrow> bytes" where
  "ping_bytes 0 opaque_data payload = payload"
| "ping_bytes (Suc i) opaque_data payload =
     ping_bytes i (drop_bit 8 opaque_data) (ucast (opaque_data AND 0xFF) # payload)"

definition send_ping :: "bool \<Rightarrow> u64 \<Rightarrow> Http2Handler \<Rightarrow> Http2Handler" where
  "send_ping ack opaque_data h =
     push_frame \<lparr> f_length = 8, f_type = PING, f_flags = (if ack then HTTP2_FLAG_ACK else 0), f_stream_id = 0,
                  f_payload = ping_bytes 8 opaque_data [] \<rparr> h"

definition send_goaway :: "u32 \<Rightarrow> u32 \<Rightarrow> string \<Rightarrow> Http2Handler \<Rightarrow> Http2Handler" where
  "send_goaway last_id error_code message h =
     (let p = append_uint32 (append_uint32 [] (last_id AND 0x7FFFFFFF)) error_code @ to_bytes message in
      push_frame \<lparr> f_length = of_nat (length p), f_type = GOAWAY, f_flags = 0, f_stream_id = 0, f_payload = p \<rparr> h)"

definition send_connection_preface :: "Http2Handler \<Rightarrow> h2_result" where
  "send_connection_preface h = (Inr (), send_settings False h)"

definition send_rst_stream :: "u32 \<Rightarrow> u32 \<Rightarrow> Http2Handler \<Rightarrow> Http2Handler" where
  "send_rst_stream stream_id error_code h =
     push_frame \<lparr> f_length = 4, f_type = RST_STREAM, f_flags = 0, f_stream_id = stream_id,
                  f_payload = append_uint32 [] error_code \<rparr> h"

definition send_window_update :: "u32 \<Rightarrow> u32 \<Rightarrow> Http2Handler \<Rightarrow> Http2Handler" where
  "send_window_update stream_id increment h =
     push_frame \<lparr> f_length = 4, f_type = WINDOW_UPDATE, f_flags = 0, f_stream_id = stream_id,
                  f_payload = append_uint32 [] (increment AND 0x7FFFFFFF) \<rparr> h"

definition serialize_frame :: "Http2Frame \<Rightarrow> bytes" where
  "serialize_frame frame =
     (let len = f_length frame; sid = f_stream_id frame AND 0x7FFFFFFF in
      [ucast (drop_bit 16 len AND 0xFF), ucast (drop_bit 8 len AND 0xFF), ucast (len AND 0xFF),
       type_code (f_type frame), f_flags frame,
       ucast (drop_bit 24 sid AND 0xFF), ucast (drop_bit 16 sid AND 0xFF), ucast (drop_bit 8 sid AND 0xFF),
       ucast (sid AND 0xFF)] @ f_payload frame)"

section \<open>Receiving\<close>

text \<open>A connection error: a GOAWAY frame and the error.\<close>

definition goaway_error :: "u32 \<Rightarrow> string \<Rightarrow> h2_error \<Rightarrow> Http2Handler \<Rightarrow> h2_result" where
  "goaway_error error_code message e h = (Inl e, send_goaway (last_stream_id h) error_code message h)"

text \<open>The loop over the streams when the initial window changes: it stops at the first overflow.\<close>

fun adjust_windows :: "int \<Rightarrow> (u32 \<times> Http2Stream) list \<Rightarrow> bool \<times> (u32 \<times> Http2Stream) list" where
  "adjust_windows delta [] = (True, [])"
| "adjust_windows delta ((sid, s) # rest) =
     (let s = s\<lparr>s_send_window := s_send_window s + delta\<rparr> in
      if s_send_window s > MAX_WINDOW then (False, (sid, s) # rest)
      else let (ok, rest) = adjust_windows delta rest in (ok, (sid, s) # rest))"

definition be16 :: "u8 \<Rightarrow> u8 \<Rightarrow> u16" where
  "be16 b0 b1 = push_bit 8 (ucast b0) OR ucast b1"

definition be32 :: "u8 \<Rightarrow> u8 \<Rightarrow> u8 \<Rightarrow> u8 \<Rightarrow> u32" where
  "be32 b0 b1 b2 b3 =
     push_bit 24 (ucast b0) OR push_bit 16 (ucast b1) OR push_bit 8 (ucast b2) OR ucast b3"

definition apply_setting :: "u16 \<Rightarrow> u32 \<Rightarrow> Http2Handler \<Rightarrow> h2_result" where
  "apply_setting ident val h =
     (if ident = 0x2 then
        (if val > 1 then goaway_error 0x1 ''ENABLE_PUSH must be 0 or 1'' protocol_error h else (Inr (), h))
      else if ident = 0x4 then
        (if val > word_of_int MAX_WINDOW then
           goaway_error 0x3 ''INITIAL_WINDOW_SIZE exceeds 2^31-1'' protocol_error h
         else
           let delta = uint val - uint (peer_initial_window_size h);
               (ok, ss) = adjust_windows delta (streams h);
               h = h\<lparr>streams := ss\<rparr>
           in if \<not> ok then goaway_error 0x3 ''stream SEND window overflow on SETTINGS'' protocol_error h
              else (Inr (), h\<lparr>peer_initial_window_size := val\<rparr>))
      else if ident = 0x5 then
        (if val < MIN_MAX_FRAME_SIZE \<or> val > MAX_ALLOWED_FRAME_SIZE then
           goaway_error 0x1 ''MAX_FRAME_SIZE out of range'' protocol_error h
         else (Inr (), h\<lparr>peer_max_frame_size := val\<rparr>))
      else if ident = 0x1 then (Inr (), h\<lparr>peer_header_table_size := val\<rparr>)
      else (Inr (), h))"

fun settings_loop :: "bytes \<Rightarrow> Http2Handler \<Rightarrow> h2_result" where
  "settings_loop (b0 # b1 # b2 # b3 # b4 # b5 # rest) h =
     (case apply_setting (be16 b0 b1) (be32 b2 b3 b4 b5) h of
        (Inl e, h) \<Rightarrow> (Inl e, h)
      | (Inr _, h) \<Rightarrow> settings_loop rest h)"
| "settings_loop _ h = (Inr (), h)"

definition handle_settings :: "Http2Frame \<Rightarrow> Http2Handler \<Rightarrow> h2_result" where
  "handle_settings frame h =
     (if f_stream_id frame \<noteq> 0 then goaway_error 0x1 ''SETTINGS with non-zero stream ID'' protocol_error h
      else if has_flag frame HTTP2_FLAG_ACK then
        (if f_payload frame \<noteq> [] then goaway_error 0x6 ''SETTINGS ACK with payload'' protocol_error h else (Inr (), h))
      else if length (f_payload frame) mod 6 \<noteq> 0 then
        goaway_error 0x6 ''SETTINGS length not a multiple of 6'' protocol_error h
      else
        case settings_loop (f_payload frame) h of
          (Inl e, h) \<Rightarrow> (Inl e, h)
        | (Inr _, h) \<Rightarrow> (Inr (), send_settings True (h\<lparr>peer_settings_received := True\<rparr>)))"

definition handle_ping :: "Http2Frame \<Rightarrow> Http2Handler \<Rightarrow> h2_result" where
  "handle_ping frame h =
     (if has_flag frame HTTP2_FLAG_ACK then (Inr (), h)
      else
        let opaque_data =
              (if length (f_payload frame) \<ge> 8
               then foldl (\<lambda>acc b. push_bit 8 acc OR ucast b) 0 (take 8 (f_payload frame)) else 0)
        in (Inr (), send_ping True opaque_data h))"

definition handle_goaway :: "Http2Frame \<Rightarrow> Http2Handler \<Rightarrow> h2_result" where
  "handle_goaway frame h = (Inl connection_aborted, h)"

definition get_or_create_stream :: "u32 \<Rightarrow> Http2Handler \<Rightarrow> Http2Handler" where
  "get_or_create_stream sid h =
     (case map_of (streams h) sid of
        Some _ \<Rightarrow> h
      | None \<Rightarrow>
          h\<lparr>streams := AList.update sid
              \<lparr> s_id = sid, s_state = IDLE, request_headers = Map.empty, request_body = [],
                s_send_window = uint (peer_initial_window_size h), s_recv_window = uint DEFAULT_INITIAL_WINDOW_SIZE \<rparr>
              (streams h)\<rparr>)"

text \<open>The invocation of the application on a finished request, if one is installed.\<close>

definition invoke_handler :: "u32 \<Rightarrow> Http2Handler \<Rightarrow> Http2Handler" where
  "invoke_handler sid h =
     (case map_of (streams h) sid of
        Some s \<Rightarrow> (if handler_set h then h\<lparr>handled := handled h @ [(request_headers s, request_body s, sid)]\<rparr> else h)
      | None \<Rightarrow> h)"

definition open_with :: "bytes \<Rightarrow> Http2Stream \<Rightarrow> Http2Stream" where
  "open_with block s = s\<lparr>request_headers := request_headers s ++ hpack_decode block, s_state := OPEN\<rparr>"

definition half_close :: "Http2Stream \<Rightarrow> Http2Stream" where
  "half_close s = s\<lparr>s_state := HALF_CLOSED_REMOTE\<rparr>"

text \<open>The part of a HEADERS frame after its block has been cut out of the payload.\<close>

definition headers_block :: "Http2Frame \<Rightarrow> bytes \<Rightarrow> Http2Handler \<Rightarrow> h2_result" where
  "headers_block frame header_block h =
     (let sid = f_stream_id frame;
          cbuf = (case continuation_buffer h sid of Some b \<Rightarrow> b | None \<Rightarrow> [])
      in if \<not> has_flag frame HTTP2_FLAG_END_HEADERS \<and> length cbuf + length header_block > MAX_HEADER_BLOCK then
           goaway_error 0xb ''Header block too large'' message_size
             (h\<lparr>continuation_buffer := (continuation_buffer h)(sid := None)\<rparr>)
         else
           let h = (if has_flag frame HTTP2_FLAG_END_HEADERS then upd_stream sid (open_with header_block) h
                    else h\<lparr>continuation_buffer := (continuation_buffer h)(sid \<mapsto> cbuf @ header_block)\<rparr>);
               h = (if has_flag frame HTTP2_FLAG_END_STREAM then invoke_handler sid (upd_stream sid half_close h) else h)
           in (Inr (), h\<lparr>last_stream_id := sid\<rparr>))"

text \<open>The header block of a HEADERS frame without its priority fields and padding.\<close>

definition header_block_of :: "Http2Frame \<Rightarrow> h2_error + bytes" where
  "header_block_of frame =
     (let payload = f_payload frame;
          prio = (if has_flag frame HTTP2_FLAG_PRIORITY then 5 else 0)
      in if has_flag frame HTTP2_FLAG_PADDED \<and> payload = [] then Inl protocol_error
         else
           let pad_length = (if has_flag frame HTTP2_FLAG_PADDED then unat (payload ! 0) else 0);
               header_block_offset = (if has_flag frame HTTP2_FLAG_PADDED then prio + 1 else prio)
           in if header_block_offset > length payload then Inl protocol_error
              else
                let payload_end = (length payload + 2 ^ 64 - pad_length) mod 2 ^ 64 in
                if payload_end < header_block_offset then Inl protocol_error
                else if payload_end > length payload then Inl out_of_bounds
                else Inr (take (payload_end - header_block_offset) (drop header_block_offset payload)))"

definition handle_headers :: "Http2Frame \<Rightarrow> Http2Handler \<Rightarrow> h2_result" where
  "handle_headers frame h =
     (let sid = f_stream_id frame in
      if sid = 0 then goaway_error 0x1 ''HEADERS with stream_id == 0'' protocol_error h
      else if map_of (streams h) sid = None \<and> length (streams h) \<ge> MAX_CONCURRENT_STREAMS then
        (Inr (), send_rst_stream sid 0x7 h)
      else
        let h = get_or_create_stream sid h in
        case header_block_of frame of
          Inl e \<Rightarrow> (Inl e, h)
        | Inr header_block \<Rightarrow> headers_block frame header_block h)"

definition handle_continuation :: "Http2Frame \<Rightarrow> Http2Handler \<Rightarrow> h2_result" where
  "handle_continuation frame h =
     (let sid = f_stream_id frame in
      case continuation_buffer h sid of
        None \<Rightarrow> goaway_error 0x1 ''Unexpected CONTINUATION frame'' protocol_error h
      | Some buf \<Rightarrow>
          (if length buf + length (f_payload frame) > MAX_HEADER_BLOCK then
             goaway_error 0xb ''Header block too large'' message_size
               (h\<lparr>continuation_buffer := (continuation_buffer h)(sid := None)\<rparr>)
           else if has_flag frame HTTP2_FLAG_END_HEADERS then
             (Inr (), (upd_stream sid (open_with (buf @ f_payload frame)) h)
                \<lparr>continuation_buffer := (continuation_buffer h)(sid := None)\<rparr>)
           else (Inr (), h\<lparr>continuation_buffer := (continuation_buffer h)(sid \<mapsto> buf @ f_payload frame)\<rparr>)))"

text \<open>The refill of a receive window: the new window and the increment to announce.\<close>

definition replenish :: "int \<Rightarrow> int \<times> u32 option" where
  "replenish window =
     (let target = uint DEFAULT_INITIAL_WINDOW_SIZE in
      if window < target div 2 then (let incr = word_of_int (target - window) in (window + uint incr, Some incr))
      else (window, None))"

definition announce :: "u32 \<Rightarrow> u32 option \<Rightarrow> Http2Handler \<Rightarrow> Http2Handler" where
  "announce stream_id incr h = (case incr of None \<Rightarrow> h | Some i \<Rightarrow> send_window_update stream_id i h)"

definition replenish_conn :: "Http2Handler \<Rightarrow> Http2Handler" where
  "replenish_conn h =
     (let (w, incr) = replenish (conn_recv_window h) in announce 0 incr (h\<lparr>conn_recv_window := w\<rparr>))"

definition replenish_stream :: "u32 \<Rightarrow> Http2Stream \<Rightarrow> Http2Handler \<Rightarrow> Http2Handler" where
  "replenish_stream sid s h =
     (let (w, incr) = replenish (s_recv_window s) in announce sid incr (upd_stream sid (\<lambda>s. s\<lparr>s_recv_window := w\<rparr>) h))"

text \<open>A DATA frame after its flow-control checks: the padding and the body.\<close>

definition data_body :: "Http2Frame \<Rightarrow> Http2Stream \<Rightarrow> Http2Handler \<Rightarrow> h2_result" where
  "data_body frame s h =
     (let sid = f_stream_id frame; payload = f_payload frame; padded = has_flag frame HTTP2_FLAG_PADDED in
      if padded \<and> payload = [] then (Inl protocol_error, h)
      else
        let pad = (if padded then unat (payload ! 0) else 0);
            data_offset = (if padded then 1 else 0)
        in if padded \<and> length payload < pad + 1 then (Inl protocol_error, h)
           else
             let data_end = length payload - pad;
                 add = (if data_end > data_offset then data_end - data_offset else 0)
             in if length (request_body s) + add > MAX_REQUEST_BODY then
                  (Inr (), send_rst_stream sid 0xb (erase_stream sid h))
                else
                  let s = s\<lparr>request_body := request_body s @ take (data_end - data_offset) (drop data_offset payload)\<rparr>;
                      h = upd_stream sid (\<lambda>_. s) h
                  in if has_flag frame HTTP2_FLAG_END_STREAM then
                       (Inr (), invoke_handler sid (upd_stream sid half_close h))
                     else (Inr (), replenish_stream sid s h))"

definition handle_data :: "Http2Frame \<Rightarrow> Http2Handler \<Rightarrow> h2_result" where
  "handle_data frame h =
     (let sid = f_stream_id frame in
      if sid = 0 then goaway_error 0x1 ''DATA with stream_id == 0'' protocol_error h
      else
        case map_of (streams h) sid of
          None \<Rightarrow> (Inr (), send_rst_stream sid 0x1 h)
        | Some s \<Rightarrow>
            (let fc_len = int (length (f_payload frame));
                 s = s\<lparr>s_recv_window := s_recv_window s - fc_len\<rparr>;
                 h = upd_stream sid (\<lambda>_. s) (h\<lparr>conn_recv_window := conn_recv_window h - fc_len\<rparr>)
             in if conn_recv_window h < 0 then
                  goaway_error 0x3 ''connection receive window underflow'' protocol_error h
                else if s_recv_window s < 0 then (Inr (), erase_stream sid (send_rst_stream sid 0x3 h))
                else data_body frame s (replenish_conn h)))"

definition handle_rst_stream :: "Http2Frame \<Rightarrow> Http2Handler \<Rightarrow> h2_result" where
  "handle_rst_stream frame h =
     (let sid = f_stream_id frame;
          h = erase_stream sid h;
          h = h\<lparr>continuation_buffer := (continuation_buffer h)(sid := None)\<rparr>;
          h = h\<lparr>rst_stream_count := rst_stream_count h + 1\<rparr>
      in if rst_stream_count h > MAX_RST_STREAMS then
           goaway_error 0xb ''Excessive RST_STREAM (rapid reset)'' connection_aborted h
         else (Inr (), h))"

definition window_increment :: "bytes \<Rightarrow> u32" where
  "window_increment p = be32 (p ! 0) (p ! 1) (p ! 2) (p ! 3) AND 0x7FFFFFFF"

definition handle_window_update :: "Http2Frame \<Rightarrow> Http2Handler \<Rightarrow> h2_result" where
  "handle_window_update frame h =
     (let p = f_payload frame; sid = f_stream_id frame in
      if length p \<noteq> 4 then goaway_error 0x6 ''WINDOW_UPDATE length != 4'' protocol_error h
      else
        let incr = window_increment p in
        if incr = 0 then
          (if sid = 0 then goaway_error 0x1 ''WINDOW_UPDATE increment 0'' protocol_error h
           else (Inr (), send_rst_stream sid 0x1 h))
        else if sid = 0 then
          (let h = h\<lparr>conn_send_window := conn_send_window h + uint incr\<rparr> in
           if conn_send_window h > MAX_WINDOW then
             goaway_error 0x3 ''connection SEND window overflow'' protocol_error h
           else (Inr (), h))
        else
          case map_of (streams h) sid of
            None \<Rightarrow> (Inr (), h)
          | Some s \<Rightarrow>
              (let s = s\<lparr>s_send_window := s_send_window s + uint incr\<rparr>;
                   h = upd_stream sid (\<lambda>_. s) h
               in if s_send_window s > MAX_WINDOW then (Inr (), erase_stream sid (send_rst_stream sid 0x3 h))
                  else (Inr (), h)))"

definition handle_frame :: "Http2Frame \<Rightarrow> Http2Handler \<Rightarrow> h2_result" where
  "handle_frame frame h =
     (case f_type frame of
        SETTINGS \<Rightarrow> handle_settings frame h
      | PING \<Rightarrow> handle_ping frame h
      | GOAWAY \<Rightarrow> handle_goaway frame h
      | HEADERS \<Rightarrow> handle_headers frame h
      | CONTINUATION \<Rightarrow> handle_continuation frame h
      | DATA \<Rightarrow> handle_data frame h
      | RST_STREAM \<Rightarrow> handle_rst_stream frame h
      | WINDOW_UPDATE \<Rightarrow> handle_window_update frame h
      | PRIORITY \<Rightarrow> (Inr (), h)
      | PUSH_PROMISE \<Rightarrow> (Inr (), h)
      | Unknown _ \<Rightarrow> (Inr (), h))"

text \<open>The observers.\<close>

definition stream_send_window :: "u32 \<Rightarrow> Http2Handler \<Rightarrow> int" where
  "stream_send_window sid h = (case map_of (streams h) sid of None \<Rightarrow> 0 | Some s \<Rightarrow> s_send_window s)"

end
