(* ===== verification/Http2_Spec.thy ===== *)
theory Http2_Spec
  imports Http2
begin

text \<open>
  The contract of the HTTP/2 handler: the limits and windows of every reachable handler, the accounting
  of flow-control credit, the delivery of interleaved requests to the application, the wire format,
  and the inputs on which the limits do not hold up.
\<close>

section \<open>What sending leaves unchanged\<close>

definition data_bytes :: "Http2Frame list \<Rightarrow> nat" where
  "data_bytes fs = sum_list (map (\<lambda>f. if f_type f = DATA then length (f_payload f) else 0) fs)"

lemma data_bytes_append [simp]: "data_bytes (fs @ gs) = data_bytes fs + data_bytes gs"
  by (simp add: data_bytes_def)

lemma data_bytes_Nil [simp]: "data_bytes [] = 0"
  by (simp add: data_bytes_def)

text \<open>The state of the handler apart from its frame queue.\<close>

definition core :: "Http2Handler \<Rightarrow> Http2Handler" where
  "core h = h\<lparr>pending_frames := []\<rparr>"

lemma core_push [simp]: "core (push_frame f h) = core h"
  by (simp add: core_def push_frame_def)

lemma core_sends [simp]:
  "core (send_goaway l c m h) = core h" "core (send_rst_stream s c h) = core h" "core (send_window_update s w h) = core h"
  "core (send_settings b h) = core h" "core (send_ping b q h) = core h" "core (announce s w' h) = core h"
  "core (snd (goaway_error c m e h)) = core h"
  by (simp_all add: send_goaway_def send_rst_stream_def send_window_update_def send_settings_def send_ping_def
      announce_def goaway_error_def Let_def split: option.splits)

lemma data_bytes_sends [simp]:
  "data_bytes (pending_frames (send_goaway l c m h)) = data_bytes (pending_frames h)"
  "data_bytes (pending_frames (send_rst_stream s c h)) = data_bytes (pending_frames h)"
  "data_bytes (pending_frames (send_window_update s w h)) = data_bytes (pending_frames h)"
  "data_bytes (pending_frames (send_settings b h)) = data_bytes (pending_frames h)"
  "data_bytes (pending_frames (send_ping b q h)) = data_bytes (pending_frames h)"
  "data_bytes (pending_frames (announce s w' h)) = data_bytes (pending_frames h)"
  "data_bytes (pending_frames (snd (goaway_error c m e h))) = data_bytes (pending_frames h)"
  by (simp_all add: send_goaway_def send_rst_stream_def send_window_update_def send_settings_def send_ping_def
      announce_def goaway_error_def push_frame_def data_bytes_def Let_def split: option.splits)

lemma fst_goaway [simp]: "fst (goaway_error c m e h) = Inl e"
  by (simp add: goaway_error_def)

lemma core_sel:
  assumes "core g = core h"
  shows "streams g = streams h"
    and "last_stream_id g = last_stream_id h"
    and "continuation_buffer g = continuation_buffer h"
    and "conn_send_window g = conn_send_window h"
    and "conn_recv_window g = conn_recv_window h"
    and "peer_initial_window_size g = peer_initial_window_size h"
    and "peer_max_frame_size g = peer_max_frame_size h"
    and "rst_stream_count g = rst_stream_count h"
    and "handler_set g = handler_set h"
    and "handled g = handled h"
proof -
  show "streams g = streams h" using arg_cong [OF assms, of streams] by (simp add: core_def)
  show "last_stream_id g = last_stream_id h" using arg_cong [OF assms, of last_stream_id] by (simp add: core_def)
  show "continuation_buffer g = continuation_buffer h" using arg_cong [OF assms, of continuation_buffer] by (simp add: core_def)
  show "conn_send_window g = conn_send_window h" using arg_cong [OF assms, of conn_send_window] by (simp add: core_def)
  show "conn_recv_window g = conn_recv_window h" using arg_cong [OF assms, of conn_recv_window] by (simp add: core_def)
  show "peer_initial_window_size g = peer_initial_window_size h" using arg_cong [OF assms, of peer_initial_window_size] by (simp add: core_def)
  show "peer_max_frame_size g = peer_max_frame_size h" using arg_cong [OF assms, of peer_max_frame_size] by (simp add: core_def)
  show "rst_stream_count g = rst_stream_count h" using arg_cong [OF assms, of rst_stream_count] by (simp add: core_def)
  show "handler_set g = handler_set h" using arg_cong [OF assms, of handler_set] by (simp add: core_def)
  show "handled g = handled h" using arg_cong [OF assms, of handled] by (simp add: core_def)
qed

lemmas rst_sel [simp] = core_sel [OF core_sends(2)]
lemmas announce_sel [simp] = core_sel [OF core_sends(6)]
lemmas settings_sel [simp] = core_sel [OF core_sends(4)]
lemmas ping_sel [simp] = core_sel [OF core_sends(5)]
lemmas sent_goaway_sel [simp] = core_sel [OF core_sends(1)]
lemmas goaway_sel [simp] = core_sel [OF core_sends(7)]

section \<open>The stream table\<close>

definition table_all :: "(u32 \<Rightarrow> Http2Stream \<Rightarrow> bool) \<Rightarrow> (u32 \<times> Http2Stream) list \<Rightarrow> bool" where
  "table_all P ss \<longleftrightarrow> distinct (map fst ss) \<and> (\<forall>(k, s) \<in> set ss. P k s)"

lemma map_entry_keys [simp]: "map fst (AList.map_entry k f ss) = map fst ss"
  by (induction ss) auto

lemma length_map_entry [simp]: "length (AList.map_entry k f ss) = length ss"
  by (induction ss) auto

lemma table_lookup: "table_all P ss \<Longrightarrow> map_of ss k = Some s \<Longrightarrow> P k s"
  by (auto simp: table_all_def dest: map_of_SomeD)

lemma set_map_entry: "(j, t) \<in> set (AList.map_entry k f ss) \<Longrightarrow> distinct (map fst ss) \<Longrightarrow>
    (j, t) \<in> set ss \<and> j \<noteq> k \<or> (\<exists>s. j = k \<and> t = f s \<and> map_of ss k = Some s)"
  by (induction ss) (auto simp: image_iff split: if_splits)

lemma table_map_entry:
  "table_all P ss \<Longrightarrow> (\<And>s. map_of ss k = Some s \<Longrightarrow> P k (f s)) \<Longrightarrow> table_all P (AList.map_entry k f ss)"
  by (auto simp: table_all_def dest!: set_map_entry)

lemma table_delete: "table_all P ss \<Longrightarrow> table_all P (AList.delete k ss)"
  by (auto simp: table_all_def AList.delete_eq distinct_map intro: inj_on_subset)

lemma update_fresh: "map_of ss k = None \<Longrightarrow> AList.update k v ss = ss @ [(k, v)]"
  by (induction ss) (auto split: if_splits)

lemma length_update_fresh: "map_of ss k = None \<Longrightarrow> length (AList.update k v ss) = Suc (length ss)"
  by (simp add: update_fresh)

lemma table_update: "table_all P ss \<Longrightarrow> map_of ss k = None \<Longrightarrow> P k v \<Longrightarrow> table_all P (AList.update k v ss)"
  by (auto simp: table_all_def update_fresh map_of_eq_None_iff)

lemma length_delete: "length (AList.delete k ss) \<le> length ss"
  by (simp add: AList.delete_eq)

lemma adjust_keys [simp]: "map fst (snd (adjust_windows d ss)) = map fst ss"
  by (induction d ss rule: adjust_windows.induct) (auto simp: Let_def case_prod_unfold)

lemma adjust_key_set [simp]: "fst ` set (snd (adjust_windows d ss)) = fst ` set ss"
  by (metis adjust_keys set_map)

lemma table_adjust:
  assumes "table_all P ss" and "\<And>k s. P k s \<Longrightarrow> P k (s\<lparr>s_send_window := s_send_window s + d\<rparr>)"
  shows "table_all P (snd (adjust_windows d ss))"
  using assms(1)
proof (induction ss)
  case (Cons x ss)
  then show ?case using assms(2) by (cases x) (auto simp: table_all_def Let_def case_prod_unfold)
qed simp

section \<open>The invariant\<close>

text \<open>\<open>ok\<close> says that no operation has failed on the connection so far; the windows are bounded only then.\<close>

definition stream_ok :: "bool \<Rightarrow> u32 \<Rightarrow> Http2Stream \<Rightarrow> bool" where
  "stream_ok ok sid s \<longleftrightarrow>
     sid \<noteq> 0 \<and> s_id s = sid \<and> length (request_body s) \<le> MAX_REQUEST_BODY
     \<and> (ok \<longrightarrow> 0 \<le> s_recv_window s \<and> s_recv_window s \<le> 65535 \<and> s_send_window s \<le> MAX_WINDOW)"

definition h2_inv :: "bool \<Rightarrow> Http2Handler \<Rightarrow> bool" where
  "h2_inv ok h \<longleftrightarrow>
     table_all (stream_ok ok) (streams h) \<and> length (streams h) \<le> MAX_CONCURRENT_STREAMS
     \<and> (\<forall>sid b. continuation_buffer h sid = Some b \<longrightarrow> length b \<le> MAX_HEADER_BLOCK)
     \<and> MIN_MAX_FRAME_SIZE \<le> peer_max_frame_size h \<and> peer_max_frame_size h \<le> MAX_ALLOWED_FRAME_SIZE
     \<and> uint (peer_initial_window_size h) \<le> MAX_WINDOW \<and> 0 \<le> conn_send_window h
     \<and> (ok \<longrightarrow> conn_send_window h \<le> MAX_WINDOW \<and> 0 \<le> conn_recv_window h \<and> conn_recv_window h \<le> 65535)"

lemma h2_inv_core: assumes "core g = core h" shows "h2_inv ok g = h2_inv ok h"
  unfolding h2_inv_def core_sel [OF assms] ..

lemmas h2_inv_sends [simp] = core_sends [THEN h2_inv_core] core_push [THEN h2_inv_core]

lemma table_weaken: "table_all (stream_ok ok) ss \<Longrightarrow> table_all (stream_ok False) ss"
  by (auto simp: table_all_def stream_ok_def)

lemma inv_weaken: "h2_inv ok h \<Longrightarrow> h2_inv False h"
  by (auto simp: h2_inv_def dest: table_weaken)

lemma inv_upd:
  "h2_inv ok h \<Longrightarrow> (\<And>s. map_of (streams h) sid = Some s \<Longrightarrow> stream_ok ok sid s \<Longrightarrow> stream_ok ok sid (f s)) \<Longrightarrow>
     h2_inv ok (upd_stream sid f h)"
  by (auto simp: h2_inv_def upd_stream_def intro!: table_map_entry dest: table_lookup)

lemma inv_erase: "h2_inv ok h \<Longrightarrow> h2_inv ok (erase_stream sid h)"
  using length_delete [of sid "streams h"] by (simp add: h2_inv_def erase_stream_def table_delete)

lemma delete_map_entry [simp]: "AList.delete k (AList.map_entry k f ss) = AList.delete k ss"
  by (induction ss) auto

lemma erase_upd [simp]: "erase_stream sid (upd_stream sid f h) = erase_stream sid h"
  by (simp add: erase_stream_def upd_stream_def)

lemma inv_create:
  assumes "h2_inv ok h" "sid \<noteq> 0" "map_of (streams h) sid \<noteq> None \<or> length (streams h) < MAX_CONCURRENT_STREAMS"
  shows "h2_inv ok (get_or_create_stream sid h)"
  using assms
  by (auto simp: h2_inv_def get_or_create_stream_def stream_ok_def DEFAULT_INITIAL_WINDOW_SIZE_def length_update_fresh
      intro!: table_update split: option.splits)

lemma inv_cont:
  "h2_inv ok h \<Longrightarrow> length b \<le> MAX_HEADER_BLOCK \<Longrightarrow> h2_inv ok (h\<lparr>continuation_buffer := (continuation_buffer h)(sid \<mapsto> b)\<rparr>)"
  "h2_inv ok h \<Longrightarrow> h2_inv ok (h\<lparr>continuation_buffer := (continuation_buffer h)(sid := None)\<rparr>)"
  by (simp_all add: h2_inv_def)

lemma inv_misc [simp]:
  "h2_inv ok (h\<lparr>last_stream_id := x\<rparr>) = h2_inv ok h" "h2_inv ok (h\<lparr>handled := y\<rparr>) = h2_inv ok h"
  "h2_inv ok (h\<lparr>peer_settings_received := z\<rparr>) = h2_inv ok h" "h2_inv ok (h\<lparr>rst_stream_count := n\<rparr>) = h2_inv ok h"
  "h2_inv ok (h\<lparr>peer_header_table_size := m\<rparr>) = h2_inv ok h" "h2_inv ok (h\<lparr>pending_frames := q\<rparr>) = h2_inv ok h"
  by (simp_all add: h2_inv_def)

lemma inv_invoke [simp]: "h2_inv ok (invoke_handler sid h) = h2_inv ok h"
  by (simp add: invoke_handler_def split: option.splits)

lemma stream_ok_updates [simp]:
  "stream_ok ok sid (s\<lparr>s_state := st\<rparr>) = stream_ok ok sid s" "stream_ok ok sid (half_close s) = stream_ok ok sid s"
  "stream_ok ok sid (open_with b s) = stream_ok ok sid s" "stream_ok ok sid (end_local s) = stream_ok ok sid s"
  by (simp_all add: stream_ok_def half_close_def open_with_def end_local_def)

definition keeps_inv :: "(Http2Handler \<Rightarrow> h2_result) \<Rightarrow> bool" where
  "keeps_inv f \<longleftrightarrow> (\<forall>ok h. h2_inv ok h \<longrightarrow> h2_inv (ok \<and> fst (f h) = Inr ()) (snd (f h)))"

lemma keeps_invI: "(\<And>ok h. h2_inv ok h \<Longrightarrow> h2_inv (ok \<and> fst (f h) = Inr ()) (snd (f h))) \<Longrightarrow> keeps_inv f"
  by (simp add: keeps_inv_def)

lemma keeps_invD: "keeps_inv f \<Longrightarrow> f h = (r, h') \<Longrightarrow> h2_inv ok h \<Longrightarrow> h2_inv (ok \<and> r = Inr ()) h'"
  by (metis fst_conv keeps_inv_def snd_conv)

subsection \<open>Settings\<close>

lemma adjust_ok: "adjust_windows d ss = (True, ss') \<Longrightarrow> table_all (stream_ok ok) ss \<Longrightarrow> table_all (stream_ok ok) ss'"
proof (induction ss arbitrary: ss')
  case (Cons x ss)
  obtain k t where x: "x = (k, t)" by force
  obtain b ys where r: "adjust_windows d ss = (b, ys)" by force
  have keys: "fst ` set ys = fst ` set ss" using adjust_key_set [of d ss] r by simp
  show ?case
    using Cons.prems Cons.IH [of ys] r keys x
    by (auto simp: table_all_def stream_ok_def Let_def split: if_splits)
qed simp

lemma setting_keeps_inv: "keeps_inv (apply_setting ident val)"
proof (rule keeps_invI)
  fix ok h
  assume inv: "h2_inv ok h"
  obtain b ss where r: "adjust_windows (uint val - uint (peer_initial_window_size h)) (streams h) = (b, ss)" by force
  have len: "length ss = length (streams h)" using arg_cong [OF adjust_keys, of length] r by (metis length_map snd_conv)
  have weak: "table_all (stream_ok False) ss"
    using table_adjust [of "stream_ok False" "streams h" "uint val - uint (peer_initial_window_size h)"]
      table_weaken [of ok "streams h"] inv r by (simp add: h2_inv_def stream_ok_def)
  have full: "table_all (stream_ok ok) ss" if b
    using adjust_ok [of _ "streams h" ss ok] r that inv by (simp add: h2_inv_def)
  have val: "uint val \<le> MAX_WINDOW" if "\<not> word_of_int MAX_WINDOW < val"
    using that by (simp add: word_less_def MAX_WINDOW_def)
  have w: "h2_inv False (h\<lparr>streams := ss\<rparr>)" using inv_weaken [OF inv] weak len by (simp add: h2_inv_def)
  have f: "h2_inv ok (h\<lparr>streams := ss, peer_initial_window_size := val\<rparr>)" if b "\<not> word_of_int MAX_WINDOW < val"
    using inv full val len that by (simp add: h2_inv_def)
  have m: "h2_inv ok (h\<lparr>peer_max_frame_size := val\<rparr>)" if "MIN_MAX_FRAME_SIZE \<le> val" "val \<le> MAX_ALLOWED_FRAME_SIZE"
    using inv that by (simp add: h2_inv_def)
  show "h2_inv (ok \<and> fst (apply_setting ident val h) = Inr ()) (snd (apply_setting ident val h))"
    using inv inv_weaken [OF inv] by (simp add: apply_setting_def Let_def r w f m not_less)
qed

lemma settings_loop_keeps_inv: "keeps_inv (settings_loop p)"
proof (rule keeps_invI)
  fix ok h
  assume "h2_inv ok h"
  then show "h2_inv (ok \<and> fst (settings_loop p h) = Inr ()) (snd (settings_loop p h))"
  proof (induction p h arbitrary: ok rule: settings_loop.induct)
    case (1 b0 b1 b2 b3 b4 b5 rest h)
    obtain r h' where r: "apply_setting (be16 b0 b1) (be32 b2 b3 b4 b5) h = (r, h')" by force
    have k: "h2_inv (ok \<and> r = Inr ()) h'" using keeps_invD [OF setting_keeps_inv r "1.prems"] .
    show ?case
    proof (cases r)
      case (Inl e)
      then show ?thesis using k r by simp
    next
      case (Inr u)
      then show ?thesis using k r "1.IH" [of r h' u ok] by simp
    qed
  qed simp_all
qed

lemma handle_settings_keeps_inv: "keeps_inv (handle_settings f)"
proof (rule keeps_invI)
  fix ok h
  assume inv: "h2_inv ok h"
  obtain r h' where r: "settings_loop (f_payload f) h = (r, h')" by force
  have "h2_inv (ok \<and> r = Inr ()) h'" using keeps_invD [OF settings_loop_keeps_inv r inv] .
  then show "h2_inv (ok \<and> fst (handle_settings f h) = Inr ()) (snd (handle_settings f h))"
    using r inv inv_weaken [OF inv] by (cases r) (auto simp: handle_settings_def)
qed

subsection \<open>Headers\<close>

lemma headers_block_keeps_inv: "keeps_inv (headers_block f blk)"
proof (rule keeps_invI)
  fix ok h
  assume inv: "h2_inv ok h"
  let ?sid = "f_stream_id f"
  let ?cbuf = "case continuation_buffer h ?sid of Some b \<Rightarrow> b | None \<Rightarrow> []"
  have o: "h2_inv ok (upd_stream ?sid (open_with blk) h)" by (rule inv_upd [OF inv]) simp
  have c: "h2_inv ok (h\<lparr>continuation_buffer := (continuation_buffer h)(?sid \<mapsto> ?cbuf @ blk)\<rparr>)"
    if "length ?cbuf + length blk \<le> MAX_HEADER_BLOCK" by (rule inv_cont(1) [OF inv]) (use that in simp)
  have d: "h2_inv ok (upd_stream ?sid half_close g)" if "h2_inv ok g" for g by (rule inv_upd [OF that]) simp
  show "h2_inv (ok \<and> fst (headers_block f blk h) = Inr ()) (snd (headers_block f blk h))"
    using inv_cont(2) [OF inv_weaken [OF inv], of ?sid] o c d [OF o] d [OF c]
    by (simp add: headers_block_def Let_def not_less)
qed

lemma handle_headers_keeps_inv: "keeps_inv (handle_headers f)"
proof (rule keeps_invI)
  fix ok h
  assume inv: "h2_inv ok h"
  let ?sid = "f_stream_id f" and ?P = "\<lambda>r. h2_inv (ok \<and> fst r = Inr ()) (snd r)"
  show "?P (handle_headers f h)"
  proof (cases "?sid = 0 \<or> map_of (streams h) ?sid = None \<and> length (streams h) \<ge> MAX_CONCURRENT_STREAMS")
    case True
    then show ?thesis using inv inv_weaken [OF inv] by (auto simp: handle_headers_def Let_def)
  next
    case False
    then have g: "h2_inv ok (get_or_create_stream ?sid h)" by (intro inv_create [OF inv]) auto
    have "?P (headers_block f blk (get_or_create_stream ?sid h))" for blk
      using headers_block_keeps_inv g by (simp add: keeps_inv_def)
    moreover have "?P (Inl e, get_or_create_stream ?sid h)" for e using inv_weaken [OF g] by simp
    ultimately show ?thesis using False by (auto simp: handle_headers_def Let_def split: sum.splits)
  qed
qed

lemma handle_continuation_keeps_inv: "keeps_inv (handle_continuation f)"
proof (rule keeps_invI)
  fix ok h
  assume inv: "h2_inv ok h"
  let ?sid = "f_stream_id f"
  have o: "h2_inv ok (upd_stream ?sid (open_with blk) h)" for blk by (rule inv_upd [OF inv]) simp
  have u: "(upd_stream ?sid g h)\<lparr>continuation_buffer := (continuation_buffer h)(?sid := None)\<rparr>
    = (upd_stream ?sid g h)\<lparr>continuation_buffer := (continuation_buffer (upd_stream ?sid g h))(?sid := None)\<rparr>" for g
    by (simp add: upd_stream_def)
  show "h2_inv (ok \<and> fst (handle_continuation f h) = Inr ()) (snd (handle_continuation f h))"
    using inv inv_weaken [OF inv]
    by (auto simp: handle_continuation_def Let_def u not_less intro!: inv_cont o split: option.splits)
qed

subsection \<open>Data\<close>

lemma replenish_bounds: "0 \<le> w \<Longrightarrow> w \<le> 65535 \<Longrightarrow> 32767 \<le> fst (replenish w) \<and> fst (replenish w) \<le> 65535"
proof -
  assume w: "0 \<le> w" "w \<le> 65535"
  have "uint (word_of_int (65535 - w) :: u32) = 65535 - w"
    using w by (simp only: uint_word_of_int) simp
  then show ?thesis using w by (simp add: replenish_def Let_def DEFAULT_INITIAL_WINDOW_SIZE_def)
qed

lemma inv_replenish_conn:
  assumes "h2_inv ok h" "0 \<le> w" "ok \<longrightarrow> w \<le> 65535"
  shows "h2_inv ok (replenish_conn (h\<lparr>conn_recv_window := w\<rparr>))"
  using assms replenish_bounds [of w] by (auto simp: replenish_conn_def h2_inv_def case_prod_unfold Let_def)

lemma inv_replenish_stream:
  assumes "h2_inv ok h" "stream_ok ok sid s"
  shows "h2_inv ok (replenish_stream sid s h)"
  using assms replenish_bounds [of "s_recv_window s"]
  by (auto simp: replenish_stream_def Let_def case_prod_unfold stream_ok_def intro!: inv_upd)

lemma data_body_keeps_inv:
  assumes inv: "h2_inv ok h" and s: "stream_ok ok (f_stream_id f) s"
  shows "h2_inv (ok \<and> fst (data_body f s h) = Inr ()) (snd (data_body f s h))"
proof -
  let ?sid = "f_stream_id f"
  have t: "stream_ok ok ?sid (s\<lparr>request_body := request_body s @ b\<rparr>)"
    if "length (request_body s) + length b \<le> MAX_REQUEST_BODY" for b
    using s that by (simp add: stream_ok_def)
  then have u: "h2_inv ok (upd_stream ?sid (\<lambda>_. s\<lparr>request_body := request_body s @ b\<rparr>) h)"
    if "length (request_body s) + length b \<le> MAX_REQUEST_BODY" for b by (intro inv_upd [OF inv]) (use that in simp)
  have d: "h2_inv ok (upd_stream ?sid half_close g)" if "h2_inv ok g" for g by (rule inv_upd [OF that]) simp
  have v: "h2_inv ok (upd_stream ?sid (\<lambda>_. s) h)" by (rule inv_upd [OF inv]) (use s in simp)
  show ?thesis
    using inv inv_weaken [OF inv] inv_erase [OF inv, of ?sid]
    by (auto simp: data_body_def Let_def not_less intro!: u d t inv_replenish_stream v s)
qed

lemma upd_conn: "upd_stream sid f (h\<lparr>conn_recv_window := w\<rparr>) = (upd_stream sid f h)\<lparr>conn_recv_window := w\<rparr>"
  by (simp add: upd_stream_def)

lemma handle_data_keeps_inv: "keeps_inv (handle_data f)"
proof (rule keeps_invI)
  fix ok h
  assume inv: "h2_inv ok h"
  let ?sid = "f_stream_id f" and ?P = "\<lambda>r. h2_inv (ok \<and> fst r = Inr ()) (snd r)"
  show "?P (handle_data f h)"
  proof (cases "?sid = 0 \<or> map_of (streams h) ?sid = None")
    case True
    then show ?thesis using inv inv_weaken [OF inv] by (auto simp: handle_data_def Let_def)
  next
    case False
    then obtain s where s: "map_of (streams h) ?sid = Some s" "?sid \<noteq> 0" by auto
    let ?len = "int (length (f_payload f))"
    define t where "t = s\<lparr>s_recv_window := s_recv_window s - ?len\<rparr>"
    define g where "g = upd_stream ?sid (\<lambda>_. t) h"
    have s_ok: "stream_ok ok ?sid s" using inv s by (auto simp: h2_inv_def dest: table_lookup)
    have g_weak: "h2_inv False (g\<lparr>conn_recv_window := w\<rparr>)" for w
    proof -
      have "h2_inv False g"
        unfolding g_def by (rule inv_upd [OF inv_weaken [OF inv]]) (use s_ok in \<open>auto simp: stream_ok_def t_def\<close>)
      then show ?thesis by (simp add: h2_inv_def)
    qed
    have s_full: "stream_ok ok ?sid t" if "0 \<le> s_recv_window t"
      using s_ok that by (auto simp: stream_ok_def t_def)
    have g_full: "h2_inv ok g" if "0 \<le> s_recv_window t"
      unfolding g_def by (rule inv_upd [OF inv]) (use s_full that in simp)
    have c: "conn_recv_window h - ?len \<le> 65535" if ok using inv that by (simp add: h2_inv_def)
    define k where "k = g\<lparr>conn_recv_window := conn_recv_window h - ?len\<rparr>"
    have e: "handle_data f h =
      (if conn_recv_window h - ?len < 0 then goaway_error 0x3 ''connection receive window underflow'' protocol_error k
       else if s_recv_window t < 0 then (Inr (), erase_stream ?sid (send_rst_stream ?sid 0x3 k))
       else data_body f t (replenish_conn k))"
      using s by (simp add: handle_data_def Let_def upd_conn k_def g_def t_def)
    have er: "h2_inv ok (erase_stream ?sid k)" if "0 \<le> conn_recv_window h - ?len"
    proof -
      have "erase_stream ?sid k = (erase_stream ?sid h)\<lparr>conn_recv_window := conn_recv_window h - ?len\<rparr>"
        by (simp add: k_def g_def erase_stream_def upd_stream_def)
      then show ?thesis using inv_erase [OF inv, of ?sid] c that by (simp add: h2_inv_def)
    qed
    have core_er: "core (erase_stream ?sid (send_rst_stream ?sid 0x3 k)) = core (erase_stream ?sid k)"
      by (simp add: erase_stream_def core_def send_rst_stream_def push_frame_def)
    have db: "?P (data_body f t (replenish_conn k))" if "0 \<le> conn_recv_window h - ?len" "0 \<le> s_recv_window t"
      using data_body_keeps_inv [OF _ s_full] inv_replenish_conn [OF g_full] c that by (simp add: k_def)
    show ?thesis
      using g_weak er db h2_inv_core [OF core_er] by (auto simp: e k_def not_less)
  qed
qed

subsection \<open>The other frames and the sending side\<close>

lemma handle_rst_stream_keeps_inv: "keeps_inv (handle_rst_stream f)"
proof (rule keeps_invI)
  fix ok h
  assume inv: "h2_inv ok h"
  have "h2_inv ok ((erase_stream (f_stream_id f) h)
      \<lparr>continuation_buffer := (continuation_buffer (erase_stream (f_stream_id f) h))(f_stream_id f := None)\<rparr>)"
    by (intro inv_cont inv_erase inv)
  then show "h2_inv (ok \<and> fst (handle_rst_stream f h) = Inr ()) (snd (handle_rst_stream f h))"
    using inv_weaken by (auto simp: handle_rst_stream_def Let_def)
qed

lemma handle_window_update_keeps_inv: "keeps_inv (handle_window_update f)"
proof (rule keeps_invI)
  fix ok h
  assume inv: "h2_inv ok h"
  let ?sid = "f_stream_id f" and ?P = "\<lambda>r. h2_inv (ok \<and> fst r = Inr ()) (snd r)"
  define i where "i = window_increment (f_payload f)"
  have c: "?P (if conn_send_window h + uint i > MAX_WINDOW
      then goaway_error 0x3 m protocol_error (h\<lparr>conn_send_window := conn_send_window h + uint i\<rparr>)
      else (Inr (), h\<lparr>conn_send_window := conn_send_window h + uint i\<rparr>))" for m
    using inv inv_weaken [OF inv] by (auto simp: h2_inv_def)
  have st: "?P (if s_send_window s + uint i > MAX_WINDOW
      then (Inr (), erase_stream ?sid (send_rst_stream ?sid 0x3 (upd_stream ?sid (\<lambda>_. s\<lparr>s_send_window := s_send_window s + uint i\<rparr>) h)))
      else (Inr (), upd_stream ?sid (\<lambda>_. s\<lparr>s_send_window := s_send_window s + uint i\<rparr>) h))"
    if "map_of (streams h) ?sid = Some s" for s
  proof -
    let ?g = "upd_stream ?sid (\<lambda>_. s\<lparr>s_send_window := s_send_window s + uint i\<rparr>) h"
    have ce: "core (erase_stream ?sid (send_rst_stream ?sid 0x3 ?g)) = core (erase_stream ?sid ?g)"
      by (simp add: erase_stream_def core_def send_rst_stream_def push_frame_def)
    have er: "h2_inv ok (erase_stream ?sid (send_rst_stream ?sid 0x3 ?g))"
      unfolding h2_inv_core [OF ce] using inv_erase [OF inv, of ?sid] by simp
    have "h2_inv ok ?g" if "s_send_window s + uint i \<le> MAX_WINDOW"
      by (rule inv_upd [OF inv]) (use that \<open>map_of (streams h) ?sid = Some s\<close> in \<open>auto simp: stream_ok_def\<close>)
    with er show ?thesis by auto
  qed
  show "?P (handle_window_update f h)"
    using inv inv_weaken [OF inv] c st
    by (auto simp: handle_window_update_def Let_def simp flip: i_def split: option.split)
qed

lemma handle_frame_keeps_inv: "keeps_inv (handle_frame f)"
proof -
  have "keeps_inv (handle_ping f)" "keeps_inv (handle_goaway f)" "keeps_inv (Pair (Inr ()))"
    by (auto simp: keeps_inv_def handle_ping_def handle_goaway_def Let_def intro: inv_weaken)
  then show ?thesis
    using handle_settings_keeps_inv [of f] handle_headers_keeps_inv [of f] handle_continuation_keeps_inv [of f]
      handle_data_keeps_inv [of f] handle_rst_stream_keeps_inv [of f] handle_window_update_keeps_inv [of f]
    by (auto simp: keeps_inv_def handle_frame_def split: Http2FrameType.split)
qed

lemma send_headers_keeps_inv: "keeps_inv (send_headers sid hs e)"
proof (rule keeps_invI)
  fix ok h
  assume inv: "h2_inv ok h"
  have "h2_inv ok (upd_stream sid end_local (push_frame fr h))" for fr by (rule inv_upd) (simp_all add: inv)
  then show "h2_inv (ok \<and> fst (send_headers sid hs e h) = Inr ()) (snd (send_headers sid hs e h))"
    using inv by (simp add: send_headers_def Let_def)
qed

lemma send_data_keeps_inv: "keeps_inv (send_data sid d e)"
proof (rule keeps_invI)
  fix ok h
  assume inv: "h2_inv ok h"
  let ?n = "int (length d)"
  let ?g = "upd_stream sid (\<lambda>s. s\<lparr>s_send_window := s_send_window s - ?n\<rparr>) (h\<lparr>conn_send_window := conn_send_window h - ?n\<rparr>)"
  have g: "h2_inv ok ?g" if "?n \<le> conn_send_window h"
    by (rule inv_upd) (use inv that in \<open>auto simp: h2_inv_def stream_ok_def\<close>)
  have "h2_inv ok (upd_stream sid end_local (push_frame fr ?g))" if "?n \<le> conn_send_window h" for fr
    by (rule inv_upd) (use g that in simp_all)
  then show "h2_inv (ok \<and> fst (send_data sid d e h) = Inr ()) (snd (send_data sid d e h))"
    using inv inv_weaken [OF inv] g by (auto simp: send_data_def Let_def)
qed

section \<open>Runs of a connection\<close>

text \<open>The credit a frame gives to the connection.\<close>

definition grant :: "Http2Frame \<Rightarrow> nat" where
  "grant f =
     (if f_type f = WINDOW_UPDATE \<and> f_stream_id f = 0 \<and> length (f_payload f) = 4
      then unat (window_increment (f_payload f)) else 0)"

text \<open>
  \<open>h2_run ok h g out\<close>: \<open>h\<close> is reached by some sequence of received frames and calls, with \<open>g\<close> bytes of credit
  granted by the peer on the connection and the frames \<open>out\<close> taken for the socket so far; \<open>ok\<close> as above.
\<close>

inductive h2_run :: "bool \<Rightarrow> Http2Handler \<Rightarrow> nat \<Rightarrow> Http2Frame list \<Rightarrow> bool" where
  start: "h2_run True (new_handler app) 0 []"
| receive: "h2_run ok h g out \<Longrightarrow> handle_frame f h = (r, h') \<Longrightarrow> h2_run (ok \<and> r = Inr ()) h' (g + grant f) out"
| headers: "h2_run ok h g out \<Longrightarrow> send_headers sid hs e h = (r, h') \<Longrightarrow> h2_run ok h' g out"
| data: "h2_run ok h g out \<Longrightarrow> send_data sid d e h = (r, h') \<Longrightarrow> h2_run ok h' g out"
| drain: "h2_run ok h g out \<Longrightarrow> drain_pending_frames h = (fs, h') \<Longrightarrow> h2_run ok h' g (out @ fs)"
| settings: "h2_run ok h g out \<Longrightarrow> h2_run ok (send_settings ack h) g out"
| ping: "h2_run ok h g out \<Longrightarrow> h2_run ok (send_ping ack q h) g out"
| goaway: "h2_run ok h g out \<Longrightarrow> h2_run ok (send_goaway l c m h) g out"
| preface: "h2_run ok h g out \<Longrightarrow> send_connection_preface h = (r, h') \<Longrightarrow> h2_run ok h' g out"

lemma new_handler_inv: "h2_inv True (new_handler app)"
  by (simp add: h2_inv_def new_handler_def table_all_def h2_constants)

lemma h2_run_inv: "h2_run ok h g out \<Longrightarrow> h2_inv ok h"
proof (induction rule: h2_run.induct)
  case (data ok h g out sid d e r h')
  then show ?case
    using keeps_invD [OF send_data_keeps_inv data.hyps(2) data.IH] by (auto simp: send_data_def Let_def split: if_splits)
next
  case (headers ok h g out sid hs e r h')
  then show ?case
    using keeps_invD [OF send_headers_keeps_inv headers.hyps(2) headers.IH] by (auto simp: send_headers_def Let_def)
qed (auto simp: new_handler_inv drain_pending_frames_def send_connection_preface_def
    intro: keeps_invD [OF handle_frame_keeps_inv])

text \<open>A sample run: the peer grants five bytes, and three are sent.\<close>

definition sample_update :: Http2Frame where
  "sample_update =
     \<lparr> f_length = 4, f_type = WINDOW_UPDATE, f_flags = 0, f_stream_id = 0, f_payload = [0, 0, 0, 5] \<rparr>"

definition sample_handler :: Http2Handler where
  "sample_handler = snd (send_data 1 [1, 2, 3] True (snd (handle_frame sample_update (new_handler True))))"

lemma sample_run: "h2_run True sample_handler 5 []"
proof -
  have i: "window_increment [0, 0, 0, 5] = 5" by (simp add: window_increment_def be32_def)
  then have f: "fst (handle_frame sample_update (new_handler True)) = Inr ()"
    by (simp add: handle_frame_def sample_update_def handle_window_update_def new_handler_def h2_constants)
  have g: "grant sample_update = 5" using i by (simp add: grant_def sample_update_def)
  have "h2_run True (snd (handle_frame sample_update (new_handler True))) 5 []"
    using receive [OF start [of True], of sample_update "Inr ()"] f g by (simp add: prod_eq_iff)
  then show ?thesis unfolding sample_handler_def by (rule data [where r = "fst (send_data 1 [1, 2, 3] True (snd (handle_frame sample_update (new_handler True))))"]) simp
qed

section \<open>Limits and windows\<close>

text \<open>C12: whatever frames arrive and whatever the application sends: the stream table has no duplicate, at most
  128 entries and no stream 0, no request body exceeds 8 MiB, no header block awaiting its continuation
  exceeds 64 KiB, and the peer's frame size and initial window are legal.\<close>

theorem h2_limits:
  assumes "h2_run ok h g out"
  shows "distinct (map fst (streams h)) \<and> length (streams h) \<le> 128
    \<and> (\<forall>(sid, s) \<in> set (streams h). sid \<noteq> 0 \<and> s_id s = sid \<and> length (request_body s) \<le> 8 * 1024 * 1024)
    \<and> (\<forall>b \<in> ran (continuation_buffer h). length b \<le> 64 * 1024)
    \<and> 2 ^ 14 \<le> peer_max_frame_size h \<and> peer_max_frame_size h \<le> 2 ^ 24 - 1
    \<and> uint (peer_initial_window_size h) \<le> 2 ^ 31 - 1"
proof -
  have "\<forall>(sid, s) \<in> set (streams h). stream_ok ok sid s" "distinct (map fst (streams h))"
    using h2_run_inv [OF assms] by (auto simp: h2_inv_def table_all_def)
  then show ?thesis
    using h2_run_inv [OF assms] by (auto simp: h2_inv_def stream_ok_def h2_constants ran_def)
qed

theorem h2_limits_witness:
  "h2_run True sample_handler 5 [] \<and> length (streams sample_handler) \<le> 128 \<and> 2 ^ 14 \<le> peer_max_frame_size sample_handler"
  using h2_limits [OF sample_run] sample_run by blast

text \<open>C35: as long as no operation has failed, all flow-control windows are within their legal ranges: no window
  exceeds \<open>2^31 - 1\<close>, and no receive window is negative or above the size that was announced.\<close>

theorem h2_windows:
  assumes "h2_run True h g out"
  shows "0 \<le> conn_send_window h \<and> conn_send_window h \<le> 2 ^ 31 - 1
    \<and> 0 \<le> conn_recv_window h \<and> conn_recv_window h \<le> 65535
    \<and> (\<forall>(sid, s) \<in> set (streams h). 0 \<le> s_recv_window s \<and> s_recv_window s \<le> 65535 \<and> s_send_window s \<le> 2 ^ 31 - 1)"
proof -
  have "\<forall>(sid, s) \<in> set (streams h). stream_ok True sid s"
    using h2_run_inv [OF assms] by (auto simp: h2_inv_def table_all_def)
  then show ?thesis using h2_run_inv [OF assms] by (auto simp: h2_inv_def stream_ok_def h2_constants)
qed

theorem h2_windows_witness:
  "h2_run True sample_handler 5 [] \<and> 0 \<le> conn_send_window sample_handler \<and> conn_recv_window sample_handler \<le> 65535"
  using h2_windows [OF sample_run] sample_run by blast

section \<open>Credit\<close>

definition send_side :: "Http2Handler \<Rightarrow> nat \<times> int" where
  "send_side h = (data_bytes (pending_frames h), conn_send_window h)"

lemma send_side_core [simp]:
  "send_side (send_goaway l c m h) = send_side h" "send_side (send_rst_stream s c h) = send_side h"
  "send_side (send_settings b h) = send_side h" "send_side (send_ping b q h) = send_side h"
  "send_side (announce s w' h) = send_side h" "send_side (snd (goaway_error c m e h)) = send_side h"
  by (simp_all add: send_side_def)

lemma send_side_updates [simp]:
  "send_side (upd_stream sid f h) = send_side h" "send_side (erase_stream sid h) = send_side h"
  "send_side (get_or_create_stream sid h) = send_side h" "send_side (invoke_handler sid h) = send_side h"
  "send_side (h\<lparr>streams := ss\<rparr>) = send_side h" "send_side (h\<lparr>continuation_buffer := cb\<rparr>) = send_side h"
  "send_side (h\<lparr>last_stream_id := x\<rparr>) = send_side h" "send_side (h\<lparr>rst_stream_count := n\<rparr>) = send_side h"
  "send_side (h\<lparr>conn_recv_window := w\<rparr>) = send_side h" "send_side (h\<lparr>peer_initial_window_size := i\<rparr>) = send_side h"
  "send_side (h\<lparr>peer_max_frame_size := m\<rparr>) = send_side h" "send_side (h\<lparr>peer_header_table_size := t\<rparr>) = send_side h"
  "send_side (h\<lparr>peer_settings_received := z\<rparr>) = send_side h"
  by (simp_all add: send_side_def upd_stream_def erase_stream_def get_or_create_stream_def invoke_handler_def
      split: option.splits)

lemma send_side_replenish [simp]:
  "send_side (replenish_conn h) = send_side h" "send_side (replenish_stream sid s h) = send_side h"
  by (simp_all add: replenish_conn_def replenish_stream_def case_prod_unfold Let_def)

lemma send_side_settings: "send_side (snd (settings_loop p h)) = send_side h"
proof (induction p h rule: settings_loop.induct)
  case (1 b0 b1 b2 b3 b4 b5 rest h)
  obtain r h' where r: "apply_setting (be16 b0 b1) (be32 b2 b3 b4 b5) h = (r, h')" by force
  have "send_side (snd (apply_setting ident val h)) = send_side h" for ident val
    by (simp add: apply_setting_def Let_def case_prod_unfold)
  then have "send_side h' = send_side h" using r by (metis snd_conv)
  then show ?case using "1.IH" [of r h'] r by (cases r) simp_all
qed simp_all

lemma send_side_handlers [simp]:
  "send_side (snd (handle_settings f h)) = send_side h" "send_side (snd (handle_ping f h)) = send_side h"
  "send_side (snd (handle_goaway f h)) = send_side h" "send_side (snd (handle_headers f h)) = send_side h"
  "send_side (snd (handle_continuation f h)) = send_side h" "send_side (snd (handle_data f h)) = send_side h"
  "send_side (snd (handle_rst_stream f h)) = send_side h"
proof -
  obtain r h' where r: "settings_loop (f_payload f) h = (r, h')" by force
  then show "send_side (snd (handle_settings f h)) = send_side h"
    using send_side_settings [of "f_payload f" h] by (cases r) (simp_all add: handle_settings_def)
  have "send_side (snd (headers_block f blk g)) = send_side g" for blk g
    by (simp add: headers_block_def Let_def)
  then show "send_side (snd (handle_headers f h)) = send_side h"
    by (simp add: handle_headers_def Let_def split: sum.split)
  have "send_side (snd (data_body f s g)) = send_side g" for s g
    by (simp add: data_body_def Let_def)
  then show "send_side (snd (handle_data f h)) = send_side h"
    by (simp add: handle_data_def Let_def split: option.split)
qed (simp_all add: handle_ping_def handle_goaway_def handle_continuation_def handle_rst_stream_def Let_def split: option.split)

lemma send_side_conn: "send_side (h\<lparr>conn_send_window := w\<rparr>) = (fst (send_side h), w)"
  by (simp add: send_side_def)

lemma handle_frame_credit:
  "send_side (snd (handle_frame f h)) = (fst (send_side h), snd (send_side h) + int (grant f))"
proof (cases "f_type f = WINDOW_UPDATE")
  case True
  have "conn_send_window h = snd (send_side h)" by (simp add: send_side_def)
  then show ?thesis
    using True
    by (auto simp: handle_frame_def handle_window_update_def grant_def Let_def send_side_conn split: option.split)
next
  case False
  then show ?thesis by (simp add: handle_frame_def grant_def split: Http2FrameType.split)
qed

lemma send_side_headers: "send_side (snd (send_headers sid hs e h)) = send_side h"
  by (simp add: send_headers_def Let_def) (simp add: send_side_def push_frame_def data_bytes_def)

lemma send_side_data:
  "send_data sid d e h = (r, h') \<Longrightarrow>
     r = Inr () \<and> int (length d) \<le> conn_send_window h
       \<and> send_side h' = (data_bytes (pending_frames h) + length d, conn_send_window h - int (length d))
     \<or> h' = h"
  by (auto simp: send_data_def Let_def split: if_splits)
    (simp_all add: send_side_def push_frame_def data_bytes_def upd_stream_def)

lemma h2_run_credit:
  "h2_run ok h g out \<Longrightarrow> conn_send_window h = 65535 + int g - int (data_bytes (out @ pending_frames h))"
proof (induction rule: h2_run.induct)
  case (start app)
  then show ?case by (simp add: new_handler_def DEFAULT_INITIAL_WINDOW_SIZE_def)
next
  case (receive ok h g out f r h')
  then show ?case using handle_frame_credit [of f h] by (simp add: send_side_def)
next
  case (headers ok h g out sid hs e r h')
  then show ?case using send_side_headers [of sid hs e h] by (simp add: send_side_def)
next
  case (data ok h g out sid d e r h')
  then show ?case using send_side_data [OF data.hyps(2)] by (auto simp: send_side_def)
next
  case (preface ok h g out r h')
  then show ?case using send_side_core(3) [of False h] by (auto simp: send_connection_preface_def)
qed (auto simp: drain_pending_frames_def)

text \<open>C8: flow control is kept towards the peer: the bytes in all DATA frames ever queued never exceed the initial
  window plus the credit the peer has granted on the connection, and the send window is exactly the rest.\<close>

theorem h2_credit:
  assumes "h2_run ok h g out"
  shows "data_bytes (out @ pending_frames h) \<le> 65535 + g
    \<and> conn_send_window h = int (65535 + g - data_bytes (out @ pending_frames h))"
proof -
  have "0 \<le> conn_send_window h" using h2_run_inv [OF assms] by (simp add: h2_inv_def)
  then show ?thesis using h2_run_credit [OF assms] by linarith
qed

theorem h2_credit_witness:
  "h2_run True sample_handler 5 [] \<and> data_bytes ([] @ pending_frames sample_handler) \<le> 65535 + 5
   \<and> conn_send_window sample_handler = int (65535 + 5 - data_bytes ([] @ pending_frames sample_handler))"
  using h2_credit [OF sample_run] sample_run by blast

end
