(* ===== verification/Http2_Requests.thy ===== *)
theory Http2_Requests
  imports Http2_Spec
begin

text \<open>
  Requests through the HTTP/2 handler: a request whose frames are interleaved with those of other streams
  reaches the application once and whole; the wire format of frames; the echo of pings; and three
  inputs that get past the handler's limits.
\<close>

section \<open>What the other streams leave unchanged\<close>

definition requests_of :: "u32 \<Rightarrow> Http2Handler \<Rightarrow> ((string \<rightharpoonup> string) \<times> bytes \<times> u32) list" where
  "requests_of sid h = filter (\<lambda>(_, _, k). k = sid) (handled h)"

text \<open>What concerns one stream: its request so far with its receive window, and the requests delivered.\<close>

definition view :: "u32 \<Rightarrow> Http2Handler \<Rightarrow>
    ((string \<rightharpoonup> string) \<times> bytes \<times> int) option \<times> ((string \<rightharpoonup> string) \<times> bytes \<times> u32) list \<times> bool" where
  "view sid h =
     (map_option (\<lambda>s. (request_headers s, request_body s, s_recv_window s)) (map_of (streams h) sid),
      requests_of sid h, handler_set h)"

lemma map_of_map_entry: "map_of (AList.map_entry k f ss) j = (if j = k then map_option f (map_of ss k) else map_of ss j)"
  by (induction ss) auto

lemma map_of_delete: "map_of (AList.delete k ss) j = (if j = k then None else map_of ss j)"
  by (simp add: AList.delete_conv')

lemma map_of_update: "map_of (AList.update k v ss) j = (if j = k then Some v else map_of ss j)"
  by (simp add: AList.update_conv')

lemma view_core: assumes "core g = core h" shows "view sid g = view sid h"
  unfolding view_def requests_of_def core_sel [OF assms] ..

lemmas view_sends [simp] = core_sends [THEN view_core] core_push [THEN view_core]

lemma view_fields [simp]:
  "view sid (h\<lparr>continuation_buffer := cb\<rparr>) = view sid h" "view sid (h\<lparr>last_stream_id := x\<rparr>) = view sid h"
  "view sid (h\<lparr>rst_stream_count := n\<rparr>) = view sid h" "view sid (h\<lparr>conn_recv_window := w\<rparr>) = view sid h"
  "view sid (h\<lparr>conn_send_window := w\<rparr>) = view sid h" "view sid (h\<lparr>peer_initial_window_size := i\<rparr>) = view sid h"
  "view sid (h\<lparr>peer_max_frame_size := m\<rparr>) = view sid h" "view sid (h\<lparr>peer_header_table_size := t\<rparr>) = view sid h"
  "view sid (h\<lparr>peer_settings_received := z\<rparr>) = view sid h"
  by (simp_all add: view_def requests_of_def)

lemma view_others [simp]:
  assumes "k \<noteq> sid"
  shows "view sid (upd_stream k f h) = view sid h" "view sid (erase_stream k h) = view sid h"
    "view sid (get_or_create_stream k h) = view sid h" "view sid (invoke_handler k h) = view sid h"
    "view sid (replenish_stream k s h) = view sid h"
proof -
  show upd: "view sid (upd_stream k f h) = view sid h" for f
    using assms by (simp add: view_def upd_stream_def map_of_map_entry requests_of_def)
  show "view sid (replenish_stream k s h) = view sid h"
    by (simp add: replenish_stream_def case_prod_unfold Let_def upd)
qed (use assms in \<open>simp_all add: view_def requests_of_def erase_stream_def get_or_create_stream_def invoke_handler_def
      map_of_delete map_of_update split: option.split\<close>)

lemma view_replenish [simp]: "view sid (replenish_conn h) = view sid h"
  by (simp add: replenish_conn_def case_prod_unfold Let_def)

lemma view_adjust: "view sid (h\<lparr>streams := snd (adjust_windows d (streams h))\<rparr>) = view sid h"
proof -
  have "map_option (\<lambda>s. (request_headers s, request_body s, s_recv_window s)) (map_of (snd (adjust_windows d ss)) sid)
      = map_option (\<lambda>s. (request_headers s, request_body s, s_recv_window s)) (map_of ss sid)" for ss
    by (induction d ss rule: adjust_windows.induct) (auto simp: Let_def case_prod_unfold)
  then show ?thesis by (simp add: view_def requests_of_def)
qed

lemma view_settings: "view sid (snd (settings_loop p h)) = view sid h"
proof (induction p h rule: settings_loop.induct)
  case (1 b0 b1 b2 b3 b4 b5 rest h)
  obtain r h' where r: "apply_setting (be16 b0 b1) (be32 b2 b3 b4 b5) h = (r, h')" by force
  have "view sid (snd (apply_setting ident val h)) = view sid h" for ident val
    by (simp add: apply_setting_def Let_def case_prod_unfold view_adjust)
  then have "view sid h' = view sid h" using r by (metis snd_conv)
  then show ?case using "1.IH" [of r h'] r by (cases r) simp_all
qed simp_all

lemma view_other_frame:
  assumes other: "f_stream_id f \<noteq> sid"
  shows "view sid (snd (handle_frame f h)) = view sid h"
proof -
  obtain r h' where r: "settings_loop (f_payload f) h = (r, h')" by force
  then have "view sid (snd (handle_settings f h)) = view sid h"
    using view_settings [of sid "f_payload f" h] by (cases r) (simp_all add: handle_settings_def)
  moreover have "view sid (snd (headers_block f blk g)) = view sid g" for blk g
    using other by (simp add: headers_block_def Let_def)
  then have "view sid (snd (handle_headers f h)) = view sid h"
    using other by (simp add: handle_headers_def Let_def split: sum.split)
  moreover have "view sid (snd (data_body f s g)) = view sid g" for s g
    using other by (simp add: data_body_def Let_def)
  then have "view sid (snd (handle_data f h)) = view sid h"
    using other by (simp add: handle_data_def Let_def split: option.split)
  moreover have "view sid (snd (handle_continuation f h)) = view sid h"
    "view sid (snd (handle_rst_stream f h)) = view sid h" "view sid (snd (handle_window_update f h)) = view sid h"
    "view sid (snd (handle_ping f h)) = view sid h" "view sid (snd (handle_goaway f h)) = view sid h"
    using other by (simp_all add: handle_continuation_def handle_rst_stream_def handle_window_update_def handle_ping_def
        handle_goaway_def Let_def split: option.split)
  ultimately show ?thesis by (simp add: handle_frame_def split: Http2FrameType.split)
qed

section \<open>The frames of one request\<close>

definition headers_frame :: "u32 \<Rightarrow> u8 \<Rightarrow> bytes \<Rightarrow> Http2Frame" where
  "headers_frame sid flags block =
     \<lparr> f_length = of_nat (length block), f_type = HEADERS, f_flags = flags, f_stream_id = sid, f_payload = block \<rparr>"

definition data_frame :: "u32 \<Rightarrow> u8 \<Rightarrow> bytes \<Rightarrow> Http2Frame" where
  "data_frame sid flags c =
     \<lparr> f_length = of_nat (length c), f_type = DATA, f_flags = flags, f_stream_id = sid, f_payload = c \<rparr>"

fun data_frames :: "u32 \<Rightarrow> bytes list \<Rightarrow> Http2Frame list" where
  "data_frames sid [] = []"
| "data_frames sid [c] = [data_frame sid HTTP2_FLAG_END_STREAM c]"
| "data_frames sid (c # cs) = data_frame sid 0 c # data_frames sid cs"

fun h2_receive :: "Http2Frame list \<Rightarrow> Http2Handler \<Rightarrow> h2_result" where
  "h2_receive [] h = (Inr (), h)"
| "h2_receive (f # fs) h = (case handle_frame f h of (Inl e, h) \<Rightarrow> (Inl e, h) | (Inr _, h) \<Rightarrow> h2_receive fs h)"

lemma receive_Cons:
  "h2_receive (f # fs) h = (Inr (), h') \<longleftrightarrow> (\<exists>g. handle_frame f h = (Inr (), g) \<and> h2_receive fs g = (Inr (), h'))"
  by (auto split: prod.splits sum.splits)

lemma plain_block:
  assumes "flags AND HTTP2_FLAG_PADDED = 0" "flags AND HTTP2_FLAG_PRIORITY = 0" "length block < 2 ^ 64"
  shows "header_block_of (headers_frame sid flags block) = Inr block"
  using assms by (simp add: header_block_of_def headers_frame_def has_flag_def)

lemma view_headers:
  assumes new: "map_of (streams h) sid = None" "length (streams h) < MAX_CONCURRENT_STREAMS" "sid \<noteq> 0"
    and "length block < 2 ^ 64"
    and r: "handle_frame (headers_frame sid HTTP2_FLAG_END_HEADERS block) h = (Inr (), h')"
  shows "view sid h' = (Some (hpack_decode block, [], 65535), requests_of sid h, handler_set h)"
proof -
  let ?f = "headers_frame sid HTTP2_FLAG_END_HEADERS block"
  have "header_block_of ?f = Inr block" by (rule plain_block) (use assms(4) in \<open>simp_all add: flag_defs\<close>)
  then have "h' = snd (headers_block ?f block (get_or_create_stream sid h))"
    using r new by (auto simp: handle_frame_def handle_headers_def headers_frame_def)
  then show ?thesis
    using new(1)
    by (simp add: headers_block_def headers_frame_def has_flag_def flag_defs upd_stream_def get_or_create_stream_def
        view_def requests_of_def map_of_map_entry map_of_update open_with_def DEFAULT_INITIAL_WINDOW_SIZE_def)
qed

lemma view_invoke:
  "map_of (streams h) sid = Some s \<Longrightarrow> handler_set h \<Longrightarrow>
     view sid (invoke_handler sid h) = (fst (view sid h), requests_of sid h @ [(request_headers s, request_body s, sid)], True)"
  by (simp add: invoke_handler_def view_def requests_of_def)

lemma lookup_upd [simp]: "map_of (streams (upd_stream sid f h)) sid = map_option f (map_of (streams h) sid)"
  by (simp add: upd_stream_def map_of_map_entry)

lemma lookup_replenish_conn [simp]: "streams (replenish_conn h) = streams h" "handler_set (replenish_conn h) = handler_set h"
  "handled (replenish_conn h) = handled h"
  by (simp_all add: replenish_conn_def case_prod_unfold Let_def)

lemma upd_sel [simp]: "handler_set (upd_stream sid f h) = handler_set h" "handled (upd_stream sid f h) = handled h"
  by (simp_all add: upd_stream_def)

lemma view_data:
  assumes v: "view sid h = (Some (hdr, body, w), q, True)" and "sid \<noteq> 0"
    and room: "int (length c) \<le> w" "length body + length c \<le> MAX_REQUEST_BODY"
    and r: "handle_frame (data_frame sid flags c) h = (Inr (), h')" and fl: "flags = 0 \<or> flags = HTTP2_FLAG_END_STREAM"
  shows "view sid h' =
    (if flags = 0 then (Some (hdr, body @ c, fst (replenish (w - int (length c)))), q, True)
     else (Some (hdr, body @ c, w - int (length c)), q @ [(hdr, body @ c, sid)], True))"
proof -
  obtain s where s: "map_of (streams h) sid = Some s" "request_headers s = hdr" "request_body s = body" "s_recv_window s = w"
    using v by (auto simp: view_def)
  have hs: "handler_set h" "requests_of sid h = q" using v by (simp_all add: view_def)
  let ?f = "data_frame sid flags c"
  define t where "t = s\<lparr>s_recv_window := w - int (length c)\<rparr>"
  define k where "k = replenish_conn (upd_stream sid (\<lambda>_. t) (h\<lparr>conn_recv_window := conn_recv_window h - int (length c)\<rparr>))"
  have fl': "has_flag ?f HTTP2_FLAG_PADDED = False" "has_flag ?f HTTP2_FLAG_END_STREAM = (flags \<noteq> 0)"
    using fl by (auto simp: has_flag_def data_frame_def flag_defs)
  have "h' = snd (data_body ?f t k)"
    using r s room(1) \<open>sid \<noteq> 0\<close>
    by (auto simp: handle_frame_def handle_data_def data_frame_def Let_def t_def k_def goaway_error_def split: if_splits)
  also have "\<dots> = (if flags = 0 then replenish_stream sid (t\<lparr>request_body := body @ c\<rparr>) (upd_stream sid (\<lambda>_. t\<lparr>request_body := body @ c\<rparr>) k)
      else invoke_handler sid (upd_stream sid half_close (upd_stream sid (\<lambda>_. t\<lparr>request_body := body @ c\<rparr>) k)))"
    unfolding data_body_def fl' using room(2) s by (simp add: t_def data_frame_def Let_def)
  finally have h': "h' = \<dots>" .
  have k: "map_of (streams k) sid = Some t" "handler_set k" "requests_of sid k = q"
    using s hs by (simp_all add: k_def requests_of_def upd_stream_def map_of_map_entry)
  show ?thesis
  proof (cases "flags = 0")
    case True
    then show ?thesis
      using k s by (simp add: h' replenish_stream_def case_prod_unfold Let_def) (simp add: view_def requests_of_def t_def)
  next
    case False
    then show ?thesis
      using k s by (simp add: h') (simp add: view_invoke, simp add: view_def requests_of_def t_def half_close_def)
  qed
qed

lemma view_others_only:
  "filter (\<lambda>f. f_stream_id f = sid) fs = [] \<Longrightarrow> h2_receive fs h = (Inr (), h') \<Longrightarrow> view sid h' = view sid h"
proof (induction fs arbitrary: h)
  case (Cons f fs)
  obtain g where g: "handle_frame f h = (Inr (), g)" "h2_receive fs g = (Inr (), h')"
    using Cons.prems(2) unfolding receive_Cons by blast
  have "f_stream_id f \<noteq> sid" using Cons.prems(1) by (auto split: if_splits)
  then show ?case using view_other_frame [of f sid h] Cons.IH [of g] Cons.prems(1) g by simp
qed simp

text \<open>The body of a request, however it is cut and interleaved.\<close>

lemma data_delivered:
  assumes "view sid h = (Some (hdr, body, w), q, True)" "32767 \<le> w" "w \<le> 65535" "sid \<noteq> 0"
    and "filter (\<lambda>f. f_stream_id f = sid) fs = data_frames sid cs" "cs \<noteq> []"
    and "\<forall>c \<in> set cs. length c \<le> 16384" "length body + length (concat cs) \<le> MAX_REQUEST_BODY"
    and "h2_receive fs h = (Inr (), h')"
  shows "requests_of sid h' = q @ [(hdr, body @ concat cs, sid)]"
  using assms
proof (induction fs arbitrary: h body w cs)
  case Nil
  then show ?case by (cases "(sid, cs)" rule: data_frames.cases) auto
next
  case (Cons f fs)
  obtain g where g: "handle_frame f h = (Inr (), g)" "h2_receive fs g = (Inr (), h')"
    using Cons.prems(9) unfolding receive_Cons by blast
  show ?case
  proof (cases "f_stream_id f = sid")
    case False
    then have "view sid g = view sid h" using view_other_frame [OF False, of h] g(1) by simp
    then show ?thesis using Cons.IH [of g body w cs] Cons.prems g(2) False by simp
  next
    case True
    note room = Cons.prems(2,3,7,8)
    show ?thesis
    proof (cases "(sid, cs)" rule: data_frames.cases)
      case (2 _ c)
      then have f: "f = data_frame sid HTTP2_FLAG_END_STREAM c" "filter (\<lambda>f. f_stream_id f = sid) fs = []"
        using Cons.prems(5) True by simp_all
      have "view sid g = (Some (hdr, body @ c, w - int (length c)), q @ [(hdr, body @ c, sid)], True)"
        using view_data [OF Cons.prems(1,4) _ _ g(1) [unfolded f(1)]] 2 room by (simp add: flag_defs)
      then show ?thesis using view_others_only [OF f(2) g(2)] 2 by (simp add: view_def)
    next
      case (3 _ c d ds)
      then have f: "f = data_frame sid 0 c" "filter (\<lambda>f. f_stream_id f = sid) fs = data_frames sid (d # ds)"
        using Cons.prems(5) True by simp_all
      have "view sid g = (Some (hdr, body @ c, fst (replenish (w - int (length c)))), q, True)"
        using view_data [OF Cons.prems(1,4) _ _ g(1) [unfolded f(1)]] 3 room by simp
      moreover have "0 \<le> w - int (length c)" "w - int (length c) \<le> 65535" using 3 room by simp_all
      ultimately show ?thesis
        using Cons.IH [of g "body @ c" "fst (replenish (w - int (length c)))" "d # ds"] f(2) g(2) Cons.prems(4) 3 room
          replenish_bounds [of "w - int (length c)"] by simp
    qed (use Cons.prems in simp)
  qed
qed

text \<open>C2: a request reaches the application exactly once and complete, with the headers and the body that were
  sent, when its frames arrive interleaved with any frames of other streams and of the connection.\<close>

theorem request_delivered:
  assumes "map_of (streams h) sid = None" "length (streams h) < 128" "sid \<noteq> 0" "handler_set h"
    and "\<forall>(k, v) \<in> set hs. length k < 2 ^ 32 \<and> length v < 2 ^ 32" "length (hpack_encode hs) < 2 ^ 24"
    and "filter (\<lambda>f. f_stream_id f = sid) fs = data_frames sid cs" "cs \<noteq> []"
    and "\<forall>c \<in> set cs. length c \<le> 16384" "length (concat cs) \<le> 8 * 1024 * 1024"
    and "h2_receive (headers_frame sid HTTP2_FLAG_END_HEADERS (hpack_encode hs) # fs) h = (Inr (), h')"
  shows "requests_of sid h' = requests_of sid h @ [(map_of (rev hs), concat cs, sid)]"
proof -
  obtain g where g: "handle_frame (headers_frame sid HTTP2_FLAG_END_HEADERS (hpack_encode hs)) h = (Inr (), g)"
    "h2_receive fs g = (Inr (), h')" using assms(11) unfolding receive_Cons by blast
  have d: "hpack_decode (hpack_encode hs) = map_of (rev hs)"
    using decode_loop_encode [OF assms(5), of Map.empty "[]"] by (simp add: hpack_decode_def)
  have "view sid g = (Some (map_of (rev hs), [], 65535), requests_of sid h, True)"
    using view_headers [OF _ _ _ _ g(1)] assms(1-4,6) d by (simp add: MAX_CONCURRENT_STREAMS_def)
  then show ?thesis
    using data_delivered [OF _ _ _ assms(3,7,8,9) _ g(2)] assms(10) by (simp add: MAX_REQUEST_BODY_def)
qed

lemma encode_method_get: "hpack_encode [('':method'', ''GET'')] = [0x82]"
proof -
  have "match_loop '':method'' ''GET'' 2 0 = (2, 2)" by (subst match_loop.simps) (simp add: STATIC_TABLE_def)
  then have "match_loop '':method'' ''GET'' 1 0 = (2, 2)"
    by (subst match_loop.simps) (simp add: STATIC_TABLE_def numeral_2_eq_2)
  then show ?thesis by (simp add: hpack_encode_def encode_header_def encode_integer_def)
qed

theorem request_delivered_witness:
  "\<exists>h'. h2_receive [headers_frame 1 HTTP2_FLAG_END_HEADERS (hpack_encode [('':method'', ''GET'')]), data_frame 1 0 [104],
       data_frame 3 0 [9], data_frame 1 HTTP2_FLAG_END_STREAM [105]] (new_handler True) = (Inr (), h')
     \<and> requests_of 1 h' = [(map_of [('':method'', ''GET'')], [104, 105], 1)]"
proof -
  let ?hs = "[('':method'', ''GET'')]" and ?fs = "[data_frame 1 0 [104], data_frame 3 0 [9], data_frame 1 HTTP2_FLAG_END_STREAM [105]]"
  let ?fs' = "headers_frame 1 HTTP2_FLAG_END_HEADERS (hpack_encode ?hs) # ?fs"
  have "fst (h2_receive ?fs' (new_handler True)) = Inr ()"
    unfolding encode_method_get
    by (simp add: handle_frame_def handle_headers_def handle_data_def data_body_def headers_block_def header_block_of_def
        headers_frame_def data_frame_def has_flag_def flag_defs h2_constants new_handler_def get_or_create_stream_def
        upd_stream_def replenish_conn_def replenish_stream_def replenish_def announce_def send_rst_stream_def push_frame_def
        open_with_def invoke_handler_def half_close_def)
  then obtain h' where r: "h2_receive ?fs' (new_handler True) = (Inr (), h')" by (metis prod.collapse)
  have "requests_of 1 h' = requests_of 1 (new_handler True) @ [(map_of (rev ?hs), concat [[104], [105]], 1)]"
    by (rule request_delivered [OF _ _ _ _ _ _ _ _ _ _ r])
      (simp_all add: new_handler_def data_frame_def encode_method_get)
  then show ?thesis using r by (intro exI [of _ h']) (simp add: requests_of_def new_handler_def)
qed

section \<open>The wire format\<close>

text \<open>A reader of the frame format of RFC 7540, section 4.1: nine bytes of header, then the payload.\<close>

fun type_of :: "u8 \<Rightarrow> Http2FrameType" where
  "type_of b =
     (if b < 10 then [DATA, HEADERS, PRIORITY, RST_STREAM, SETTINGS, PUSH_PROMISE, PING, GOAWAY, WINDOW_UPDATE, CONTINUATION] ! unat b
      else Unknown b)"

definition read_frame :: "bytes \<Rightarrow> (Http2Frame \<times> bytes) option" where
  "read_frame bs =
     (case bs of
        l0 # l1 # l2 # t # fl # s0 # s1 # s2 # s3 # rest \<Rightarrow>
          (let len = be32 0 l0 l1 l2 in
           if unat len \<le> length rest then
             Some (\<lparr> f_length = len, f_type = type_of t, f_flags = fl, f_stream_id = be32 s0 s1 s2 s3 AND 0x7FFFFFFF,
                     f_payload = take (unat len) rest \<rparr>, drop (unat len) rest)
           else None)
      | _ \<Rightarrow> None)"

definition wf_frame :: "Http2Frame \<Rightarrow> bool" where
  "wf_frame f \<longleftrightarrow> length (f_payload f) < 2 ^ 24 \<and> f_length f = of_nat (length (f_payload f)) \<and> f_stream_id f < 2 ^ 31
     \<and> type_of (type_code (f_type f)) = f_type f"

lemma type_of_code: "(\<forall>b. t \<noteq> Unknown b) \<Longrightarrow> type_of (type_code t) = t"
  by (cases t) simp_all

lemma be32_bytes:
  "be32 (ucast (drop_bit 24 x AND 0xFF)) (ucast (drop_bit 16 x AND 0xFF)) (ucast (drop_bit 8 x AND 0xFF)) (ucast (x AND 0xFF)) = x"
proof (rule bit_word_eqI)
  have m: "(0xFF :: u32) = mask 8" by (simp add: mask_eq_exp_minus_1)
  fix n
  assume "n < LENGTH(32)"
  then consider "n < 8" | "8 \<le> n" "n < 16" | "16 \<le> n" "n < 24" | "24 \<le> n" "n < 32" by fastforce
  then show "bit (be32 (ucast (drop_bit 24 x AND 0xFF)) (ucast (drop_bit 16 x AND 0xFF)) (ucast (drop_bit 8 x AND 0xFF))
      (ucast (x AND 0xFF))) n = bit x n"
    unfolding be32_def m by cases (auto simp: bit_simps)
qed

lemma small_stream_id: "sid < 2 ^ 31 \<Longrightarrow> sid AND 0x7FFFFFFF = (sid :: u32)"
proof -
  assume "sid < 2 ^ 31"
  then have "unat sid < 2 ^ 31" by (simp add: word_less_nat_alt)
  then have "take_bit 31 sid = sid" by (simp add: word_unat_eq_iff unsigned_take_bit_eq take_bit_nat_eq_self)
  moreover have "(0x7FFFFFFF :: u32) = mask 31" by (simp add: mask_eq_exp_minus_1)
  ultimately show ?thesis by (simp add: take_bit_eq_mask)
qed

lemma small_length: "n < 2 ^ 24 \<Longrightarrow> drop_bit 24 (of_nat n :: u32) = 0 \<and> unat (of_nat n :: u32) = n"
proof -
  assume n: "n < 2 ^ 24"
  then have u: "unat (of_nat n :: u32) = n" by (intro unat_of_nat_small) simp
  have "unat (drop_bit 24 (of_nat n :: u32)) = 0" unfolding unat_drop_bit_eq u using n by (simp add: drop_bit_eq_div)
  then show ?thesis using u by (simp only: unsigned_eq_0_iff)
qed

text \<open>a well-formed frame is recovered from its serialisation by the frame format of the RFC, whatever follows
  it: the 24-bit length, the type, the flags, the 31-bit stream identifier and the payload.\<close>

theorem frame_roundtrip:
  assumes "wf_frame f"
  shows "read_frame (serialize_frame f @ rest) = Some (f, rest)"
proof -
  let ?n = "length (f_payload f)"
  have n: "?n < 2 ^ 24" "f_length f = of_nat ?n" using assms by (simp_all add: wf_frame_def)
  have "be32 0 (ucast (drop_bit 16 (f_length f) AND 0xFF)) (ucast (drop_bit 8 (f_length f) AND 0xFF)) (ucast (f_length f AND 0xFF)) = f_length f"
    using be32_bytes [of "f_length f"] small_length [OF n(1)] n(2) by simp
  moreover have "f_stream_id f AND 0x7FFFFFFF = f_stream_id f"
    using assms by (intro small_stream_id) (simp add: wf_frame_def)
  moreover have "unat (f_length f) = ?n" using small_length [OF n(1)] n(2) by simp
  moreover have "type_of (type_code (f_type f)) = f_type f" using assms by (simp add: wf_frame_def)
  ultimately show ?thesis
    by (simp add: read_frame_def serialize_frame_def Let_def be32_bytes del: type_of.simps)
qed

theorem frame_roundtrip_witness:
  "read_frame (serialize_frame (data_frame 5 HTTP2_FLAG_END_STREAM [1, 2, 3]) @ [7, 7])
   = Some (data_frame 5 HTTP2_FLAG_END_STREAM [1, 2, 3], [7, 7])"
  by (rule frame_roundtrip) (simp add: wf_frame_def data_frame_def)

section \<open>Pings\<close>

lemma ping_last:
  assumes "take_bit 56 acc = (acc :: u64)"
  shows "ucast ((push_bit 8 acc OR ucast (b :: u8)) AND 0xFF) = b" "drop_bit 8 (push_bit 8 acc OR ucast b) = acc"
proof -
  have m: "(0xFF :: u64) = mask 8" by (simp add: mask_eq_exp_minus_1)
  have acc: "n < 56" if "bit acc n" for n using that assms by (metis bit_take_bit_iff)
  show "ucast ((push_bit 8 acc OR ucast b) AND 0xFF) = b"
    unfolding m by (rule bit_word_eqI) (auto simp: bit_simps)
  show "drop_bit 8 (push_bit 8 acc OR ucast b) = acc"
    by (rule bit_word_eqI) (auto simp: bit_simps dest: acc bit_u8)
qed

lemma ping_bytes_fold:
  "length p \<le> 8 \<Longrightarrow> ping_bytes (length p) (foldl (\<lambda>acc b. push_bit 8 acc OR ucast b) 0 p) rest = p @ rest
     \<and> take_bit (8 * length p) (foldl (\<lambda>acc b. push_bit 8 acc OR ucast (b :: u8)) (0 :: u64) p)
       = foldl (\<lambda>acc b. push_bit 8 acc OR ucast b) 0 p"
proof (induction p arbitrary: rest rule: rev_induct)
  case (snoc b p)
  let ?acc = "foldl (\<lambda>acc b. push_bit 8 acc OR ucast b) (0 :: u64) p"
  have tb: "take_bit (8 * length p) ?acc = ?acc" using snoc by simp
  have acc: "n < 8 * length p" if "bit ?acc n" for n using that tb by (metis bit_take_bit_iff)
  have "take_bit 56 ?acc = ?acc"
  proof (rule bit_word_eqI)
    fix n show "bit (take_bit 56 ?acc) n = bit ?acc n" using acc [of n] snoc.prems by (auto simp: bit_take_bit_iff)
  qed
  moreover have "take_bit (8 + 8 * length p) (push_bit 8 ?acc OR ucast b) = push_bit 8 ?acc OR ucast b"
  proof (rule bit_word_eqI)
    fix n show "bit (take_bit (8 + 8 * length p) (push_bit 8 ?acc OR ucast b)) n = bit (push_bit 8 ?acc OR ucast b) n"
      using acc [of "n - 8"] by (auto simp: bit_simps dest: bit_u8)
  qed
  ultimately show ?case using snoc ping_last [of ?acc b] by simp
qed simp

text \<open>a PING of eight bytes is answered with one acknowledged PING that carries the same eight bytes.\<close>

theorem ping_echo:
  assumes "f_type f = PING" and "length (f_payload f) = 8" and "f_flags f AND HTTP2_FLAG_ACK = 0"
  shows "handle_frame f h = (Inr (), push_frame
    \<lparr> f_length = 8, f_type = PING, f_flags = HTTP2_FLAG_ACK, f_stream_id = 0, f_payload = f_payload f \<rparr> h)"
proof -
  have "ping_bytes 8 (foldl (\<lambda>acc b. push_bit 8 acc OR ucast b) 0 (f_payload f)) [] = f_payload f"
    using ping_bytes_fold [of "f_payload f" "[]"] assms(2) by simp
  then show ?thesis using assms by (simp add: handle_frame_def handle_ping_def send_ping_def has_flag_def)
qed

theorem ping_echo_witness:
  "handle_frame \<lparr> f_length = 8, f_type = PING, f_flags = 0, f_stream_id = 0, f_payload = [1, 2, 3, 4, 5, 6, 7, 8] \<rparr> (new_handler True)
   = (Inr (), push_frame \<lparr> f_length = 8, f_type = PING, f_flags = HTTP2_FLAG_ACK, f_stream_id = 0,
       f_payload = [1, 2, 3, 4, 5, 6, 7, 8] \<rparr> (new_handler True))"
  using ping_echo [of "\<lparr> f_length = 8, f_type = PING, f_flags = 0, f_stream_id = 0, f_payload = [1, 2, 3, 4, 5, 6, 7, 8] \<rparr>"] by simp

section \<open>Inputs that get past the limits\<close>

text \<open>a HEADERS frame whose pad length is larger than its payload makes the handler read outside the payload:
  the end of the header block is computed by a subtraction that wraps below zero, and the check that
  follows compares the wrapped value.\<close>

theorem padded_headers_overread:
  assumes "f_type f = HEADERS" "f_flags f AND HTTP2_FLAG_PADDED \<noteq> 0" "f_flags f AND HTTP2_FLAG_PRIORITY = 0"
    and "f_payload f = pad # rest" "length (f_payload f) < unat pad" "f_stream_id f \<noteq> 0" "length (streams h) < 128"
  shows "fst (handle_frame f h) = Inl out_of_bounds"
proof -
  let ?n = "length (f_payload f)"
  have "unat pad < 256" using unsigned_less [of pad, where 'a = nat] by simp
  then have "(?n + 2 ^ 64 - unat pad) mod 2 ^ 64 = 2 ^ 64 - (unat pad - ?n)" using assms(5) by simp
  then have "header_block_of f = Inl out_of_bounds"
    using assms(2-5) \<open>unat pad < 256\<close> by (simp add: header_block_of_def has_flag_def Let_def)
  then show ?thesis using assms by (simp add: handle_frame_def handle_headers_def Let_def MAX_CONCURRENT_STREAMS_def)
qed

theorem padded_headers_overread_witness:
  "fst (handle_frame (headers_frame 1 (HTTP2_FLAG_PADDED OR HTTP2_FLAG_END_HEADERS) [9, 0x82]) (new_handler True)) = Inl out_of_bounds"
  by (rule padded_headers_overread [where pad = 9 and rest = "[0x82]"]) (simp_all add: headers_frame_def flag_defs new_handler_def)

text \<open>A request without a body, answered by headers that end the stream.\<close>

definition get_frame :: "u32 \<Rightarrow> (string \<times> string) list \<Rightarrow> Http2Frame" where
  "get_frame sid hs = headers_frame sid (HTTP2_FLAG_END_HEADERS OR HTTP2_FLAG_END_STREAM) (hpack_encode hs)"

definition serve :: "(string \<times> string) list \<Rightarrow> (string \<times> string) list \<Rightarrow> u32 \<Rightarrow> Http2Handler \<Rightarrow> Http2Handler" where
  "serve hs rsp sid h = snd (send_headers sid rsp True (snd (handle_frame (get_frame sid hs) h)))"

lemma map_entry_last: "map_of ss k = None \<Longrightarrow> AList.map_entry k f (ss @ [(k, v)]) = ss @ [(k, f v)]"
  by (induction ss) (auto split: if_splits)

lemma invoke_streams [simp]: "streams (invoke_handler sid h) = streams h"
  by (simp add: invoke_handler_def split: option.split)

lemma serve_streams:
  assumes "map_of (streams h) sid = None" "length (streams h) < MAX_CONCURRENT_STREAMS" "sid \<noteq> 0" "length (hpack_encode hs) < 2 ^ 24"
  shows "\<exists>s. streams (serve hs rsp sid h) = streams h @ [(sid, s)] \<and> s_state s = CLOSED"
proof -
  have "header_block_of (get_frame sid hs) = Inr (hpack_encode hs)"
    unfolding get_frame_def by (rule plain_block) (use assms(4) in \<open>simp_all add: flag_defs\<close>)
  then show ?thesis
    using assms
    by (simp add: serve_def handle_frame_def get_frame_def headers_frame_def handle_headers_def headers_block_def has_flag_def
        flag_defs get_or_create_stream_def update_fresh upd_stream_def map_entry_last send_headers_def push_frame_def Let_def
        open_with_def half_close_def end_local_def)
qed

lemma serve_all:
  "distinct sids \<Longrightarrow> 0 \<notin> set sids \<Longrightarrow> length sids \<le> MAX_CONCURRENT_STREAMS \<Longrightarrow> length (hpack_encode hs) < 2 ^ 24 \<Longrightarrow>
     map fst (streams (fold (serve hs rsp) sids (new_handler app))) = sids
     \<and> (\<forall>(k, s) \<in> set (streams (fold (serve hs rsp) sids (new_handler app))). s_state s = CLOSED)"
proof (induction sids rule: rev_induct)
  case Nil
  then show ?case by (simp add: new_handler_def)
next
  case (snoc sid sids)
  let ?h = "fold (serve hs rsp) sids (new_handler app)"
  have IH: "map fst (streams ?h) = sids" "\<forall>(k, s) \<in> set (streams ?h). s_state s = CLOSED" using snoc by simp_all
  have "length (streams ?h) = length sids" by (metis IH(1) length_map)
  moreover have "map_of (streams ?h) sid = None" using IH(1) snoc.prems(1) by (auto simp: map_of_eq_None_iff simp flip: set_map)
  ultimately obtain s where "streams (serve hs rsp sid ?h) = streams ?h @ [(sid, s)]" "s_state s = CLOSED"
    using serve_streams [of ?h sid hs rsp] snoc.prems by auto
  then show ?case using IH by auto
qed

text \<open>streams are never released after a normal exchange: once 128 requests have been answered and closed, the
  table is full of closed streams and every further request on the connection is refused.\<close>

theorem closed_streams_fill:
  assumes "distinct sids" "0 \<notin> set sids" "length sids = 128" "sid \<noteq> 0" "sid \<notin> set sids" "length (hpack_encode hs) < 2 ^ 24"
    and h: "h = fold (serve hs rsp) sids (new_handler True)"
  shows "(\<forall>(k, s) \<in> set (streams h). s_state s = CLOSED) \<and> handle_frame (get_frame sid hs) h = (Inr (), send_rst_stream sid 0x7 h)"
proof -
  have st: "map fst (streams h) = sids" "\<forall>(k, s) \<in> set (streams h). s_state s = CLOSED"
    using serve_all [OF assms(1,2) _ assms(6), of rsp True] assms(3) by (simp_all add: h MAX_CONCURRENT_STREAMS_def)
  then have "length (streams h) = 128" by (metis assms(3) length_map)
  moreover have "map_of (streams h) sid = None" using st(1) assms(5) by (auto simp: map_of_eq_None_iff simp flip: set_map)
  ultimately show ?thesis
    using st(2) assms(4)
    by (simp add: handle_frame_def get_frame_def headers_frame_def handle_headers_def MAX_CONCURRENT_STREAMS_def)
qed

theorem closed_streams_fill_witness:
  "handle_frame (get_frame 257 []) (fold (serve [] []) (map of_nat [1..<129]) (new_handler True))
   = (Inr (), send_rst_stream 257 0x7 (fold (serve [] []) (map of_nat [1..<129]) (new_handler True)))"
proof -
  have u: "unat (of_nat n :: u32) = n" if "n < 129" for n using that by (intro unat_of_nat_small) simp
  have "inj_on (of_nat :: nat \<Rightarrow> u32) {1..<129}" by (rule inj_onI) (metis atLeastLessThan_iff u)
  then have d: "distinct (map of_nat [1..<129] :: u32 list)" by (simp add: distinct_map)
  have z: "unat x \<noteq> 0 \<and> unat x < 129" if "x \<in> set (map of_nat [1..<129] :: u32 list)" for x
    using that u by auto
  have "(0 :: u32) \<notin> set (map of_nat [1..<129])" "(257 :: u32) \<notin> set (map of_nat [1..<129])"
    using z [of 0] z [of 257] by auto
  then show ?thesis
    using closed_streams_fill [OF d, where sid = 257 and hs = "[]" and rsp = "[]"] by (simp add: hpack_encode_def)
qed

text \<open>A header block without its end, followed by a window update that overflows the stream's window.\<close>

definition window_frame :: "u32 \<Rightarrow> Http2Frame" where
  "window_frame sid =
     \<lparr> f_length = 4, f_type = WINDOW_UPDATE, f_flags = 0, f_stream_id = sid, f_payload = [0x7F, 0xFF, 0xFF, 0xFF] \<rparr>"

lemma flood_step:
  assumes "streams h = []" "peer_initial_window_size h = DEFAULT_INITIAL_WINDOW_SIZE" "continuation_buffer h sid = None"
    and "sid \<noteq> 0" "length block \<le> MAX_HEADER_BLOCK"
  shows "\<exists>h'. h2_receive [headers_frame sid 0 block, window_frame sid] h = (Inr (), h') \<and> streams h' = []
    \<and> peer_initial_window_size h' = DEFAULT_INITIAL_WINDOW_SIZE \<and> rst_stream_count h' = rst_stream_count h
    \<and> continuation_buffer h' = (continuation_buffer h)(sid \<mapsto> block)"
proof -
  have b: "header_block_of (headers_frame sid 0 block) = Inr block"
    by (rule plain_block) (use assms(5) in \<open>simp_all add: MAX_HEADER_BLOCK_def\<close>)
  have i: "window_increment [0x7F, 0xFF, 0xFF, 0xFF] = 0x7FFFFFFF" by (simp add: window_increment_def be32_def)
  define s :: Http2Stream where "s = \<lparr> s_id = sid, s_state = IDLE, request_headers = Map.empty, request_body = [],
    s_send_window = 65535, s_recv_window = 65535 \<rparr>"
  define g where "g = h\<lparr>streams := [(sid, s)], continuation_buffer := (continuation_buffer h)(sid \<mapsto> block), last_stream_id := sid\<rparr>"
  have "handle_frame (headers_frame sid 0 block) h = (Inr (), g)"
    using assms b
    by (simp add: handle_frame_def headers_frame_def handle_headers_def headers_block_def has_flag_def Let_def
        get_or_create_stream_def MAX_CONCURRENT_STREAMS_def DEFAULT_INITIAL_WINDOW_SIZE_def g_def s_def)
  moreover have "\<exists>h'. handle_frame (window_frame sid) g = (Inr (), h') \<and> streams h' = []
    \<and> peer_initial_window_size h' = DEFAULT_INITIAL_WINDOW_SIZE \<and> rst_stream_count h' = rst_stream_count h
    \<and> continuation_buffer h' = (continuation_buffer h)(sid \<mapsto> block)"
    using assms(2,4) i
    by (simp add: handle_frame_def window_frame_def handle_window_update_def Let_def g_def s_def MAX_WINDOW_def erase_stream_def
        upd_stream_def send_rst_stream_def push_frame_def)
  ultimately show ?thesis by auto
qed

lemma receive_append:
  "h2_receive (fs @ gs) h = (case h2_receive fs h of (Inl e, h) \<Rightarrow> (Inl e, h) | (Inr _, h) \<Rightarrow> h2_receive gs h)"
  by (induction fs arbitrary: h) (auto split: sum.split prod.split)

text \<open>the limit on header blocks does not bound the memory of a connection: with two frames per stream a peer
  makes the handler keep a block of up to 64 KiB for any number of streams that no longer exist, without
  any error, with an empty stream table and without a single counted reset.\<close>

theorem continuation_flood:
  assumes "distinct sids" "0 \<notin> set sids" "length block \<le> 64 * 1024"
  shows "\<exists>h. h2_receive (concat (map (\<lambda>sid. [headers_frame sid 0 block, window_frame sid]) sids)) (new_handler app) = (Inr (), h)
    \<and> streams h = [] \<and> rst_stream_count h = 0 \<and> (\<forall>sid \<in> set sids. continuation_buffer h sid = Some block)"
proof -
  have "\<exists>h. h2_receive (concat (map (\<lambda>sid. [headers_frame sid 0 block, window_frame sid]) sids)) (new_handler app) = (Inr (), h)
    \<and> streams h = [] \<and> rst_stream_count h = 0 \<and> peer_initial_window_size h = DEFAULT_INITIAL_WINDOW_SIZE
    \<and> continuation_buffer h = (\<lambda>sid. if sid \<in> set sids then Some block else None)"
    using assms(1,2)
  proof (induction sids rule: rev_induct)
    case Nil
    then show ?case by (simp add: new_handler_def)
  next
    case (snoc sid sids)
    then obtain h where h: "h2_receive (concat (map (\<lambda>sid. [headers_frame sid 0 block, window_frame sid]) sids)) (new_handler app) = (Inr (), h)"
      "streams h = []" "rst_stream_count h = 0" "peer_initial_window_size h = DEFAULT_INITIAL_WINDOW_SIZE"
      "continuation_buffer h = (\<lambda>sid. if sid \<in> set sids then Some block else None)" by auto
    have "continuation_buffer h sid = None" "sid \<noteq> 0" using h(5) snoc.prems by auto
    then obtain h' where "h2_receive [headers_frame sid 0 block, window_frame sid] h = (Inr (), h')" "streams h' = []"
      "peer_initial_window_size h' = DEFAULT_INITIAL_WINDOW_SIZE" "rst_stream_count h' = 0"
      "continuation_buffer h' = (continuation_buffer h)(sid \<mapsto> block)"
      using flood_step [OF h(2,4), of sid block] assms(3) h(3) by (auto simp: MAX_HEADER_BLOCK_def)
    then show ?case using h by (intro exI [of _ h']) (auto simp: receive_append simp del: h2_receive.simps)
  qed
  then show ?thesis by auto
qed

theorem continuation_flood_witness:
  "\<exists>h. h2_receive (concat (map (\<lambda>sid. [headers_frame sid 0 [1, 2], window_frame sid]) [1, 3, 5])) (new_handler True) = (Inr (), h)
    \<and> streams h = [] \<and> continuation_buffer h 1 = Some [1, 2] \<and> continuation_buffer h 5 = Some [1, 2]"
  using continuation_flood [of "[1, 3, 5]" "[1, 2]" True] by auto

end
