(* ===== verification/WebSocket.thy ===== *)
theory WebSocket
  imports Http_Request Base64 Frame_Codec
begin

text \<open>
  \<open>WebSocketHandler\<close> of \<open>include/qbuem/server/websocket_handler.hpp\<close>: the RFC 6455 frame codec, the payload masking in
  its scalar, SSE2, AVX2 and NEON builds, the handshake with its inline SHA-1, and the receive loop. A
  vector is the list of its bytes in memory order. The socket is a list of the pieces that \<open>read\<close> returns;
  the bytes written and the frames handed to the application are the outputs of the loop.
\<close>

section \<open>Frames\<close>

datatype Opcode = Continuation | Text | Binary | Close | Ping | Pong | Reserved u8

text \<open>\<open>Reserved\<close> is any other value that the cast from the first byte can give.\<close>

fun to_underlying :: "Opcode \<Rightarrow> u8" where
  "to_underlying Continuation = 0x0"
| "to_underlying Text = 0x1"
| "to_underlying Binary = 0x2"
| "to_underlying Close = 0x8"
| "to_underlying Ping = 0x9"
| "to_underlying Pong = 0xA"
| "to_underlying (Reserved b) = b"

definition opcode_of :: "u8 \<Rightarrow> Opcode" where
  "opcode_of b =
     (if b = 0x0 then Continuation else if b = 0x1 then Text else if b = 0x2 then Binary else if b = 0x8 then Close
      else if b = 0x9 then Ping else if b = 0xA then Pong else Reserved b)"

record WsFrame =
  opcode :: Opcode
  fin :: bool
  rsv1 :: bool
  rsv2 :: bool
  rsv3 :: bool
  masked :: bool
  payload :: bytes

section \<open>Masking\<close>

definition xor_mask :: "bytes \<Rightarrow> bytes \<Rightarrow> bytes" where
  "xor_mask src key = map (\<lambda>i. src ! i XOR key ! (i mod 4)) [0..<length src]"

definition key32 :: "bytes \<Rightarrow> u32" where
  "key32 key =
     ucast (key ! 0) OR push_bit 8 (ucast (key ! 1)) OR push_bit 16 (ucast (key ! 2)) OR push_bit 24 (ucast (key ! 3))"

text \<open>\<open>n\<close> copies of a 32-bit lane, as bytes in memory order.\<close>

definition set1_epi32 :: "nat \<Rightarrow> u32 \<Rightarrow> bytes" where
  "set1_epi32 n w = concat (replicate n [ucast w, ucast (drop_bit 8 w), ucast (drop_bit 16 w), ucast (drop_bit 24 w)])"

text \<open>The loop over whole vectors from index \<open>i\<close>: the index it stops at and the bytes it stored.\<close>

function xor_blocks :: "bytes \<Rightarrow> bytes \<Rightarrow> nat \<Rightarrow> nat \<times> bytes" where
  "xor_blocks vkey src i =
     (if vkey \<noteq> [] \<and> i + length vkey \<le> length src then
        (let (j, out) = xor_blocks vkey src (i + length vkey) in
         (j, map2 (XOR) (take (length vkey) (drop i src)) vkey @ out))
      else (i, []))"
  by pat_completeness auto
termination
  by (relation "measure (\<lambda>(vkey, src, i). length src - i)") (auto simp flip: length_greater_0_conv)

declare xor_blocks.simps [simp del]

definition xor_tail :: "bytes \<Rightarrow> bytes \<Rightarrow> nat \<Rightarrow> bytes" where
  "xor_tail src key i = map (\<lambda>k. src ! k XOR key ! (k AND 3)) [i..<length src]"

definition xor_mask_avx2 :: "bytes \<Rightarrow> bytes \<Rightarrow> bytes" where
  "xor_mask_avx2 src key =
     (let vkey256 = set1_epi32 8 (key32 key);
          (i, out) = xor_blocks vkey256 src 0;
          vkey128 = take 16 vkey256;
          (i', out') = xor_blocks vkey128 src i
      in out @ out' @ xor_tail src key i')"

definition xor_mask_sse2 :: "bytes \<Rightarrow> bytes \<Rightarrow> bytes" where
  "xor_mask_sse2 src key =
     (let (i, out) = xor_blocks (set1_epi32 4 (key32 key)) src 0 in out @ xor_tail src key i)"

definition xor_mask_neon :: "bytes \<Rightarrow> bytes \<Rightarrow> bytes" where
  "xor_mask_neon src key =
     (let (i, out) = xor_blocks (map (\<lambda>i. key ! (i AND 3)) [0..<16]) src 0 in out @ xor_tail src key i)"

section \<open>Encoding and decoding\<close>

text \<open>The bytes of a 64-bit length, most significant first.\<close>

definition len64 :: "u64 \<Rightarrow> bytes" where
  "len64 payload_len = map (\<lambda>i. ucast (drop_bit (i * 8) payload_len AND 0xFF)) [7, 6, 5, 4, 3, 2, 1, 0]"

definition kMaskingKey :: bytes where
  "kMaskingKey = [0x37, 0xfa, 0x21, 0x3d]"

definition encode_frame :: "WsFrame \<Rightarrow> bool \<Rightarrow> bytes" where
  "encode_frame frame mask_on =
     (let b0 = (if fin frame then 0x80 else 0x00) OR (to_underlying (opcode frame) AND 0x0F);
          payload_len = (of_nat (length (payload frame)) :: u64);
          mask_bit = (if mask_on then 0x80 else 0x00 :: u8);
          out = (if payload_len < 126 then [b0, mask_bit OR ucast payload_len]
                 else if payload_len \<le> 0xFFFF then
                   [b0, mask_bit OR 126, ucast (drop_bit 8 payload_len), ucast (payload_len AND 0xFF)]
                 else [b0, mask_bit OR 127] @ len64 payload_len)
      in if mask_on then out @ kMaskingKey @ xor_mask (payload frame) kMaskingKey else out @ payload frame)"

definition encode_header :: "Opcode \<Rightarrow> u64 \<Rightarrow> bool \<Rightarrow> bool \<Rightarrow> bytes \<Rightarrow> bytes" where
  "encode_header opc payload_len fin_bit mask_on key =
     (let b0 = (if fin_bit then 0x80 else 0x00) OR (to_underlying opc AND 0x0F);
          mask_bit = (if mask_on then 0x80 else 0x00 :: u8)
      in [b0]
         @ (if payload_len < 126 then [ucast (ucast mask_bit OR payload_len)]
            else if payload_len \<le> 0xFFFF then [mask_bit OR 126, ucast (drop_bit 8 payload_len), ucast (payload_len AND 0xFF)]
            else [mask_bit OR 127] @ len64 payload_len)
         @ (if mask_on then [key ! 0, key ! 1, key ! 2, key ! 3] else []))"

datatype ws_errc = Try_again | Message_size

definition kMaxFramePayload :: u64 where
  "kMaxFramePayload = 16 * 1024 * 1024"

text \<open>The payload length and the position after it, none if the buffer ends before.\<close>

definition length_field :: "bytes \<Rightarrow> (u64 \<times> nat) option" where
  "length_field data =
     (let len7 = data ! 1 AND 0x7F in
      if len7 = 126 then
        (if length data < 4 then None else Some (push_bit 8 (ucast (data ! 2)) OR ucast (data ! 3), 4))
      else if len7 = 127 then
        (if length data < 10 then None
         else Some (foldl (\<lambda>acc b. push_bit 8 acc OR ucast b) 0 (take 8 (drop 2 data)), 10))
      else Some (ucast len7, 2))"

definition decode_frame :: "bytes \<Rightarrow> ws_errc + WsFrame \<times> nat" where
  "decode_frame data =
     (if length data < 2 then Inl Try_again
      else
        let b0 = data ! 0; b1 = data ! 1; mask_on = (b1 AND 0x80 \<noteq> 0) in
        case length_field data of
          None \<Rightarrow> Inl Try_again
        | Some (payload_len, pos) \<Rightarrow>
            (if payload_len > kMaxFramePayload then Inl Message_size
             else if mask_on \<and> length data < pos + 4 then Inl Try_again
             else
               let masking_key = (if mask_on then take 4 (drop pos data) else [0, 0, 0, 0]);
                   pos = (if mask_on then pos + 4 else pos);
                   plen = unat payload_len
               in if length data < pos + plen then Inl Try_again
                  else
                    let raw = take plen (drop pos data) in
                    Inr (\<lparr> opcode = opcode_of (b0 AND 0x0F), fin = (b0 AND 0x80 \<noteq> 0), rsv1 = (b0 AND 0x40 \<noteq> 0),
                           rsv2 = (b0 AND 0x20 \<noteq> 0), rsv3 = (b0 AND 0x10 \<noteq> 0), masked = mask_on,
                           payload = (if mask_on then xor_mask raw masking_key else raw) \<rparr>, pos + plen)))"

section \<open>The handshake\<close>

definition rotl32 :: "u32 \<Rightarrow> nat \<Rightarrow> u32" where
  "rotl32 v n = push_bit n v OR drop_bit (32 - n) v"

function pad_zeros :: "bytes \<Rightarrow> bytes" where
  "pad_zeros msg = (if length msg mod 64 \<noteq> 56 then pad_zeros (msg @ [0x00]) else msg)"
  by pat_completeness auto
termination
proof (relation "measure (\<lambda>msg. if length msg mod 64 \<le> 56 then 56 - length msg mod 64 else 120 - length msg mod 64)")
  fix msg :: bytes
  assume "length msg mod 64 \<noteq> 56"
  moreover have "length msg mod 64 < 64" by simp
  ultimately show "(msg @ [0x00], msg) \<in> measure (\<lambda>msg. if length msg mod 64 \<le> 56 then 56 - length msg mod 64 else 120 - length msg mod 64)"
    by (auto simp: mod_Suc)
qed simp

declare pad_zeros.simps [simp del]

definition sha1_pad :: "bytes \<Rightarrow> bytes" where
  "sha1_pad input = (let bit_len = of_nat (length input) * 8 in pad_zeros (input @ [0x80]) @ len64 bit_len)"

definition sha1_word :: "bytes \<Rightarrow> nat \<Rightarrow> u32" where
  "sha1_word block i =
     push_bit 24 (ucast (block ! (i * 4))) OR push_bit 16 (ucast (block ! (i * 4 + 1)))
     OR push_bit 8 (ucast (block ! (i * 4 + 2))) OR ucast (block ! (i * 4 + 3))"

text \<open>The message schedule; the list grows to 80 words.\<close>

fun extend :: "nat \<Rightarrow> u32 list \<Rightarrow> u32 list" where
  "extend 0 w = w"
| "extend (Suc n) w =
     (let si = length w in
      extend n (w @ [rotl32 (w ! (si - 3) XOR w ! (si - 8) XOR w ! (si - 14) XOR w ! (si - 16)) 1]))"

definition schedule_words :: "bytes \<Rightarrow> u32 list" where
  "schedule_words block = extend 64 (map (sha1_word block) [0..<16])"

type_synonym sha1_state = "u32 \<times> u32 \<times> u32 \<times> u32 \<times> u32"

definition sha1_round :: "nat \<Rightarrow> u32 \<Rightarrow> sha1_state \<Rightarrow> sha1_state" where
  "sha1_round i wi s =
     (case s of (a, b, c, d, e) \<Rightarrow>
        let (f, k) =
          (if i < 20 then ((b AND c) OR (NOT b AND d), 0x5A827999)
           else if i < 40 then (b XOR c XOR d, 0x6ED9EBA1)
           else if i < 60 then ((b AND c) OR (b AND d) OR (c AND d), 0x8F1BBCDC)
           else (b XOR c XOR d, 0xCA62C1D6));
          temp = rotl32 a 5 + f + e + k + wi
        in (temp, a, rotl32 b 30, c, d))"

fun sha1_rounds :: "nat \<Rightarrow> u32 list \<Rightarrow> sha1_state \<Rightarrow> sha1_state" where
  "sha1_rounds i [] s = s"
| "sha1_rounds i (wi # w) s = sha1_rounds (i + 1) w (sha1_round i wi s)"

definition sha1_block :: "bytes \<Rightarrow> sha1_state \<Rightarrow> sha1_state" where
  "sha1_block block h =
     (case h of (h0, h1, h2, h3, h4) \<Rightarrow>
        case sha1_rounds 0 (schedule_words block) h of (a, b, c, d, e) \<Rightarrow> (h0 + a, h1 + b, h2 + c, h3 + d, h4 + e))"

function sha1_blocks :: "bytes \<Rightarrow> sha1_state \<Rightarrow> sha1_state" where
  "sha1_blocks msg h = (if msg = [] then h else sha1_blocks (drop 64 msg) (sha1_block (take 64 msg) h))"
  by pat_completeness auto
termination
  by (relation "measure (\<lambda>(msg, h). length msg)") auto

declare sha1_blocks.simps [simp del]

definition sha1_bytes :: "u32 \<Rightarrow> bytes" where
  "sha1_bytes h = [ucast (drop_bit 24 h), ucast (drop_bit 16 h), ucast (drop_bit 8 h), ucast h]"

definition sha1 :: "bytes \<Rightarrow> bytes" where
  "sha1 input =
     (case sha1_blocks (sha1_pad input) (0x67452301, 0xEFCDAB89, 0x98BADCFE, 0x10325476, 0xC3D2E1F0) of
        (h0, h1, h2, h3, h4) \<Rightarrow> sha1_bytes h0 @ sha1_bytes h1 @ sha1_bytes h2 @ sha1_bytes h3 @ sha1_bytes h4)"

text \<open>The inline Base64 loop over the digest.\<close>

fun encode_digest :: "bytes \<Rightarrow> string" where
  "encode_digest [] = []"
| "encode_digest [x] =
     (let triple = push_bit 16 (ucast x :: u32) in
      [kStdAlpha ! unat (drop_bit 18 triple AND 0x3F), kStdAlpha ! unat (drop_bit 12 triple AND 0x3F), CHR ''='', CHR ''=''])"
| "encode_digest [x, y] =
     (let triple = push_bit 16 (ucast x :: u32) OR push_bit 8 (ucast y) in
      [kStdAlpha ! unat (drop_bit 18 triple AND 0x3F), kStdAlpha ! unat (drop_bit 12 triple AND 0x3F),
       kStdAlpha ! unat (drop_bit 6 triple AND 0x3F), CHR ''=''])"
| "encode_digest (x # y # z # d) =
     (let triple = push_bit 16 (ucast x :: u32) OR push_bit 8 (ucast y) OR ucast z in
      [kStdAlpha ! unat (drop_bit 18 triple AND 0x3F), kStdAlpha ! unat (drop_bit 12 triple AND 0x3F),
       kStdAlpha ! unat (drop_bit 6 triple AND 0x3F), kStdAlpha ! unat (triple AND 0x3F)]) @ encode_digest d"

definition kMagic :: string where
  "kMagic = ''258EAFA5-E914-47DA-95CA-C5AB0DC85B11''"

definition compute_accept_key :: "string \<Rightarrow> string" where
  "compute_accept_key key = encode_digest (sha1 (map of_char (key @ kMagic)))"

text \<open>The handshake: whether it succeeds and the bytes it writes; \<open>wr\<close> is the result of \<open>write_all\<close>.\<close>

definition upgrade :: "request \<Rightarrow> bool \<Rightarrow> bool \<times> string" where
  "upgrade req wr =
     (let ws_key = header req ''Sec-WebSocket-Key''; nl = [CHR 0x0D, CHR 0x0A] in
      if ws_key = [] then
        (False, ''HTTP/1.1 400 Bad Request'' @ nl @ ''Connection: close'' @ nl @ ''Content-Length: 0'' @ nl @ nl)
      else
        (wr, ''HTTP/1.1 101 Switching Protocols'' @ nl @ ''Upgrade: websocket'' @ nl @ ''Connection: Upgrade'' @ nl
             @ ''Sec-WebSocket-Accept: '' @ compute_accept_key ws_key @ nl @ nl))"

section \<open>The receive loop\<close>

datatype ws_event = Written bytes | Message WsFrame

definition ws_frame :: "Opcode \<Rightarrow> bytes \<Rightarrow> WsFrame" where
  "ws_frame opc data =
     \<lparr> opcode = opc, fin = True, rsv1 = False, rsv2 = False, rsv3 = False, masked = False, payload = data \<rparr>"

definition send_text :: "bytes \<Rightarrow> bytes" where
  "send_text data = encode_frame (ws_frame Text data) False"

definition send_binary :: "bytes \<Rightarrow> bytes" where
  "send_binary data = encode_frame (ws_frame Binary data) False"

definition send_close :: "u16 \<Rightarrow> bytes" where
  "send_close c = encode_frame (ws_frame Close [ucast (drop_bit 8 c), ucast (c AND 0xFF)]) False"

definition send_ping :: bytes where
  "send_ping = encode_frame (ws_frame Ping []) False"

lemma decode_frame_consumes: "decode_frame data = Inr (f, n) \<Longrightarrow> 2 \<le> n \<and> n \<le> length data"
  by (auto simp: decode_frame_def length_field_def Let_def split: if_splits)

text \<open>The frames of the buffer: the outputs, the bytes left over, and whether a close ended the loop. The message callback is set; without
  one the code drops the message.\<close>

function ws_drain :: "bytes \<Rightarrow> ws_event list \<times> bytes \<times> bool" where
  "ws_drain buf =
     (case decode_frame buf of
        Inl _ \<Rightarrow> ([], buf, False)
      | Inr (frame, frame_consumed) \<Rightarrow>
          (if opcode frame = Ping then
             (let (evs, rest, closed) = ws_drain (drop frame_consumed buf) in
              (Written (encode_frame (ws_frame Pong []) False) # evs, rest, closed))
           else if opcode frame = Close then ([Written (encode_frame (ws_frame Close (payload frame)) False)], [], True)
           else
             (let (evs, rest, closed) = ws_drain (drop frame_consumed buf) in (Message frame # evs, rest, closed))))"
  by pat_completeness auto
termination
  by (relation "measure length") (auto dest!: decode_frame_consumes)

declare ws_drain.simps [simp del]

fun ws_run :: "bytes \<Rightarrow> bytes list \<Rightarrow> ws_event list" where
  "ws_run buf [] = []"
| "ws_run buf (tmp # reads) =
     (if tmp = [] then []
      else let (evs, rest, closed) = ws_drain (buf @ tmp) in if closed then evs else evs @ ws_run rest reads)"

end
