(* ===== verification/WebSocket_Spec.thy ===== *)
theory WebSocket_Spec
  imports WebSocket
begin

text \<open>
  The contract of the WebSocket handler: the vector builds of the masking agree with the scalar one and
  masking twice is the identity, frames survive encoding and decoding, the codec meets the
  \<open>frame_codec\<close> interface, so that the receive loop answers the frames of a stream in order however the
  stream is cut, and the inline Base64 of the handshake is the library's.
\<close>

section \<open>Masking\<close>

lemma length_xor_mask [simp]: "length (xor_mask src key) = length src"
  by (simp add: xor_mask_def)

lemma xor_mask_twice: "xor_mask (xor_mask src key) key = src"
  by (rule nth_equalityI) (simp_all add: xor_mask_def xor.assoc)

lemma lanes:
  "ucast (key32 [a, b, c, d]) = a" "ucast (drop_bit 8 (key32 [a, b, c, d])) = b"
  "ucast (drop_bit 16 (key32 [a, b, c, d])) = c" "ucast (drop_bit 24 (key32 [a, b, c, d])) = d"
  by (rule bit_word_eqI, auto simp: key32_def bit_simps dest: bit_u8)+

lemma repeat_nth: "length key = 4 \<Longrightarrow> j < 4 * n \<Longrightarrow> concat (replicate n key) ! j = key ! (j mod 4)"
proof (induction n arbitrary: j)
  case (Suc n)
  show ?case
  proof (cases "j < 4")
    case False
    then have "(j - 4) mod 4 = j mod 4" by (simp add: le_mod_geq)
    then show ?thesis using Suc.IH [of "j - 4"] Suc.prems False by (simp add: nth_append)
  qed (use Suc.prems in \<open>simp add: nth_append\<close>)
qed simp

lemma set1_key:
  assumes "length key = 4"
  shows "set1_epi32 n (key32 key) = concat (replicate n key)" "length (concat (replicate n key)) = 4 * n"
proof -
  obtain a b c d where k: "key = [a, b, c, d]" using assms by (auto simp: eval_nat_numeral length_Suc_conv)
  show "set1_epi32 n (key32 key) = concat (replicate n key)" unfolding k set1_epi32_def by (simp only: lanes)
  show "length (concat (replicate n key)) = 4 * n" using assms by (induction n) simp_all
qed

lemma map2_block:
  assumes "\<forall>j < length vkey. vkey ! j = key ! (j mod 4)" "i mod 4 = 0" "i + length vkey \<le> length src"
  shows "map2 (XOR) (take (length vkey) (drop i src)) vkey = map (\<lambda>k. src ! k XOR key ! (k mod 4)) [i..<i + length vkey]"
proof (rule nth_equalityI)
  fix j
  assume "j < length (map2 (XOR) (take (length vkey) (drop i src)) vkey)"
  then have j: "j < length vkey" by simp
  have "(i + j) mod 4 = j mod 4" using assms(2) by (metis add_0 mod_add_left_eq)
  then show "map2 (XOR) (take (length vkey) (drop i src)) vkey ! j = map (\<lambda>k. src ! k XOR key ! (k mod 4)) [i..<i + length vkey] ! j"
    using j assms by simp
qed (use assms in simp)

lemma xor_blocks_run:
  assumes "\<forall>j < length vkey. vkey ! j = key ! (j mod 4)" "length vkey mod 4 = 0" "i mod 4 = 0" "i \<le> length src"
    and "xor_blocks vkey src i = (j, out)"
  shows "i \<le> j \<and> j \<le> length src \<and> j mod 4 = 0 \<and> out = map (\<lambda>k. src ! k XOR key ! (k mod 4)) [i..<j]"
  using assms
proof (induction vkey src i arbitrary: j out rule: xor_blocks.induct)
  case (1 vkey src i)
  show ?case
  proof (cases "vkey \<noteq> [] \<and> i + length vkey \<le> length src")
    case True
    obtain j' out' where r: "xor_blocks vkey src (i + length vkey) = (j', out')" by force
    have "(i + length vkey) mod 4 = 0" using "1.prems"(2,3) by (simp add: mod_add_eq [symmetric])
    then have IH: "i + length vkey \<le> j' \<and> j' \<le> length src \<and> j' mod 4 = 0
        \<and> out' = map (\<lambda>k. src ! k XOR key ! (k mod 4)) [i + length vkey..<j']"
      using "1.IH" [OF True "1.prems"(1,2) _ _ r] True by simp
    have "(j, out) = (j', map2 (XOR) (take (length vkey) (drop i src)) vkey @ out')"
      using "1.prems"(5) True r by (subst (asm) xor_blocks.simps) simp
    moreover have "[i..<j'] = [i..<i + length vkey] @ [i + length vkey..<j']"
      using IH by (metis le_add1 le_add_diff_inverse upt_add_eq_append)
    ultimately show ?thesis using IH map2_block [OF "1.prems"(1,3)] True by simp
  next
    case False
    then have "(j, out) = (i, [])" using "1.prems"(5) by (subst (asm) xor_blocks.simps) auto
    then show ?thesis using "1.prems"(3,4) by simp
  qed
qed

lemma and3: "(k :: nat) AND 3 = k mod 4"
proof -
  have "(3 :: nat) = mask 2" by (simp add: mask_eq_exp_minus_1)
  then show ?thesis by (simp only: take_bit_eq_mask [symmetric] take_bit_eq_mod) simp
qed

lemma xor_join:
  assumes "i \<le> j" "j \<le> length src"
  shows "map (\<lambda>k. src ! k XOR key ! (k mod 4)) [i..<j] @ xor_tail src key j = map (\<lambda>k. src ! k XOR key ! (k mod 4)) [i..<length src]"
proof -
  have "[i..<length src] = [i..<j] @ [j..<length src]" using assms by (metis le_add_diff_inverse upt_add_eq_append)
  then show ?thesis by (simp add: xor_tail_def and3)
qed

text \<open>C36: the AVX2, SSE2 and NEON builds of the masking compute what the scalar build computes, on every buffer and
  every four-byte key, and masking twice with one key gives the buffer back.\<close>

theorem xor_mask_builds:
  assumes "length key = 4"
  shows "xor_mask_avx2 src key = xor_mask src key \<and> xor_mask_sse2 src key = xor_mask src key
    \<and> xor_mask_neon src key = xor_mask src key \<and> xor_mask (xor_mask src key) key = src"
proof -
  have v: "\<forall>j < length (concat (replicate n key)). concat (replicate n key) ! j = key ! (j mod 4)"
    "length (concat (replicate n key)) mod 4 = 0" for n
    using set1_key(2) [OF assms, of n] repeat_nth [OF assms] by simp_all
  have t: "take 16 (concat (replicate 8 key)) = concat (replicate 4 key)"
    using assms by (simp add: eval_nat_numeral)
  have n: "map (\<lambda>i. key ! (i AND 3)) [0..<16] = concat (replicate 4 key)"
    using repeat_nth [OF assms, of _ 4] set1_key(2) [OF assms, of 4] by (intro nth_equalityI) (simp_all add: and3)
  obtain i out where r8: "xor_blocks (concat (replicate 8 key)) src 0 = (i, out)" by force
  note q8 = xor_blocks_run [OF v _ _ r8, simplified]
  obtain i' out' where r4: "xor_blocks (concat (replicate 4 key)) src i = (i', out')" by force
  have q4: "i \<le> i' \<and> i' \<le> length src \<and> i' mod 4 = 0 \<and> out' = map (\<lambda>k. src ! k XOR key ! (k mod 4)) [i..<i']"
    using xor_blocks_run [OF v _ _ r4] q8 by simp
  obtain k o4 where s4: "xor_blocks (concat (replicate 4 key)) src 0 = (k, o4)" by force
  note p4 = xor_blocks_run [OF v _ _ s4, simplified]
  have "xor_mask_avx2 src key = xor_mask src key"
    using r8 r4 q8 q4 xor_join [of i i' src key] xor_join [of 0 i src key]
    by (simp add: xor_mask_avx2_def set1_key [OF assms] t xor_tail_def and3 xor_mask_def)
  moreover have "xor_mask_sse2 src key = xor_mask src key" "xor_mask_neon src key = xor_mask src key"
    using s4 p4 xor_join [of 0 k src key]
    by (simp_all add: xor_mask_sse2_def xor_mask_neon_def set1_key [OF assms] n xor_mask_def)
  ultimately show ?thesis by (simp add: xor_mask_twice)
qed

theorem xor_mask_builds_witness:
  "xor_mask_avx2 [1, 2, 3, 4, 5] [9, 8, 7, 6] = xor_mask [1, 2, 3, 4, 5] [9, 8, 7, 6]
   \<and> xor_mask (xor_mask [1, 2, 3, 4, 5] [9, 8, 7, 6]) [9, 8, 7, 6] = [1, 2, 3, 4, 5]"
  using xor_mask_builds [of "[9, 8, 7, 6]" "[1, 2, 3, 4, 5]"] by simp

section \<open>Frames survive encoding and decoding\<close>

lemma mask_bit_low:
  assumes "unat (x :: u8) < 128"
  shows "(0x80 OR x) AND 0x7F = x" "(0x80 OR x) AND 0x80 \<noteq> 0" "x AND 0x7F = x" "x AND 0x80 = 0"
proof -
  have tb: "take_bit 7 x = x" using assms by (intro take_bit_small) simp
  then have seven: "n < 7" if "bit x n" for n using that by (metis bit_take_bit_iff)
  show "(0x80 OR x) AND 0x7F = x"
    unfolding mask7 by (rule bit_word_eqI) (auto simp: bit_simps bit7 dest: seven)
  have "bit ((0x80 OR x) AND 0x80) 7" by (simp add: bit_simps bit7)
  then show "(0x80 OR x) AND 0x80 \<noteq> 0" by auto
  show "x AND 0x7F = x" unfolding mask7 using tb by (simp add: take_bit_eq_mask)
  show "x AND 0x80 = 0" using and_take_bit [OF tb, of "0x80"] by simp
qed

lemma first_byte:
  fixes y :: u8
  assumes "y = y' AND 0x0F"
  shows "((if fl then 0x80 else 0x00) OR y) AND 0x0F = y" "((if fl then 0x80 else 0x00) OR y) AND 0x80 \<noteq> 0 \<longleftrightarrow> fl"
    "((if fl then 0x80 else 0x00) OR y) AND 0x40 = 0" "((if fl then 0x80 else 0x00) OR y) AND 0x20 = 0"
    "((if fl then 0x80 else 0x00) OR y) AND 0x10 = 0"
proof -
  have y: "take_bit 4 y = y" by (simp add: assms and_masks)
  have z: "y AND 0x80 = 0" "y AND 0x40 = 0" "y AND 0x20 = 0" "y AND 0x10 = 0" "y AND 0x0F = y"
    using and_take_bit [OF y, of "0x80"] and_take_bit [OF y, of "0x40"] and_take_bit [OF y, of "0x20"]
      and_take_bit [OF y, of "0x10"] y by (simp_all add: and_masks)
  show "((if fl then 0x80 else 0x00) OR y) AND 0x0F = y" "((if fl then 0x80 else 0x00) OR y) AND 0x80 \<noteq> 0 \<longleftrightarrow> fl"
    "((if fl then 0x80 else 0x00) OR y) AND 0x40 = 0" "((if fl then 0x80 else 0x00) OR y) AND 0x20 = 0"
    "((if fl then 0x80 else 0x00) OR y) AND 0x10 = 0"
    using z by (simp_all add: bit.conj_disj_distrib2)
qed

lemma len16_bytes:
  assumes "unat (n :: u64) < 2 ^ 16"
  shows "push_bit 8 (ucast (ucast (drop_bit 8 n) :: u8)) OR ucast (ucast (n AND 0xFF) :: u8) = n"
proof (rule bit_word_eqI)
  fix i
  assume "i < LENGTH(64)"
  have hi: "i < 16" if "bit n i" for i using that take_bit_small [OF assms] by (metis bit_take_bit_iff)
  consider "i < 8" | "8 \<le> i" "i < 16" | "16 \<le> i" by linarith
  then show "bit (push_bit 8 (ucast (ucast (drop_bit 8 n) :: u8)) OR ucast (ucast (n AND 0xFF) :: u8) :: u64) i = bit n i"
    unfolding mask8 by cases (auto simp: bit_simps dest: hi)
qed

lemma byte_joins:
  "push_bit m (ucast (ucast (drop_bit m x AND 0xFF) :: u8)) OR take_bit m x = take_bit (m + 8) (x :: u64)"
proof (rule bit_word_eqI)
  fix i
  assume "i < LENGTH(64)"
  then show "bit (push_bit m (ucast (ucast (drop_bit m x AND 0xFF) :: u8)) OR take_bit m x) i = bit (take_bit (m + 8) x) i"
    unfolding mask8 by (cases "i < m") (auto simp: bit_simps)
qed

lemma foldl_bytes:
  "foldl (\<lambda>acc b. push_bit 8 acc OR ucast b) acc (map (\<lambda>i. ucast (drop_bit (i * 8) x AND 0xFF) :: u8) (rev [0..<k]))
   = push_bit (k * 8) acc OR take_bit (k * 8) (x :: u64)"
proof (induction k arbitrary: acc)
  case (Suc k)
  have "push_bit (k * 8) (push_bit 8 acc OR b) = push_bit (Suc k * 8) acc OR push_bit (k * 8) b" for b :: u64
    by (simp add: push_bit_or add.commute)
  then show ?case using Suc.IH byte_joins [of "k * 8" x] by (simp add: or.assoc add.commute)
qed simp

lemma len64_bytes: "foldl (\<lambda>acc b. push_bit 8 acc OR ucast b) 0 (len64 n) = n"
proof -
  have "len64 n = map (\<lambda>i. ucast (drop_bit (i * 8) n AND 0xFF)) (rev [0..<8])"
    by (simp add: len64_def upt_rec)
  moreover have "take_bit 64 n = n" by (rule bit_word_eqI) (simp add: bit_simps)
  ultimately show ?thesis using foldl_bytes [of 0 n 8] by simp
qed

lemma length_len64 [simp]: "length (len64 n) = 8"
  by (simp add: len64_def)

text \<open>The header of an encoded frame, before the masking key.\<close>

definition ws_head :: "u8 \<Rightarrow> nat \<Rightarrow> bool \<Rightarrow> bytes" where
  "ws_head b0 n m =
     (let payload_len = (of_nat n :: u64); mask_bit = (if m then 0x80 else 0x00 :: u8) in
      if payload_len < 126 then [b0, mask_bit OR ucast payload_len]
      else if payload_len \<le> 0xFFFF then
        [b0, mask_bit OR 126, ucast (drop_bit 8 payload_len), ucast (payload_len AND 0xFF)]
      else [b0, mask_bit OR 127] @ len64 payload_len)"

lemma encode_frame_parts:
  "encode_frame f m =
     ws_head ((if fin f then 0x80 else 0x00) OR (to_underlying (opcode f) AND 0x0F)) (length (payload f)) m
     @ (if m then kMaskingKey @ xor_mask (payload f) kMaskingKey else payload f)"
  by (simp add: encode_frame_def ws_head_def Let_def)

lemma ucast_small:
  assumes "n < 256"
  shows "(ucast (of_nat n :: u64) :: u8) = of_nat n" "(ucast (of_nat n :: u8) :: u64) = of_nat n"
proof -
  have "unat (of_nat n :: u64) = n" "unat (of_nat n :: u8) = n" using assms by (simp_all add: unat_of_nat_small)
  then show "(ucast (of_nat n :: u64) :: u8) = of_nat n" "(ucast (of_nat n :: u8) :: u64) = of_nat n"
    using assms by (simp_all only: word_unat_eq_iff unsigned_ucast_eq) (simp_all add: take_bit_nat_eq_self)
qed

lemma ws_head_field:
  assumes "n \<le> 16 * 1024 * 1024"
  shows "length_field (ws_head b0 n m @ rest) = Some (of_nat n, length (ws_head b0 n m))"
    and "(ws_head b0 n m) ! 0 = b0" "(ws_head b0 n m) ! 1 AND 0x80 \<noteq> 0 \<longleftrightarrow> m" "2 \<le> length (ws_head b0 n m)"
proof -
  have u: "unat (of_nat n :: u64) = n" using assms by (intro unat_of_nat_small) simp
  let ?mb = "if m then 0x80 else 0x00 :: u8"
  consider "n < 126" | "126 \<le> n" "n \<le> 0xFFFF" | "0xFFFF < n" by linarith
  then have "length_field (ws_head b0 n m @ rest) = Some (of_nat n, length (ws_head b0 n m)) \<and> (ws_head b0 n m) ! 0 = b0
    \<and> ((ws_head b0 n m) ! 1 AND 0x80 \<noteq> 0 \<longleftrightarrow> m) \<and> 2 \<le> length (ws_head b0 n m)"
  proof cases
    case 1
    have "(of_nat n :: u64) < 126" using 1 u by (simp add: word_less_nat_alt)
    then have h: "ws_head b0 n m = [b0, ?mb OR of_nat n]" using 1 by (simp add: ws_head_def Let_def ucast_small)
    have un: "unat (of_nat n :: u8) = n" using 1 by (intro unat_of_nat_small) simp
    have x: "(?mb OR of_nat n) AND 0x7F = of_nat n" "(?mb OR of_nat n) AND 0x80 \<noteq> 0 \<longleftrightarrow> m"
      using mask_bit_low [of "of_nat n"] un 1 by simp_all
    have "of_nat n \<noteq> (126 :: u8)" "of_nat n \<noteq> (127 :: u8)" using un 1 by auto
    then show ?thesis unfolding h using x 1 by (simp add: length_field_def Let_def ucast_small)
  next
    case 2
    have "\<not> (of_nat n :: u64) < 126" "(of_nat n :: u64) \<le> 0xFFFF" using 2 u by (simp_all add: word_less_nat_alt word_le_nat_alt)
    then have h: "ws_head b0 n m = [b0, ?mb OR 126, ucast (drop_bit 8 (of_nat n :: u64)), ucast ((of_nat n :: u64) AND 0xFF)]"
      by (simp add: ws_head_def Let_def)
    have "unat (of_nat n :: u64) < 2 ^ 16" using u 2 by simp
    then show ?thesis unfolding h using len16_bytes [of "of_nat n"] by (simp add: length_field_def Let_def)
  next
    case 3
    have "\<not> (of_nat n :: u64) < 126" "\<not> (of_nat n :: u64) \<le> 0xFFFF" using 3 u by (simp_all add: word_less_nat_alt word_le_nat_alt)
    then have h: "ws_head b0 n m = [b0, ?mb OR 127] @ len64 (of_nat n)" by (simp add: ws_head_def Let_def)
    show ?thesis unfolding h using len64_bytes [of "of_nat n"] by (simp add: length_field_def Let_def)
  qed
  then show "length_field (ws_head b0 n m @ rest) = Some (of_nat n, length (ws_head b0 n m))"
    "(ws_head b0 n m) ! 0 = b0" "(ws_head b0 n m) ! 1 AND 0x80 \<noteq> 0 \<longleftrightarrow> m" "2 \<le> length (ws_head b0 n m)" by blast+
qed

definition ws_valid :: "WsFrame \<Rightarrow> bool" where
  "ws_valid f \<longleftrightarrow> length (payload f) \<le> 16 * 1024 * 1024 \<and> \<not> rsv1 f \<and> \<not> rsv2 f \<and> \<not> rsv3 f
     \<and> opcode_of (to_underlying (opcode f) AND 0x0F) = opcode f"

lemma decode_encode_frame:
  assumes "ws_valid f"
  shows "decode_frame (encode_frame f m @ rest) = Inr (f\<lparr>masked := m\<rparr>, length (encode_frame f m))"
proof -
  let ?y = "to_underlying (opcode f) AND 0x0F" and ?n = "length (payload f)"
  let ?b0 = "(if fin f then 0x80 else 0x00) OR ?y"
  define hdr where "hdr = ws_head ?b0 ?n m"
  define raw where "raw = (if m then xor_mask (payload f) kMaskingKey else payload f)"
  define kk where "kk = (if m then kMaskingKey else [])"
  have n: "?n \<le> 16 * 1024 * 1024" using assms by (simp add: ws_valid_def)
  have e: "encode_frame f m = hdr @ kk @ raw" by (simp add: encode_frame_parts hdr_def raw_def kk_def)
  have fld: "length_field ((hdr @ kk @ raw) @ rest) = Some (of_nat ?n, length hdr)"
    using ws_head_field(1) [OF n, of ?b0 m "kk @ raw @ rest"] by (simp add: hdr_def)
  have h: "hdr ! 0 = ?b0" "hdr ! 1 AND 0x80 \<noteq> 0 \<longleftrightarrow> m" "2 \<le> length hdr"
    using ws_head_field(2-4) [OF n, of ?b0 m] by (simp_all add: hdr_def)
  have u: "unat (of_nat ?n :: u64) = ?n" using n by (intro unat_of_nat_small) simp
  have small: "\<not> kMaxFramePayload < of_nat ?n"
    unfolding word_less_nat_alt u kMaxFramePayload_def using n by simp
  have raw: "length raw = ?n" "length kk = (if m then 4 else 0)" by (simp_all add: raw_def kk_def kMaskingKey_def)
  have nth: "((hdr @ kk @ raw) @ rest) ! 0 = hdr ! 0" "((hdr @ kk @ raw) @ rest) ! 1 = hdr ! 1"
    using h(3) by (auto simp: nth_append)
  have len: "length ((hdr @ kk @ raw) @ rest) = length hdr + length kk + ?n + length rest" using raw by simp
  have "decode_frame ((hdr @ kk @ raw) @ rest) = Inr (\<lparr> opcode = opcode f, fin = fin f, rsv1 = False, rsv2 = False, rsv3 = False,
      masked = m, payload = payload f \<rparr>, length hdr + length kk + ?n)"
    unfolding decode_frame_def nth len fld
    using h small raw u assms first_byte [of ?y "to_underlying (opcode f)" "fin f"]
    by (cases m) (simp_all add: Let_def ws_valid_def raw_def kk_def xor_mask_twice kMaskingKey_def)
  moreover have "f\<lparr>masked := m\<rparr> = \<lparr> opcode = opcode f, fin = fin f, rsv1 = False, rsv2 = False, rsv3 = False,
      masked = m, payload = payload f \<rparr>"
    using assms by (cases f) (simp add: ws_valid_def)
  ultimately show ?thesis using raw by (simp add: e)
qed

text \<open>C25: decoding an encoded frame, masked or not, gives the frame and consumes exactly its bytes, whatever follows;
  and the header written by the allocation-free path is the one of the full encoder.\<close>

theorem ws_roundtrip:
  assumes "ws_valid f"
  shows "decode_frame (encode_frame f m @ rest) = Inr (f\<lparr>masked := m\<rparr>, length (encode_frame f m))
    \<and> encode_header (opcode f) (of_nat (length (payload f))) (fin f) m kMaskingKey
        @ (if m then xor_mask (payload f) kMaskingKey else payload f) = encode_frame f m"
proof -
  have "ucast (ucast (mb :: u8) OR (x :: u64)) = mb OR (ucast x :: u8)" for mb x
    by (rule bit_word_eqI) (auto simp: bit_simps)
  then have "encode_header (opcode f) (of_nat (length (payload f))) (fin f) m kMaskingKey
        @ (if m then xor_mask (payload f) kMaskingKey else payload f) = encode_frame f m"
    by (simp add: encode_header_def encode_frame_def Let_def kMaskingKey_def)
  then show ?thesis using decode_encode_frame [OF assms] by simp
qed

theorem ws_roundtrip_witness:
  "decode_frame (encode_frame (ws_frame Text [104, 105]) True @ [1]) = Inr ((ws_frame Text [104, 105])\<lparr>masked := True\<rparr>, 8)"
proof -
  have "ws_valid (ws_frame Text [104, 105])" by (simp add: ws_valid_def ws_frame_def opcode_of_def)
  from ws_roundtrip [OF this, of True "[1]"] show ?thesis
    by (simp add: encode_frame_parts ws_head_def ws_frame_def kMaskingKey_def xor_mask_def)
qed

section \<open>The codec meets the interface\<close>

text \<open>The codec has no state of its own; \<open>u\<close> stands for whatever the caller keeps beside it.\<close>

definition ws_decode :: "'u \<Rightarrow> bytes \<Rightarrow> DecodeStatus \<times> 'u \<times> bytes \<times> WsFrame option" where
  "ws_decode u buf =
     (case decode_frame buf of
        Inr (f, n) \<Rightarrow> (Complete, u, drop n buf, Some f)
      | Inl Try_again \<Rightarrow> (Incomplete, u, buf, None)
      | Inl Message_size \<Rightarrow> (Error, u, buf, None))"

definition ws_reset :: "'u \<Rightarrow> 'u" where
  "ws_reset u = u"

definition ws_wire :: "WsFrame \<Rightarrow> bytes" where
  "ws_wire f = encode_frame f (masked f)"

lemma length_field_append: "2 \<le> length a \<Longrightarrow> length_field a = Some x \<Longrightarrow> length_field (a @ b) = Some x"
  by (auto simp: length_field_def Let_def nth_append split: if_splits)

lemma decode_frame_append:
  assumes "decode_frame a \<noteq> Inl Try_again"
  shows "decode_frame (a @ b) = decode_frame a"
proof -
  have two: "2 \<le> length a" using assms by (auto simp: decode_frame_def split: if_splits)
  obtain plen pos where f: "length_field a = Some (plen, pos)"
    using assms two by (cases "length_field a") (auto simp: decode_frame_def Let_def)
  have nth: "(a @ b) ! 0 = a ! 0" "(a @ b) ! 1 = a ! 1" using two by (auto simp: nth_append)
  have "decode_frame (a @ b) = decode_frame a" if "a ! 1 AND 0x80 \<noteq> 0 \<longrightarrow> pos + 4 \<le> length a"
    "\<not> plen > kMaxFramePayload" "(if a ! 1 AND 0x80 \<noteq> 0 then pos + 4 else pos) + unat plen \<le> length a"
    using that two f length_field_append [OF two f, of b] unfolding decode_frame_def nth
    by (auto simp: Let_def not_less split: if_splits)
  moreover have "decode_frame (a @ b) = decode_frame a" if "plen > kMaxFramePayload"
    using that two f length_field_append [OF two f, of b] unfolding decode_frame_def nth by (simp add: Let_def)
  ultimately show ?thesis using assms two f by (auto simp: decode_frame_def Let_def split: if_splits)
qed

interpretation ws: frame_codec "ws_decode :: 'u \<Rightarrow> _" ws_reset ws_wire ws_valid "\<lambda>_. True"
proof unfold_locales
  fix s s' :: 'u and a b r fo
  assume "ws_decode s a = (Incomplete, s', r, fo)"
  then show "agree (ws_decode s (a @ b)) (ws_decode s' (r @ b))"
    by (auto simp: ws_decode_def split: sum.splits ws_errc.splits)
next
  fix s s' :: 'u and a b r st fo
  assume d: "ws_decode s a = (st, s', r, fo)" "st \<noteq> Incomplete"
  then have "decode_frame (a @ b) = decode_frame a"
    by (intro decode_frame_append) (auto simp: ws_decode_def)
  then show "ws_decode s (a @ b) = (st, s', r @ b, fo)"
    using d by (auto simp: ws_decode_def split: sum.splits ws_errc.splits dest!: decode_frame_consumes)
next
  fix s :: 'u and f rest
  assume "ws_valid f"
  then show "\<exists>s'. ws_decode s (ws_wire f @ rest) = (Complete, s', rest, Some f) \<and> True"
    using decode_encode_frame [of f "masked f" rest] by (simp add: ws_decode_def ws_wire_def)
next
  show "ws_wire f \<noteq> []" for f by (simp add: ws_wire_def encode_frame_parts ws_head_def Let_def)
qed (simp add: ws_decode_def decode_frame_def)

text \<open>What the loop does for the frames of a stream: a pong for each ping, each data frame to the application, and
  an echo of the first close, after which nothing follows.\<close>

fun respond :: "WsFrame list \<Rightarrow> ws_event list" where
  "respond [] = []"
| "respond (f # fs) =
     (if opcode f = Ping then Written (encode_frame (ws_frame Pong []) False) # respond fs
      else if opcode f = Close then [Written (encode_frame (ws_frame Close (payload f)) False)]
      else Message f # respond fs)"

lemma respond_append:
  "respond (gs @ hs) = (if \<exists>g \<in> set gs. opcode g = Close then respond gs else respond gs @ respond hs)"
  by (induction gs) auto

lemma drain_stop: "decode_frame buf = Inl e \<Longrightarrow> ws.drain (Suc n) u buf = ([], u, buf)"
proof -
  assume "decode_frame buf = Inl e"
  then have "ws_decode u buf = (if e = Try_again then Incomplete else Error, u, buf, None)"
    by (cases e) (simp_all add: ws_decode_def)
  then show ?thesis by (cases e) simp_all
qed

lemma drain_step:
  assumes "decode_frame buf = Inr (f, k)" and "ws.drain n u (drop k buf) = (fs, u', r)"
  shows "ws.drain (Suc n) u buf = (f # fs, u', r)"
proof -
  have "ws_decode u buf = (Complete, u, drop k buf, Some f)" using assms(1) by (simp add: ws_decode_def)
  then show ?thesis using assms(2) by (simp add: ws_reset_def [of u])
qed

lemma ws_drain_frames:
  assumes "length buf < n" and "ws.drain n u buf = (gs, u', r)"
  shows "ws_drain buf = (if \<exists>g \<in> set gs. opcode g = Close then (respond gs, [], True) else (respond gs, r, False))"
  using assms
proof (induction n arbitrary: buf gs r u u')
  case (Suc n)
  show ?case
  proof (cases "decode_frame buf")
    case (Inl e)
    then have "gs = [] \<and> r = buf" using Suc.prems(2) by (simp only: drain_stop [OF Inl]) simp
    then show ?thesis using Inl by (subst ws_drain.simps) simp
  next
    case (Inr fn)
    then obtain f k where fk: "decode_frame buf = Inr (f, k)" by (cases fn) auto
    obtain gs' u'' r' where d': "ws.drain n u (drop k buf) = (gs', u'', r')" by (metis prod_cases3)
    then have d: "ws.drain n u (drop k buf) = (gs', u'', r)" "gs = f # gs'"
      using Suc.prems(2) by (simp_all only: drain_step [OF fk d']) simp_all
    have "length (drop k buf) < n" using decode_frame_consumes [OF fk] Suc.prems(1) unfolding length_drop by linarith
    from Suc.IH [OF this d(1)] show ?thesis using fk d(2) by (subst ws_drain.simps) simp
  qed
qed simp

lemma ws_drain_rest: "ws.drain n u buf = (gs, u', r) \<Longrightarrow> length r \<le> length buf"
proof (induction n arbitrary: u buf gs)
  case (Suc n)
  show ?case
  proof (cases "decode_frame buf")
    case (Inl e)
    then show ?thesis using Suc.prems by (simp only: drain_stop [OF Inl]) simp
  next
    case (Inr fn)
    then obtain f k where fk: "decode_frame buf = Inr (f, k)" by (cases fn) auto
    obtain gs' u'' r' where d: "ws.drain n u (drop k buf) = (gs', u'', r')" by (metis prod_cases3)
    then show ?thesis using Suc.IH [of u "drop k buf" gs'] Suc.prems by (simp only: drain_step [OF fk d]) simp
  qed
qed simp

lemma ws_run_receive:
  assumes "length (buf @ concat cs) < n" "[] \<notin> set cs"
  shows "ws_run buf cs = respond (ws.receive n u buf cs)"
  using assms
proof (induction cs arbitrary: buf u)
  case (Cons c cs)
  obtain gs u' r where d: "ws.drain n u (buf @ c) = (gs, u', r)" by (metis prod_cases3)
  have short: "length (buf @ c) < n" using Cons.prems(1) by simp
  have "ws_run r cs = respond (ws.receive n u' r cs)"
    using Cons.IH [of r u'] Cons.prems ws_drain_rest [OF d] by simp
  then show ?case
    using ws_drain_frames [OF short d] d Cons.prems(2) by (auto simp: respond_append)
qed simp

text \<open>C3: the receive loop treats the frames of a stream one by one and in order, however the socket cuts the bytes
  into pieces: pings are answered, data frames reach the application whole, a close is echoed and ends it.\<close>

theorem ws_run_stream:
  assumes "\<forall>f \<in> set fs. ws_valid f" and "concat pieces = concat (map (\<lambda>f. encode_frame f (masked f)) fs)" and "[] \<notin> set pieces"
  shows "ws_run [] pieces = respond fs"
proof -
  let ?n = "Suc (length (concat pieces))"
  have "ws.receive ?n (0 :: nat) [] pieces = fs"
    using assms(1,2) by (intro ws.receive_frames) (simp_all add: ws_wire_def [abs_def])
  then show ?thesis using ws_run_receive [of "[]" pieces ?n "0 :: nat"] assms(3) by simp
qed

theorem ws_run_stream_witness:
  "ws_run [] [[0x81], [0x01, 0x68, 0x89, 0x00]] = respond [ws_frame Text [0x68], ws_frame Ping []]"
proof (rule ws_run_stream)
  show "\<forall>f \<in> set [ws_frame Text [0x68], ws_frame Ping []]. ws_valid f" by (simp add: ws_valid_def ws_frame_def opcode_of_def)
  show "concat [[0x81], [0x01, 0x68, 0x89, 0x00]] = concat (map (\<lambda>f. encode_frame f (masked f)) [ws_frame Text [0x68], ws_frame Ping []])"
    by (simp add: encode_frame_parts ws_head_def ws_frame_def)
qed simp

section \<open>The handshake\<close>

lemma encode_digest_scalar:
  "encode_digest d = encode_scalar kStdAlpha d @ replicate ((length d + 2) div 3 * 4 - length (encode_scalar kStdAlpha d)) CHR ''=''
   \<and> length (encode_scalar kStdAlpha d) \<le> (length d + 2) div 3 * 4"
proof (induction d rule: encode_digest.induct)
  case (4 x y z d)
  moreover have "(5 + length d) div 3 = Suc (Suc (Suc (length d)) div 3)" by presburger
  ultimately show ?case by (simp add: Let_def)
qed (simp_all add: Let_def numeral_2_eq_2)

text \<open>the accept key of the handshake is the library's Base64 of the SHA-1 of the client's key and the magic
  string, 28 characters long, and decodes back to that digest.\<close>

theorem accept_key_base64:
  "compute_accept_key key = base64_encode (sha1 (map of_char (key @ kMagic)))
   \<and> length (compute_accept_key key) = 28"
proof -
  let ?d = "sha1 (map of_char (key @ kMagic))"
  have len: "length ?d = 20" by (simp add: sha1_def sha1_bytes_def split: prod.split)
  have "encode_digest ?d = base64_encode ?d"
    using encode_digest_scalar [of ?d] encode_scalar_length [of kStdAlpha ?d]
    by (simp add: base64_encode_def encode_impl_def pad_to_def)
  moreover have "length (encode_digest ?d) = 28" using encode_digest_scalar [of ?d] len by simp
  ultimately show ?thesis by (simp add: compute_accept_key_def)
qed

end
