(* ===== verification/Router.thy ===== *)
theory Router
  imports Http_Request
begin

text \<open>
  \<open>RadixTree\<close> and \<open>Router\<close> of \<open>include/qbuem/http/router.hpp\<close> and \<open>src/http/router.cpp\<close>. A node has its children as a list
  sorted by their character, searched linearly up to four entries and by \<open>std::lower_bound\<close> above, an
  optional parameter child with the name of the parameter, and a handler; \<open>None\<close> is \<open>std::monostate\<close>. A path
  with a position is the rest of the path. The map of parameters is passed through the search, as the
  code passes it by reference.
\<close>

section \<open>Nodes\<close>

datatype 'h node =
  Node (children: "(char \<times> 'h node) list") (param_child: "'h node option") (param_name: string) (node_handler: "'h option")

definition new_node :: "'h node" where
  "new_node = Node [] None [] None"

text \<open>The order of \<open>char\<close>, which is signed on the x86-64 targets.\<close>

definition char_key :: "char \<Rightarrow> int" where
  "char_key c = (if code c < 128 then int (code c) else int (code c) - 256)"

definition kBinarySearchThreshold :: nat where
  "kBinarySearchThreshold = 4"

function lower_bound :: "(char \<times> 'n) list \<Rightarrow> char \<Rightarrow> nat \<Rightarrow> nat \<Rightarrow> nat" where
  "lower_bound cs c first len =
     (if len > 0 then
        (let half = len div 2; mid = first + half in
         if char_key (fst (cs ! mid)) < char_key c then lower_bound cs c (mid + 1) (len - half - 1)
         else lower_bound cs c first half)
      else first)"
  by pat_completeness auto
termination
  by (relation "measure (\<lambda>(cs, c, first, len). len)") auto

declare lower_bound.simps [simp del]

text \<open>The index of a child, as \<open>find_child\<close> finds it.\<close>

definition child_index :: "(char \<times> 'n) list \<Rightarrow> char \<Rightarrow> nat option" where
  "child_index cs c =
     (if length cs > kBinarySearchThreshold then
        (let it = lower_bound cs c 0 (length cs) in
         if it < length cs \<and> fst (cs ! it) = c then Some it else None)
      else find_index (\<lambda>kv. fst kv = c) cs)"

definition find_child :: "(char \<times> 'n) list \<Rightarrow> char \<Rightarrow> 'n option" where
  "find_child cs c = map_option (\<lambda>i. snd (cs ! i)) (child_index cs c)"

definition add_child :: "(char \<times> 'n) list \<Rightarrow> char \<Rightarrow> 'n \<Rightarrow> (char \<times> 'n) list" where
  "add_child cs c n = (let it = lower_bound cs c 0 (length cs) in take it cs @ (c, n) # drop it cs)"

section \<open>Insertion and search\<close>

lemma dropWhile_Suc [termination_simp]: "length (dropWhile p xs) < Suc (length xs)"
  by (simp add: length_dropWhile_le less_Suc_eq_le)

fun insert_route :: "string \<Rightarrow> 'h option \<Rightarrow> 'h node \<Rightarrow> 'h node" where
  "insert_route [] h (Node cs pc pn hn) = Node cs pc pn h"
| "insert_route (c # path) h (Node cs pc pn hn) =
     (if c = CHR '':'' then
        (let nam = takeWhile (\<lambda>x. x \<noteq> CHR ''/'') path; rest = dropWhile (\<lambda>x. x \<noteq> CHR ''/'') path in
         case pc of
           None \<Rightarrow> Node cs (Some (insert_route rest h new_node)) nam hn
         | Some n \<Rightarrow> Node cs (Some (insert_route rest h n)) pn hn)
      else
        case child_index cs c of
          None \<Rightarrow> Node (add_child cs c (insert_route path h new_node)) pc pn hn
        | Some i \<Rightarrow> Node (cs[i := (c, insert_route path h (snd (cs ! i)))]) pc pn hn)"

lemma child_index_bound: "child_index cs c = Some i \<Longrightarrow> i < length cs \<and> fst (cs ! i) = c"
  by (auto simp: child_index_def Let_def find_index_Some_iff split: if_splits)

lemma find_child_in: "find_child cs c = Some n \<Longrightarrow> (c, n) \<in> set cs"
  using child_index_bound [of cs c] by (auto simp: find_child_def)

lemma size_child [termination_simp]:
  "find_child cs c = Some n \<Longrightarrow> size n < Suc (size_list (\<lambda>x. Suc (size (snd x))) cs + a + b)"
proof -
  assume "find_child cs c = Some n"
  from find_child_in [OF this] have "Suc (size n) \<le> size_list (\<lambda>x. Suc (size (snd x))) cs"
    using size_list_estimation' [of "(c, n)" cs "Suc (size n)" "\<lambda>x. Suc (size (snd x))"] by simp
  then show ?thesis by simp
qed

fun search_recursive :: "'h node \<Rightarrow> string \<Rightarrow> (string \<rightharpoonup> string) \<Rightarrow> 'h option \<times> (string \<rightharpoonup> string)" where
  "search_recursive (Node cs pc pn hn) path params =
     (case path of
        [] \<Rightarrow> (hn, params)
      | c # rest \<Rightarrow>
          (case (case find_child cs c of None \<Rightarrow> (None, params) | Some child \<Rightarrow> search_recursive child rest params) of
             (Some h, params) \<Rightarrow> (Some h, params)
           | (None, params) \<Rightarrow>
               (case pc of
                  None \<Rightarrow> (None, params)
                | Some param_node \<Rightarrow>
                    (let val = takeWhile (\<lambda>x. x \<noteq> CHR ''/'') path; rest = dropWhile (\<lambda>x. x \<noteq> CHR ''/'') path in
                     case search_recursive param_node rest (params(pn \<mapsto> val)) of
                       (Some h, params) \<Rightarrow> (Some h, params)
                     | (None, params) \<Rightarrow> (None, params(pn := None))))))"

declare search_recursive.simps [simp del]

section \<open>The router\<close>

datatype any_middleware = Sync nat | Async nat

text \<open>A middleware is known by a number; the chain itself is run by the application.\<close>

record 'h router =
  routes :: "Method \<Rightarrow> 'h node"
  middlewares :: "any_middleware list"
  prefix_routes :: "(Method \<times> string \<times> 'h option) list"
  has_async_mw :: bool

definition Router :: "'h router" where
  "Router = \<lparr> routes = (\<lambda>_. new_node), middlewares = [], prefix_routes = [], has_async_mw = False \<rparr>"

definition add_route :: "Method \<Rightarrow> string \<Rightarrow> 'h option \<Rightarrow> 'h router \<Rightarrow> 'h router" where
  "add_route m path h r = r\<lparr>routes := (routes r)(m := insert_route path h (routes r m))\<rparr>"

definition use_mw :: "nat \<Rightarrow> 'h router \<Rightarrow> 'h router" where
  "use_mw mw r = r\<lparr>middlewares := middlewares r @ [Sync mw]\<rparr>"

definition use_async :: "nat \<Rightarrow> 'h router \<Rightarrow> 'h router" where
  "use_async mw r = r\<lparr>middlewares := middlewares r @ [Async mw], has_async_mw := True\<rparr>"

definition add_prefix_route :: "Method \<Rightarrow> string \<Rightarrow> 'h option \<Rightarrow> 'h router \<Rightarrow> 'h router" where
  "add_prefix_route m pre h r = r\<lparr>prefix_routes := prefix_routes r @ [(m, pre, h)]\<rparr>"

definition starts_with :: "string \<Rightarrow> string \<Rightarrow> bool" where
  "starts_with path pre \<longleftrightarrow> take (length pre) path = pre"

fun match_prefix :: "Method \<Rightarrow> string \<Rightarrow> (Method \<times> string \<times> 'h option) list \<Rightarrow> (string \<rightharpoonup> string) \<Rightarrow>
    'h option \<times> (string \<rightharpoonup> string)" where
  "match_prefix m path [] params = (None, params)"
| "match_prefix m path ((pm, pre, h) # prs) params =
     (if pm = m \<and> starts_with path pre then (h, params(''**'' \<mapsto> drop (length pre) path))
      else match_prefix m path prs params)"

definition match_route :: "Method \<Rightarrow> string \<Rightarrow> (string \<rightharpoonup> string) \<Rightarrow> 'h router \<Rightarrow> 'h option \<times> (string \<rightharpoonup> string)" where
  "match_route m path params r =
     (case search_recursive (routes r m) path params of
        (Some h, params) \<Rightarrow> (Some h, params)
      | (None, params) \<Rightarrow> match_prefix m path (prefix_routes r) params)"

definition all_methods :: "Method list" where
  "all_methods = [Get, Post, Put, Delete, Patch, Options, Head, Unknown]"

definition path_exists :: "string \<Rightarrow> 'h router \<Rightarrow> bool" where
  "path_exists path r \<longleftrightarrow>
     list_ex (\<lambda>m. fst (search_recursive (routes r m) path Map.empty) \<noteq> None) all_methods
     \<or> list_ex (\<lambda>(_, pre, _). starts_with path pre) (prefix_routes r)"

end
