(* ===== verification/Router_Spec.thy ===== *)
theory Router_Spec
  imports Router
begin

text \<open>
  What the router promises. A pattern is read as a list of tokens, a literal character or a parameter, and
  the tree is a map from token lists to handlers: registering is an update of that map, and matching takes
  the first registered pattern among those a path can be read as, a literal before a parameter. The map is
  the interface \<open>keyed_store\<close>, which the tree and the router implement.
\<close>

section \<open>Children\<close>

definition ordered :: "(char \<times> 'n) list \<Rightarrow> bool" where
  "ordered cs \<longleftrightarrow> sorted_wrt (\<lambda>x y. char_key (fst x) < char_key (fst y)) cs"

lemma char_key_inject [simp]: "char_key a = char_key b \<longleftrightarrow> a = b"
  using nat_of_char_less_256 [of a] nat_of_char_less_256 [of b]
  by (auto simp: char_key_def simp del: nat_of_char_less_256 split: if_splits)

lemma lower_bound_correct:
  assumes "ordered cs" "first + len \<le> length cs"
    and "\<And>i. i < first \<Longrightarrow> char_key (fst (cs ! i)) < char_key c"
    and "\<And>i. \<lbrakk>first + len \<le> i; i < length cs\<rbrakk> \<Longrightarrow> char_key c \<le> char_key (fst (cs ! i))"
  shows "lower_bound cs c first len \<le> length cs
    \<and> (\<forall>i < lower_bound cs c first len. char_key (fst (cs ! i)) < char_key c)
    \<and> (\<forall>i. lower_bound cs c first len \<le> i \<and> i < length cs \<longrightarrow> char_key c \<le> char_key (fst (cs ! i)))"
  using assms
proof (induction cs c first len rule: lower_bound.induct)
  case (1 cs c first len)
  have mono: "i \<le> j \<Longrightarrow> j < length cs \<Longrightarrow> char_key (fst (cs ! i)) \<le> char_key (fst (cs ! j))" for i j
    using "1.prems"(1) by (cases "i = j") (auto simp: ordered_def sorted_wrt_iff_nth_less intro: less_imp_le)
  show ?case
  proof (cases "len > 0")
    case True
    define mid where "mid = first + len div 2"
    have mid: "mid < length cs" "mid < first + len" using "1.prems"(2) True by (auto simp: mid_def)
    show ?thesis
    proof (cases "char_key (fst (cs ! mid)) < char_key c")
      case low: True
      have "lower_bound cs c first len = lower_bound cs c (mid + 1) (len - len div 2 - 1)"
        using True low by (subst lower_bound.simps) (simp add: mid_def Let_def)
      moreover have "i < mid + 1 \<Longrightarrow> char_key (fst (cs ! i)) < char_key c" for i
        using mono [of i mid] mid low by simp
      ultimately show ?thesis
        using "1.IH"(1) [OF True refl mid_def] "1.prems" True low by (simp add: mid_def algebra_simps)
    next
      case high: False
      have "lower_bound cs c first len = lower_bound cs c first (len div 2)"
        using True high by (subst lower_bound.simps) (simp add: mid_def Let_def)
      moreover have "mid \<le> i \<Longrightarrow> i < length cs \<Longrightarrow> char_key c \<le> char_key (fst (cs ! i))" for i
        using mono [of mid i] high by simp
      ultimately show ?thesis
        using "1.IH"(2) [OF True refl mid_def] "1.prems" True high mid by (simp add: mid_def)
    qed
  next
    case False
    then show ?thesis using "1.prems" by (subst (1 2 3) lower_bound.simps) auto
  qed
qed

lemma lower_bound_all:
  assumes "ordered cs"
  shows "lower_bound cs c 0 (length cs) \<le> length cs"
    and "i < lower_bound cs c 0 (length cs) \<Longrightarrow> char_key (fst (cs ! i)) < char_key c"
    and "\<lbrakk>lower_bound cs c 0 (length cs) \<le> i; i < length cs\<rbrakk> \<Longrightarrow> char_key c \<le> char_key (fst (cs ! i))"
  using lower_bound_correct [OF assms, of 0 "length cs" c] by auto

lemma ordered_distinct: "ordered cs \<Longrightarrow> distinct (map fst cs)"
  unfolding ordered_def distinct_conv_nth sorted_wrt_iff_nth_less
  by (metis length_map less_irrefl linorder_neqE_nat nth_map)

lemma map_of_nth_fst: "\<lbrakk>distinct (map fst cs); i < length cs; fst (cs ! i) = c\<rbrakk> \<Longrightarrow> map_of cs c = Some (snd (cs ! i))"
  by (metis map_of_eq_Some_iff nth_mem prod.collapse)

lemma child_index_None:
  assumes "ordered cs" "child_index cs c = None"
  shows "c \<notin> fst ` set cs"
proof
  assume "c \<in> fst ` set cs"
  then obtain i where i: "i < length cs" "fst (cs ! i) = c" by (auto simp: in_set_conv_nth)
  let ?l = "lower_bound cs c 0 (length cs)"
  show False
  proof (cases "length cs > kBinarySearchThreshold")
    case True
    have "?l \<le> i" using lower_bound_all(2) [OF assms(1), of i c] i by (meson less_irrefl not_le)
    moreover have "\<not> ?l < i"
    proof
      assume "?l < i"
      then have "char_key (fst (cs ! ?l)) < char_key c"
        using assms(1) i by (auto simp: ordered_def sorted_wrt_iff_nth_less)
      then show False using lower_bound_all(3) [OF assms(1), of c ?l] \<open>?l < i\<close> i by simp
    qed
    ultimately show False using assms(2) i True by (simp add: child_index_def Let_def split: if_splits)
  next
    case False
    then show False using assms(2) i by (auto simp: child_index_def)
  qed
qed

lemma find_child_map_of: "ordered cs \<Longrightarrow> find_child cs c = map_of cs c"
proof (cases "child_index cs c")
  case None
  assume "ordered cs"
  with None show ?thesis using child_index_None [of cs c] by (simp add: find_child_def) (metis map_of_eq_None_iff)
next
  case (Some i)
  assume "ordered cs"
  then show ?thesis using child_index_bound [OF Some] map_of_nth_fst [OF ordered_distinct, of cs i c] Some
    by (simp add: find_child_def)
qed

lemma map_of_list_update:
  "\<lbrakk>distinct (map fst cs); i < length cs; fst (cs ! i) = c\<rbrakk> \<Longrightarrow> map_of (cs[i := (c, n)]) = (map_of cs)(c \<mapsto> n)"
proof (induction cs arbitrary: i)
  case (Cons x cs)
  show ?case
  proof (cases i)
    case (Suc j)
    then have "c \<in> fst ` set cs" using Cons.prems by auto
    then have "fst x \<noteq> c" using Cons.prems(1) by auto
    then show ?thesis using Cons Suc by (auto simp: fun_upd_twist)
  qed (use Cons in auto)
qed simp

lemma map_of_replace:
  assumes "ordered cs" "child_index cs c = Some i"
  shows "map_of (cs[i := (c, n)]) = (map_of cs)(c \<mapsto> n)" "ordered (cs[i := (c, n)])"
    "set (cs[i := (c, n)]) \<subseteq> insert (c, n) (set cs)"
proof -
  have i: "i < length cs" "fst (cs ! i) = c" using child_index_bound [OF assms(2)] by auto
  have key: "fst (cs[i := (c, n)] ! j) = fst (cs ! j)" if "j < length cs" for j
    using i that by (auto simp: nth_list_update)
  show "ordered (cs[i := (c, n)])" using assms(1) by (simp add: ordered_def sorted_wrt_iff_nth_less key)
  show "map_of (cs[i := (c, n)]) = (map_of cs)(c \<mapsto> n)"
    using ordered_distinct [OF assms(1)] i
    by (rule map_of_list_update)
  show "set (cs[i := (c, n)]) \<subseteq> insert (c, n) (set cs)" by (rule set_update_subset_insert)
qed

lemma set_add_child: "set (add_child cs c n) = insert (c, n) (set cs)"
  unfolding add_child_def Let_def by simp (metis append_take_drop_id set_append)

lemma map_of_add_child:
  assumes "ordered cs" "child_index cs c = None"
  shows "map_of (add_child cs c n) = (map_of cs)(c \<mapsto> n)" "ordered (add_child cs c n)"
proof -
  let ?l = "lower_bound cs c 0 (length cs)"
  have l: "?l \<le> length cs" by (rule lower_bound_all(1) [OF assms(1)])
  have new: "c \<notin> fst ` set cs" by (rule child_index_None [OF assms])
  have low: "char_key (fst x) < char_key c" if "x \<in> set (take ?l cs)" for x
    using that lower_bound_all(2) [OF assms(1)] l by (auto simp: in_set_conv_nth)
  have high: "char_key c < char_key (fst x)" if x: "x \<in> set (drop ?l cs)" for x
  proof -
    obtain i where "i < length cs - ?l" "x = cs ! (?l + i)" using x l by (auto simp: in_set_conv_nth)
    then have "?l + i < length cs" "x = cs ! (?l + i)" by auto
    moreover from this have "fst x \<noteq> c" using new by (metis image_eqI nth_mem)
    ultimately show ?thesis using lower_bound_all(3) [OF assms(1), of c "?l + i"]
      by (metis char_key_inject le_add1 order_less_le)
  qed
  have "sorted_wrt (\<lambda>x y. char_key (fst x) < char_key (fst y)) (take ?l cs @ drop ?l cs)"
    using assms(1) by (simp add: ordered_def)
  then show "ordered (add_child cs c n)"
    unfolding ordered_def add_child_def Let_def sorted_wrt_append using low high by auto
  have split: "map_of cs = map_of (drop ?l cs) ++ map_of (take ?l cs)" by (simp flip: map_of_append)
  have "map_of (take ?l cs) c = None" using low by (auto simp: map_of_eq_None_iff)
  then show "map_of (add_child cs c n) = (map_of cs)(c \<mapsto> n)"
    unfolding split add_child_def Let_def by (auto simp: fun_eq_iff map_add_def split: option.splits)
qed

section \<open>The tree as a map\<close>

datatype token = Lit char | Par

fun tokens :: "string \<Rightarrow> token list" where
  "tokens [] = []"
| "tokens (c # path) =
     (if c = CHR '':'' then Par # tokens (dropWhile (\<lambda>x. x \<noteq> CHR ''/'') path) else Lit c # tokens path)"

fun entry :: "'h node \<Rightarrow> token list \<Rightarrow> 'h option" where
  "entry n [] = node_handler n"
| "entry n (Lit c # ts) = (case map_of (children n) c of None \<Rightarrow> None | Some m \<Rightarrow> entry m ts)"
| "entry n (Par # ts) = (case param_child n of None \<Rightarrow> None | Some m \<Rightarrow> entry m ts)"

text \<open>A parameter ends at a slash: its node has no parameter of its own and no other literal child.\<close>

definition after_param :: "'h node \<Rightarrow> bool" where
  "after_param n \<longleftrightarrow> param_child n = None \<and> (\<forall>x \<in> set (children n). fst x = CHR ''/'')"

fun wf_node :: "'h node \<Rightarrow> bool" where
  "wf_node (Node cs pc pn h) \<longleftrightarrow>
     ordered cs \<and> (\<forall>x \<in> set cs. wf_node (snd x)) \<and> (case pc of None \<Rightarrow> True | Some n \<Rightarrow> wf_node n \<and> after_param n)"

lemma wf_new_node [simp]: "wf_node new_node" "after_param new_node"
  by (simp_all add: new_node_def ordered_def after_param_def)

lemma entry_new_node [simp]: "entry new_node ts = None"
  by (cases "(new_node, ts)" rule: entry.cases) (auto simp: new_node_def)

lemma after_param_insert:
  assumes "after_param n" "path = [] \<or> hd path = CHR ''/''"
  shows "after_param (insert_route path h n)"
proof (cases path)
  case Nil
  then show ?thesis using assms(1) by (cases n) (simp add: after_param_def)
next
  case (Cons c p)
  then have "c = CHR ''/''" using assms(2) by simp
  then show ?thesis using Cons assms(1)
    by (cases n) (auto simp: after_param_def set_add_child split: option.splits dest!: set_mp [OF set_update_subset_insert])
qed

lemma dropWhile_slash: "dropWhile (\<lambda>x. x \<noteq> s) xs = [] \<or> hd (dropWhile (\<lambda>x. x \<noteq> s) xs) = s"
  using hd_dropWhile [of "\<lambda>x. x \<noteq> s" xs] by auto

lemma insert_route_wf: "wf_node n \<Longrightarrow> wf_node (insert_route path h n)"
proof (induction path h n rule: insert_route.induct)
  case (2 c path h cs pc pn hn)
  show ?case
  proof (cases "c = CHR '':''")
    case True
    then show ?thesis using 2 after_param_insert [OF _ dropWhile_slash] by (auto simp: Let_def split: option.splits)
  next
    case lit: False
    show ?thesis
    proof (cases "child_index cs c")
      case None
      then show ?thesis using 2 lit map_of_add_child [OF _ None] by (auto simp: set_add_child)
    next
      case (Some i)
      then have "wf_node (snd (cs ! i))" using "2.prems" child_index_bound [OF Some] by auto
      then have "wf_node (insert_route path h (snd (cs ! i)))" using "2.IH"(4) [OF lit Some] by simp
      then show ?thesis using "2.prems" lit Some map_of_replace [OF _ Some] by fastforce
    qed
  qed
qed simp

lemma entry_insert:
  "wf_node n \<Longrightarrow> entry (insert_route path h n) ts = (if ts = tokens path then h else entry n ts)"
proof (induction path h n arbitrary: ts rule: insert_route.induct)
  case (1 h cs pc pn hn)
  then show ?case by (cases "(new_node, ts)" rule: entry.cases) auto
next
  case (2 c path h cs pc pn hn)
  show ?case
  proof (cases "c = CHR '':''")
    case True
    then show ?thesis using 2
      by (cases "(new_node, ts)" rule: entry.cases) (auto simp: Let_def split: option.splits)
  next
    case lit: False
    show ?thesis
    proof (cases "child_index cs c")
      case None
      then have "map_of cs c = None" using "2.prems" child_index_None [of cs c] by (auto simp: map_of_eq_None_iff)
      then show ?thesis using 2 lit None map_of_add_child [OF _ None]
        by (cases "(new_node, ts)" rule: entry.cases) auto
    next
      case (Some i)
      have i: "i < length cs" "fst (cs ! i) = c" using child_index_bound [OF Some] by auto
      have "wf_node (snd (cs ! i))" using "2.prems" i by auto
      moreover have "map_of cs c = Some (snd (cs ! i))"
        using "2.prems" i by (auto intro: map_of_nth_fst ordered_distinct)
      ultimately show ?thesis using "2.IH"(4) [OF lit Some] "2.prems" lit Some map_of_replace [OF _ Some]
        by (cases "(new_node, ts)" rule: entry.cases) auto
    qed
  qed
qed

section \<open>Search\<close>

text \<open>The readings of a path as a pattern, in the order of preference: the next character literally, then as
  the start of a parameter, which extends to the next slash.\<close>

function readings :: "string \<Rightarrow> token list list" where
  "readings [] = [[]]"
| "readings (c # p) =
     map ((#) (Lit c)) (readings p) @
     map ((#) Par) (case dropWhile (\<lambda>x. x \<noteq> CHR ''/'') (c # p) of [] \<Rightarrow> [[]] | s # p' \<Rightarrow> map ((#) (Lit s)) (readings p'))"
  by pat_completeness auto
termination
proof (relation "measure length", goal_cases)
  case (3 c p s p')
  then have "length (s # p') \<le> length (c # p)" by (metis length_dropWhile_le)
  then show ?case by simp
qed auto

fun first_some :: "('a \<Rightarrow> 'b option) \<Rightarrow> 'a list \<Rightarrow> 'b option" where
  "first_some f [] = None"
| "first_some f (x # xs) = (case f x of None \<Rightarrow> first_some f xs | Some y \<Rightarrow> Some y)"

lemma first_some_append [simp]:
  "first_some f (xs @ ys) = (case first_some f xs of None \<Rightarrow> first_some f ys | Some y \<Rightarrow> Some y)"
  by (induction xs) (auto split: option.splits)

lemma first_some_map [simp]: "first_some f (map g xs) = first_some (\<lambda>x. f (g x)) xs"
  by (induction xs) (auto split: option.splits)

lemma first_some_None [simp]: "first_some (\<lambda>_. None) xs = None"
  by (induction xs) auto

lemma first_some_find: "first_some f xs = Option.bind (find (\<lambda>x. f x \<noteq> None) xs) f"
  by (induction xs) (auto split: option.splits)

lemma find_False [simp]: "find (\<lambda>_. False) xs = None"
  by (induction xs) auto

text \<open>One step of the search and of the readings, with the segment at the front of the path kept folded.\<close>

definition seg :: "string \<Rightarrow> string" where
  "seg path = takeWhile (\<lambda>x. x \<noteq> CHR ''/'') path"

definition after_seg :: "string \<Rightarrow> string" where
  "after_seg path = dropWhile (\<lambda>x. x \<noteq> CHR ''/'') path"

definition par_readings :: "string \<Rightarrow> token list list" where
  "par_readings q = (case q of [] \<Rightarrow> [[]] | s # p \<Rightarrow> map ((#) (Lit s)) (readings p))"

definition lit_step :: "(char \<times> 'h node) list \<Rightarrow> char \<Rightarrow> string \<Rightarrow> (string \<rightharpoonup> string) \<Rightarrow> 'h option \<times> (string \<rightharpoonup> string)" where
  "lit_step cs c rest params = (case find_child cs c of None \<Rightarrow> (None, params) | Some child \<Rightarrow> search_recursive child rest params)"

lemma readings_Cons:
  "path = c # rest \<Longrightarrow> readings path = map ((#) (Lit c)) (readings rest) @ map ((#) Par) (par_readings (after_seg path))"
  unfolding par_readings_def after_seg_def by (simp only: readings.simps)

lemma search_lit:
  "lit_step cs c rest params = (Some h, params1) \<Longrightarrow>
   search_recursive (Node cs pc pn hn) (c # rest) params = (Some h, params1)"
  by (subst search_recursive.simps) (simp add: lit_step_def)

lemma search_par:
  "\<lbrakk>path = c # rest; lit_step cs c rest params = (None, params1)\<rbrakk> \<Longrightarrow>
   search_recursive (Node cs pc pn hn) path params =
     (case pc of
        None \<Rightarrow> (None, params1)
      | Some k \<Rightarrow>
          (case search_recursive k (after_seg path) (params1(pn \<mapsto> seg path)) of
             (Some h, ps) \<Rightarrow> (Some h, ps)
           | (None, ps) \<Rightarrow> (None, ps(pn := None))))"
  unfolding seg_def after_seg_def
  by (subst search_recursive.simps) (simp only: lit_step_def list.case prod.case option.case Let_def)

lemma search_Nil [simp]: "search_recursive n [] params = (node_handler n, params)"
  by (cases n) (simp add: search_recursive.simps)

text \<open>The search by cases, with the induction hypotheses the proofs need.\<close>

lemma search_induct [case_names Nil Step]:
  assumes nil: "\<And>cs pc pn hn params. P (Node cs pc pn hn) [] params"
    and step: "\<And>cs pc pn hn c rest path params.
      \<lbrakk>path = c # rest; \<And>child. find_child cs c = Some child \<Longrightarrow> P child rest params;
        \<And>ps k. pc = Some k \<Longrightarrow> P k (after_seg path) ps\<rbrakk>
      \<Longrightarrow> P (Node cs pc pn hn) path params"
  shows "P n path params"
proof (induction "size n" arbitrary: n path params rule: less_induct)
  case (less n path params)
  obtain cs pc pn hn where n: "n = Node cs pc pn hn" by (cases n)
  show ?case
  proof (cases path)
    case (Cons c rest)
    have "P child rest params" if "find_child cs c = Some child" for child
      using less size_child [OF that] n by (simp add: size_prod_simp)
    moreover have "P k (after_seg path) ps" if "pc = Some k" for ps k
      using less n that by simp
    ultimately show ?thesis unfolding n by (intro step [OF Cons])
  qed (simp add: n nil)
qed

text \<open>Below a parameter only a slash continues, so the general readings of the rest say the same.\<close>

lemma first_some_after_param:
  assumes "after_param n"
  shows "first_some (entry n) (par_readings q) = first_some (entry n) (readings q)"
  using assms by (cases q) (auto simp: par_readings_def after_param_def split: option.splits)

lemma find_after_param:
  assumes "after_param n"
  shows "find (\<lambda>ts. entry n ts \<noteq> None) (par_readings q)
    = find (\<lambda>ts. entry n ts \<noteq> None) (readings q)"
  using assms by (cases q) (auto simp: par_readings_def after_param_def find_append find_map split: option.splits)

lemma lit_spec:
  assumes "wf_node (Node cs pc pn hn)"
    and "\<And>child. find_child cs c = Some child \<Longrightarrow> wf_node child \<Longrightarrow>
      fst (search_recursive child rest params) = first_some (entry child) (readings rest)"
  shows "fst (lit_step cs c rest params) = first_some (\<lambda>ts. entry (Node cs pc pn hn) (Lit c # ts)) (readings rest)"
  using assms find_child_map_of [of cs c] find_child_in [of cs c]
  by (fastforce simp: lit_step_def split: option.splits)

lemma fst_backtrack: "fst (case x of (Some h, ps) \<Rightarrow> (Some h, ps) | (None, ps) \<Rightarrow> (None, f ps)) = fst x"
  by (simp split: prod.splits option.splits)

lemma snd_backtrack:
  "snd (case x of (Some h, ps) \<Rightarrow> (Some h, ps) | (None, ps) \<Rightarrow> (None, f ps)) = (case fst x of None \<Rightarrow> f (snd x) | Some _ \<Rightarrow> snd x)"
  by (simp split: prod.splits option.splits)

lemma search_spec:
  "wf_node n \<Longrightarrow> fst (search_recursive n path params) = first_some (entry n) (readings path)"
proof (induction n path params rule: search_induct)
  case (Step cs pc pn hn c rest path params)
  have lit: "fst (lit_step cs c rest params) = first_some (\<lambda>ts. entry (Node cs pc pn hn) (Lit c # ts)) (readings rest)"
    using Step.IH(1) by (rule lit_spec [OF Step.prems])
  obtain r params1 where l: "lit_step cs c rest params = (r, params1)" by (cases "lit_step cs c rest params")
  show ?case
  proof (cases r)
    case (Some h)
    then have "search_recursive (Node cs pc pn hn) path params = (Some h, params1)"
      using l by (simp only: search_lit Step.hyps)
    then show ?thesis using l lit [symmetric] Some by (simp add: readings_Cons [OF Step.hyps])
  next
    case None
    have par: "fst (search_recursive k (after_seg path) ps) = first_some (entry k) (par_readings (after_seg path))"
      if "pc = Some k" for k ps
      using Step.IH(2) [OF that] Step.prems that by (simp add: first_some_after_param)
    show ?thesis using l lit [symmetric] None par
      by (simp add: search_par [OF Step.hyps] readings_Cons [OF Step.hyps] fst_backtrack split: option.splits)
  qed
qed (simp split: option.splits)

section \<open>Parameters\<close>

text \<open>The bindings of a reading, and the trees in which no pattern uses a parameter name twice.\<close>

fun bindings :: "'h node \<Rightarrow> token list \<Rightarrow> string \<Rightarrow> (string \<times> string) list" where
  "bindings n [] path = []"
| "bindings n (Lit c # ts) path = (case map_of (children n) c of None \<Rightarrow> [] | Some m \<Rightarrow> bindings m ts (tl path))"
| "bindings n (Par # ts) path =
     (case param_child n of None \<Rightarrow> [] | Some m \<Rightarrow> (param_name n, seg path) # bindings m ts (after_seg path))"

fun names_ok :: "string set \<Rightarrow> 'h node \<Rightarrow> bool" where
  "names_ok B (Node cs pc pn h) \<longleftrightarrow>
     (\<forall>x \<in> set cs. names_ok B (snd x)) \<and> (case pc of None \<Rightarrow> True | Some n \<Rightarrow> pn \<notin> B \<and> names_ok (insert pn B) n)"

lemma dom_bound: "dom params \<subseteq> B \<Longrightarrow> dom (params(k \<mapsto> v)) \<subseteq> insert k B"
  by (simp add: subset_insertI2)

lemma search_fails:
  "\<lbrakk>names_ok B n; dom params \<subseteq> B; fst (search_recursive n path params) = None\<rbrakk> \<Longrightarrow> snd (search_recursive n path params) = params"
proof (induction n path params arbitrary: B rule: search_induct)
  case (Step cs pc pn hn c rest path params)
  obtain r params1 where l: "lit_step cs c rest params = (r, params1)" by (cases "lit_step cs c rest params")
  have "r = None" using Step.prems(3) l by (cases r) (simp_all add: search_lit Step.hyps)
  then have keep: "params1 = params"
    using Step.IH(1) [OF _ _ Step.prems(2)] Step.prems(1) l find_child_in [of cs c]
    by (fastforce simp: lit_step_def split: option.splits)
  note sp = search_par [OF Step.hyps, of cs params params1 pc pn hn, unfolded keep] and l1 = l [unfolded \<open>r = None\<close> keep]
  show ?case
  proof (cases pc)
    case (Some k)
    let ?s = "search_recursive k (after_seg path) (params(pn \<mapsto> seg path))"
    have n: "names_ok (insert pn B) k" "pn \<notin> B" using Step.prems(1) Some by auto
    have f: "fst ?s = None" using Step.prems(3) sp [OF l1] Some by (simp add: fst_backtrack)
    have "snd ?s = params(pn \<mapsto> seg path)" by (rule Step.IH(2) [OF Some n(1) dom_bound [OF Step.prems(2)] f])
    moreover have "params pn = None" using n(2) Step.prems(2) by auto
    ultimately show ?thesis using sp [OF l1] Some f by (auto simp: snd_backtrack fun_upd_idem)
  qed (use sp [OF l1] in simp)
qed simp

lemma bindings_fresh: "names_ok B n \<Longrightarrow> (k, v) \<in> set (bindings n ts path) \<Longrightarrow> k \<notin> B"
proof (induction n ts path arbitrary: B rule: bindings.induct)
  case (2 n c ts path)
  then obtain m where m: "map_of (children n) c = Some m" "(k, v) \<in> set (bindings m ts (tl path))"
    by (cases "map_of (children n) c") auto
  have "names_ok B m" using 2(2) map_of_SomeD [OF m(1)] by (cases n) auto
  with 2(1) m show ?case by blast
next
  case (3 n ts path)
  then show ?case by (cases n) (fastforce split: option.splits)
qed simp

lemma search_binds:
  "\<lbrakk>wf_node n; names_ok B n; dom params \<subseteq> B; find (\<lambda>ts. entry n ts \<noteq> None) (readings path) = Some ts\<rbrakk>
   \<Longrightarrow> snd (search_recursive n path params) = params ++ map_of (bindings n ts path)"
proof (induction n path params arbitrary: B ts rule: search_induct)
  case (Nil cs pc pn hn params)
  then show ?case by (auto split: if_splits)
next
  case (Step cs pc pn hn c rest path params)
  let ?n = "Node cs pc pn hn"
  have lit: "fst (lit_step cs c rest params) = first_some (\<lambda>ts. entry ?n (Lit c # ts)) (readings rest)"
    using search_spec by (rule lit_spec [OF Step.prems(1)])
  obtain r params1 where l: "lit_step cs c rest params = (r, params1)" by (cases "lit_step cs c rest params")
  show ?case
  proof (cases "find (\<lambda>ts. entry ?n (Lit c # ts) \<noteq> None) (readings rest)")
    case (Some us)
    then have ts: "ts = Lit c # us"
      using Step.prems(4) by (simp add: readings_Cons [OF Step.hyps] find_append find_map)
    have us: "entry ?n (Lit c # us) \<noteq> None" using Some by (metis (mono_tags, lifting) find_Some_iff)
    then obtain child where ch: "map_of cs c = Some child" by (auto split: option.splits)
    then have fc: "find_child cs c = Some child" using Step.prems(1) by (simp add: find_child_map_of)
    have ok: "wf_node child" "names_ok B child" using Step.prems(1,2) find_child_in [OF fc] by force+
    obtain h where "r = Some h" using lit l Some us by (auto simp: first_some_find)
    moreover have "snd (search_recursive child rest params) = params ++ map_of (bindings child us rest)"
      using Step.IH(1) [OF fc ok Step.prems(3), of us] Some ch by auto
    ultimately show ?thesis using l fc ch ts by (simp add: search_lit Step.hyps lit_step_def)
  next
    case None
    then have r: "r = None" using lit l by (simp add: first_some_find)
    have keep: "params1 = params"
    proof (cases "find_child cs c")
      case (Some child)
      then have "names_ok B child" using Step.prems(2) find_child_in [OF Some] by force
      from search_fails [OF this Step.prems(3), of rest] show ?thesis using l r Some by (simp add: lit_step_def)
    qed (use l in \<open>simp add: lit_step_def\<close>)
    obtain us where us: "find (\<lambda>ts. entry ?n (Par # ts) \<noteq> None) (par_readings (after_seg path)) = Some us" "ts = Par # us"
      using Step.prems(4) None by (auto simp: readings_Cons [OF Step.hyps] find_append find_map)
    have e: "entry ?n (Par # us) \<noteq> None" using us(1) by (metis (mono_tags, lifting) find_Some_iff)
    then obtain m where m: "pc = Some m" by (auto split: option.splits)
    have wf: "wf_node m" "after_param m" "names_ok (insert pn B) m" using Step.prems m by auto
    have f: "find (\<lambda>ts. entry m ts \<noteq> None) (readings (after_seg path)) = Some us"
      using us m find_after_param [OF wf(2)] by simp
    let ?s = "search_recursive m (after_seg path) (params(pn \<mapsto> seg path))"
    have "fst ?s = entry m us" unfolding search_spec [OF wf(1)] first_some_find f by simp
    then obtain h where "fst ?s = Some h" using m e by auto
    then have "search_recursive ?n path params = ?s"
      using l r m keep by (auto simp: search_par [OF Step.hyps] split: prod.splits)
    moreover have "snd ?s = params(pn \<mapsto> seg path) ++ map_of (bindings m us (after_seg path))"
      by (rule Step.IH(2) [OF m wf(1,3) dom_bound [OF Step.prems(3)] f])
    moreover have "map_of (bindings m us (after_seg path)) pn = None"
      using bindings_fresh [OF wf(3), of pn _ us "after_seg path"] by (auto simp: map_of_eq_None_iff)
    ultimately show ?thesis using us(2) m by (auto simp: map_add_def fun_eq_iff split: option.split)
  qed
qed

section \<open>Registration\<close>

text \<open>A store of entries by key: \<open>put\<close> changes the entry of its key and no other.\<close>

locale keyed_store =
  fixes inv :: "'s \<Rightarrow> bool" and get :: "'s \<Rightarrow> 'k \<Rightarrow> 'v option" and put :: "'p \<Rightarrow> 'v option \<Rightarrow> 's \<Rightarrow> 's" and key :: "'p \<Rightarrow> 'k"
  assumes inv_put: "inv s \<Longrightarrow> inv (put p v s)"
    and get_put: "inv s \<Longrightarrow> get (put p v s) = (get s)(key p := v)"
begin

lemma put_all_inv: "inv s \<Longrightarrow> inv (fold (\<lambda>(p, v). put p (Some v)) ps s)"
  by (induction ps arbitrary: s) (auto simp: inv_put)

lemma put_all: "inv s \<Longrightarrow> get (fold (\<lambda>(p, v). put p (Some v)) ps s) = get s ++ map_of (rev (map (\<lambda>(p, v). (key p, v)) ps))"
  by (induction ps arbitrary: s) (auto simp: inv_put get_put map_add_def fun_eq_iff split: option.splits)

end

interpretation tree: keyed_store wf_node entry insert_route tokens
  by unfold_locales (auto simp: insert_route_wf entry_insert)

definition router_wf :: "'h router \<Rightarrow> bool" where
  "router_wf r \<longleftrightarrow> (\<forall>m. wf_node (routes r m))"

definition registered :: "'h router \<Rightarrow> Method \<times> token list \<Rightarrow> 'h option" where
  "registered r k = entry (routes r (fst k)) (snd k)"

interpretation rt: keyed_store router_wf registered "\<lambda>(m, path). add_route m path" "\<lambda>(m, path). (m, tokens path)"
proof
  fix r :: "'a router" and p :: "Method \<times> string" and v :: "'a option"
  assume r: "router_wf r"
  obtain m path where p: "p = (m, path)" by (cases p)
  show "router_wf ((\<lambda>(m, path). add_route m path) p v r)"
    using r by (auto simp: p router_wf_def add_route_def tree.inv_put)
  show "registered ((\<lambda>(m, path). add_route m path) p v r) = (registered r)((\<lambda>(m, path). (m, tokens path)) p := v)"
    using r by (auto simp: p router_wf_def add_route_def tree.get_put registered_def fun_eq_iff)
qed

text \<open>The configuration of a router: its calls in order.\<close>

datatype 'h setup_call = Route Method string 'h | PrefixRoute Method string 'h | Use nat | UseAsync nat

fun run_call :: "'h setup_call \<Rightarrow> 'h router \<Rightarrow> 'h router" where
  "run_call (Route m path h) = add_route m path (Some h)"
| "run_call (PrefixRoute m pre h) = add_prefix_route m pre (Some h)"
| "run_call (Use mw) = use_mw mw"
| "run_call (UseAsync mw) = use_async mw"

fun route_of :: "'h setup_call \<Rightarrow> ((Method \<times> string) \<times> 'h) list" where
  "route_of (Route m path h) = [((m, path), h)]"
| "route_of _ = []"

fun prefix_of :: "'h setup_call \<Rightarrow> (Method \<times> string \<times> 'h option) list" where
  "prefix_of (PrefixRoute m pre h) = [(m, pre, Some h)]"
| "prefix_of _ = []"

definition route_table :: "'h setup_call list \<Rightarrow> Method \<times> token list \<rightharpoonup> 'h" where
  "route_table calls = map_of (rev (map (\<lambda>((m, path), h). ((m, tokens path), h)) (concat (map route_of calls))))"

lemma run_call_routes:
  "routes r = routes r' \<Longrightarrow>
   routes (run_call a r) = routes (fold (\<lambda>(p, v). (\<lambda>(m, path). add_route m path) p (Some v)) (route_of a) r')"
  by (cases a) (auto simp: add_route_def add_prefix_route_def use_mw_def use_async_def)

lemma run_calls_routes:
  "routes r = routes r' \<Longrightarrow>
   routes (fold run_call calls r) =
   routes (fold (\<lambda>(p, v). (\<lambda>(m, path). add_route m path) p (Some v)) (concat (map route_of calls)) r')"
proof (induction calls arbitrary: r r')
  case (Cons a calls)
  show ?case using Cons.IH [OF run_call_routes [OF Cons.prems, of a]] by (simp only: list.map concat.simps fold_simps fold_append comp_apply)
qed simp

lemma run_calls_prefixes: "prefix_routes (fold run_call calls r) = prefix_routes r @ concat (map prefix_of calls)"
proof (induction calls arbitrary: r)
  case (Cons a calls)
  then show ?case by (cases a) (auto simp: add_route_def add_prefix_route_def use_mw_def use_async_def)
qed simp

lemma router_wf_Router [simp]: "router_wf Router"
  by (simp add: router_wf_def Router_def)

lemma registered_Router [simp]: "registered Router = Map.empty"
  by (simp add: registered_def Router_def fun_eq_iff)

lemma run_calls_wf: "router_wf (fold run_call calls Router)"
  using rt.put_all_inv [OF router_wf_Router, of "concat (map route_of calls)"] run_calls_routes [OF refl, of calls Router]
  by (simp add: router_wf_def)

lemma run_calls_registered: "registered (fold run_call calls Router) = route_table calls"
proof -
  have "registered (fold run_call calls Router) =
    registered (fold (\<lambda>(p, v). (\<lambda>(m, path). add_route m path) p (Some v)) (concat (map route_of calls)) Router)"
    by (simp add: registered_def fun_eq_iff run_calls_routes [OF refl])
  then show ?thesis using rt.put_all [OF router_wf_Router, of "concat (map route_of calls)"]
    by (simp add: route_table_def case_prod_unfold)
qed

lemma prefix_of_Some: "x \<in> set (prefix_of a) \<Longrightarrow> snd (snd x) \<noteq> None"
  by (cases a) auto

lemma entry_run_calls: "entry (routes (fold run_call calls Router) m) = (\<lambda>ts. route_table calls (m, ts))"
proof
  fix ts show "entry (routes (fold run_call calls Router) m) ts = route_table calls (m, ts)"
    using fun_cong [OF run_calls_registered, of calls "(m, ts)"] by (simp add: registered_def)
qed

text \<open>C4: Routing. For a router configured by any sequence of calls, the handler of a request is that of the
  first reading of its path, literal characters before parameters, that a route of the method was
  registered for, the last registration of a pattern counting; and when there is none, that of the
  first prefix route of the method whose prefix starts the path.\<close>

theorem router_matches:
  "fst (match_route m path params (fold run_call calls Router)) =
     (case first_some (\<lambda>ts. route_table calls (m, ts)) (readings path) of
        Some h \<Rightarrow> Some h
      | None \<Rightarrow> first_some (\<lambda>(pm, pre, h). if pm = m \<and> starts_with path pre then h else None) (concat (map prefix_of calls)))"
proof -
  let ?r = "fold run_call calls Router"
  have tree: "fst (search_recursive (routes ?r m) path params) = first_some (\<lambda>ts. route_table calls (m, ts)) (readings path)"
    using search_spec [of "routes ?r m" path params] run_calls_wf [of calls] by (simp add: router_wf_def entry_run_calls)
  have "\<forall>x \<in> set prs. snd (snd x) \<noteq> None \<Longrightarrow> fst (match_prefix m path prs ps) =
    first_some (\<lambda>(pm, pre, h). if pm = m \<and> starts_with path pre then h else None) prs" for prs :: "(Method \<times> string \<times> 'a option) list" and ps
    by (induction m path prs ps rule: match_prefix.induct) auto
  moreover have "\<forall>x \<in> set (concat (map prefix_of calls)). snd (snd x) \<noteq> None"
    using prefix_of_Some by auto
  moreover have "prefix_routes ?r = concat (map prefix_of calls)" by (simp add: run_calls_prefixes) (simp add: Router_def)
  ultimately show ?thesis
    using tree [symmetric] by (cases "search_recursive (routes ?r m) path params") (simp add: match_route_def split: option.splits)
qed

text \<open>What a pattern itself binds, and when the patterns of a router name their parameters in one way: \<open>nm\<close> gives the name of the
  parameter that follows a list of tokens, and no pattern uses a name twice.\<close>

fun pattern_bindings :: "string \<Rightarrow> string \<Rightarrow> (string \<times> string) list" where
  "pattern_bindings [] path = []"
| "pattern_bindings (c # pat) path =
     (if c = CHR '':'' then
        (takeWhile (\<lambda>x. x \<noteq> CHR ''/'') pat, seg path) # pattern_bindings (dropWhile (\<lambda>x. x \<noteq> CHR ''/'') pat) (after_seg path)
      else pattern_bindings pat (tl path))"

fun named :: "(token list \<Rightarrow> string) \<Rightarrow> token list \<Rightarrow> string set \<Rightarrow> string \<Rightarrow> bool" where
  "named nm pre B [] \<longleftrightarrow> True"
| "named nm pre B (c # pat) \<longleftrightarrow>
     (if c = CHR '':'' then
        takeWhile (\<lambda>x. x \<noteq> CHR ''/'') pat = nm pre \<and> nm pre \<notin> B
        \<and> named nm (pre @ [Par]) (insert (nm pre) B) (dropWhile (\<lambda>x. x \<noteq> CHR ''/'') pat)
      else named nm (pre @ [Lit c]) B pat)"

fun node_named :: "(token list \<Rightarrow> string) \<Rightarrow> token list \<Rightarrow> string set \<Rightarrow> 'h node \<Rightarrow> bool" where
  "node_named nm pre B (Node cs pc pn h) \<longleftrightarrow>
     (\<forall>x \<in> set cs. node_named nm (pre @ [Lit (fst x)]) B (snd x))
     \<and> (case pc of None \<Rightarrow> True | Some n \<Rightarrow> pn = nm pre \<and> pn \<notin> B \<and> node_named nm (pre @ [Par]) (insert pn B) n)"

lemma node_named_new [simp]: "node_named nm pre B new_node"
  by (simp add: new_node_def)

lemma named_insert: "node_named nm pre B n \<Longrightarrow> named nm pre B pat \<Longrightarrow> node_named nm pre B (insert_route pat h n)"
proof (induction pat h n arbitrary: pre B rule: insert_route.induct)
  case (2 c path h cs pc pn hn)
  show ?case
  proof (cases "c = CHR '':''")
    case True
    then show ?thesis using 2 by (auto simp: Let_def split: option.splits)
  next
    case False
    show ?thesis
    proof (cases "child_index cs c")
      case None
      then show ?thesis using 2 False by (auto simp: set_add_child)
    next
      case (Some i)
      then have i: "i < length cs" "fst (cs ! i) = c" using child_index_bound by blast+
      have "node_named nm (pre @ [Lit c]) B (snd (cs ! i))" using 2(5) i nth_mem [OF i(1)] by force
      then show ?thesis using 2 False Some set_update_subset_insert [of cs i] by fastforce
    qed
  qed
qed (auto split: option.splits)

lemma node_named_names: "node_named nm pre B n \<Longrightarrow> names_ok B n"
proof (induction n arbitrary: pre B)
  case (Node cs pc pn h)
  have "names_ok B (snd x)" if "x \<in> set cs" for x
    using Node.prems that by (intro Node.IH(1) [of x]) (auto simp: snds.simps)
  moreover have "names_ok (insert pn B) k" if "pc = Some k" for k
    using Node.prems that by (intro Node.IH(2) [of k]) auto
  ultimately show ?case using Node.prems by (auto split: option.splits)
qed

lemma named_bindings:
  "node_named nm pre B n \<Longrightarrow> named nm pre B pat \<Longrightarrow> entry n (tokens pat) \<noteq> None \<Longrightarrow>
     bindings n (tokens pat) path = pattern_bindings pat path"
proof (induction pat path arbitrary: n pre B rule: pattern_bindings.induct)
  case (2 c pat path)
  obtain cs pc pn h where n: "n = Node cs pc pn h" by (cases n)
  show ?case
  proof (cases "c = CHR '':''")
    case True
    then obtain k where k: "pc = Some k" using 2(5) n by (auto split: option.splits)
    then show ?thesis using 2(1) [OF True, of "pre @ [Par]" "insert (nm pre) B" k] 2(3-5) True n by auto
  next
    case False
    then obtain k where k: "map_of cs c = Some k" using 2(5) n by (auto split: option.splits)
    have "node_named nm (pre @ [Lit c]) B k" using 2(3) n map_of_SomeD [OF k] by force
    then show ?thesis using 2(2) [OF False, of "pre @ [Lit c]" B k] 2(4,5) False n k by simp
  qed
qed simp

definition patterns :: "Method \<Rightarrow> 'h setup_call list \<Rightarrow> string set" where
  "patterns m calls = {pat. \<exists>h. Route m pat h \<in> set calls}"

lemma run_calls_named:
  assumes "\<forall>pat \<in> patterns m calls. named nm [] {} pat"
  shows "node_named nm [] {} (routes (fold run_call calls Router) m)"
proof -
  have "node_named nm [] {} (routes r m) \<Longrightarrow> \<forall>pat \<in> patterns m calls. named nm [] {} pat \<Longrightarrow>
    node_named nm [] {} (routes (fold run_call calls r) m)" for r
  proof (induction calls arbitrary: r)
    case (Cons a calls)
    have "node_named nm [] {} (routes (run_call a r) m)"
      using Cons.prems named_insert [of nm "[]" "{}" "routes r m"]
      by (cases a) (auto simp: patterns_def add_route_def add_prefix_route_def use_mw_def use_async_def)
    moreover have "\<forall>pat \<in> patterns m calls. named nm [] {} pat" using Cons.prems(2) by (auto simp: patterns_def)
    ultimately show ?case using Cons.IH [of "run_call a r"] by simp
  qed simp
  then show ?thesis using assms by (simp add: Router_def)
qed

text \<open>C30: Parameters. In a router in which no pattern of the method uses a parameter name twice, and patterns that share a position name it
  alike, the parameters of a request that matches a pattern, starting from none, are exactly those of that pattern, each bound to its
  segment of the path: what the search bound on branches it gave up is gone.\<close>

theorem router_binds:
  assumes "\<forall>p \<in> patterns m calls. named nm [] {} p" "pat \<in> patterns m calls"
    and "find (\<lambda>ts. route_table calls (m, ts) \<noteq> None) (readings path) = Some (tokens pat)"
  shows "snd (match_route m path Map.empty (fold run_call calls Router)) = map_of (pattern_bindings pat path)"
proof -
  let ?n = "routes (fold run_call calls Router) m"
  have wf: "wf_node ?n" using run_calls_wf [of calls] by (simp add: router_wf_def)
  have nn: "node_named nm [] {} ?n" by (rule run_calls_named [OF assms(1)])
  have e: "route_table calls (m, tokens pat) \<noteq> None" using assms(3) by (metis (mono_tags, lifting) find_Some_iff)
  have "snd (search_recursive ?n path Map.empty) = Map.empty ++ map_of (bindings ?n (tokens pat) path)"
    using assms(3) by (intro search_binds [OF wf node_named_names [OF nn]]) (auto simp: entry_run_calls)
  also have "bindings ?n (tokens pat) path = pattern_bindings pat path"
    using assms(1,2) e by (intro named_bindings [OF nn]) (auto simp: entry_run_calls)
  finally have "snd (search_recursive ?n path Map.empty) = map_of (pattern_bindings pat path)" by simp
  moreover have "fst (search_recursive ?n path Map.empty) = route_table calls (m, tokens pat)"
    unfolding search_spec [OF wf] entry_run_calls first_some_find assms(3) by simp
  ultimately show ?thesis using e by (auto simp: match_route_def split: prod.splits option.splits)
qed

definition two_routes :: "nat setup_call list" where
  "two_routes = [Route Get ''/u/:id'' 1, Route Get ''/u/:id/x'' 2, Route Get ''/u/me'' 3, UseAsync 7]"

lemmas router_eval = run_call.simps add_route_def add_prefix_route_def use_mw_def use_async_def Router_def insert_route.simps
  new_node_def child_index_def add_child_def kBinarySearchThreshold_def find_child_def Let_def

theorem router_binds_witness:
  "snd (match_route Get ''/u/me/x'' Map.empty (fold run_call two_routes Router)) = [''id'' \<mapsto> ''me'']"
proof -
  have "snd (match_route Get ''/u/me/x'' Map.empty (fold run_call two_routes Router)) = map_of (pattern_bindings ''/u/:id/x'' ''/u/me/x'')"
    by (rule router_binds [where nm = "\<lambda>_. ''id''"])
      (auto simp: two_routes_def patterns_def route_table_def seg_def after_seg_def)
  then show ?thesis by (simp add: seg_def after_seg_def)
qed

text \<open>The hypotheses are needed: when a pattern uses a name twice, a failed branch erases the binding of the
  parameter before it, and the second route is called without its first parameter.\<close>

lemma param_erased:
  "match_route Get ''/1/b/2'' Map.empty (fold run_call [Route Get ''/:a/b/:a/z'' 1, Route Get ''/:a/:c/2'' 2] Router)
   = (Some (2 :: nat), [''c'' \<mapsto> ''b''])"
  by (simp add: router_eval lower_bound.simps match_route_def search_recursive.simps fun_eq_iff)

text \<open>Two routes that name the same position differently: the first name is the one every handler sees.\<close>

lemma first_name_wins:
  "match_route Get ''/u/5/p'' Map.empty (fold run_call [Route Get ''/u/:id'' 1, Route Get ''/u/:uid/p'' 2] Router)
   = (Some (2 :: nat), [''id'' \<mapsto> ''5''])"
  by (simp add: router_eval lower_bound.simps match_route_def search_recursive.simps)

text \<open>The type of a configured router: in every node of every tree the children are sorted by strictly increasing
  character, which the binary search needs, and a parameter node continues with a slash only.\<close>

theorem router_well_formed: "wf_node (routes (fold run_call calls Router) m)"
  using run_calls_wf [of calls] by (simp add: router_wf_def)

end
