(* ===== verification/Response.thy ===== *)
theory Response
  imports Http_Parser_Spec
begin

text \<open>
  \<open>Response\<close> of \<open>include/qbuem/http/response.hpp\<close> and \<open>src/http/response.cpp\<close>: the builder, chunked encoding with trailers,
  streaming and serialisation, and the write loops of \<open>src/qbuem_stack.cpp\<close> that send it. The header map is an association
  list in its order of iteration. The result of a \<open>WriteAll\<close> is an argument of the streaming operations.
\<close>

section \<open>Numbers\<close>

fun to_string :: "nat \<Rightarrow> string" where
  "to_string n = (if n < 10 then [char_of (48 + n)] else to_string (n div 10) @ [char_of (48 + n mod 10)])"

declare to_string.simps [simp del]

text \<open>\<open>snprintf\<close> with \<open>%zx\<close>.\<close>

definition hex_char :: "nat \<Rightarrow> char" where
  "hex_char d = (if d < 10 then char_of (48 + d) else char_of (87 + d))"

fun to_hex :: "nat \<Rightarrow> string" where
  "to_hex n = (if n < 16 then [hex_char n] else to_hex (n div 16) @ [hex_char (n mod 16)])"

declare to_hex.simps [simp del]

section \<open>The builder\<close>

record response =
  status_code :: nat
  r_headers :: "(string \<times> string) list"
  cookies :: "string list"
  r_body :: string
  file_path :: string
  file_size :: nat
  r_chunked :: bool
  chunk_buf :: string
  streaming :: bool
  header_sent :: bool
  streamed :: bool
  streamed_bytes :: nat
  trailers :: "(string \<times> string) list"

definition Response :: response where
  "Response =
     \<lparr> status_code = 200, r_headers = [], cookies = [], r_body = [], file_path = [], file_size = 0, r_chunked = False,
       chunk_buf = [], streaming = False, header_sent = False, streamed = False, streamed_bytes = 0, trailers = [] \<rparr>"

definition set_status :: "nat \<Rightarrow> response \<Rightarrow> response" where
  "set_status st r = r\<lparr>status_code := st\<rparr>"

definition set_header :: "string \<Rightarrow> string \<Rightarrow> response \<Rightarrow> response" where
  "set_header key val r = r\<lparr>r_headers := AList.update key val (r_headers r)\<rparr>"

definition set_rbody :: "string \<Rightarrow> response \<Rightarrow> response" where
  "set_rbody b r = r\<lparr>r_body := b\<rparr>"

definition get_header :: "response \<Rightarrow> string \<Rightarrow> string" where
  "get_header r key = (case map_of (r_headers r) key of Some v \<Rightarrow> v | None \<Rightarrow> [])"

definition chunk :: "string \<Rightarrow> response \<Rightarrow> response" where
  "chunk data r =
     (if data = [] then r else r\<lparr>chunk_buf := chunk_buf r @ to_hex (length data) @ [CR, LF] @ data @ [CR, LF]\<rparr>)"

definition end_chunks :: "response \<Rightarrow> response" where
  "end_chunks r = r\<lparr>chunk_buf := chunk_buf r @ ''0'' @ [CR, LF], r_chunked := True\<rparr>"

definition trailer :: "string \<Rightarrow> string \<Rightarrow> response \<Rightarrow> response" where
  "trailer key val r =
     (if \<not> r_chunked r then r
      else
        (let hs = (case map_of (r_headers r) ''Trailer'' of
                     None \<Rightarrow> AList.update ''Trailer'' key (r_headers r)
                   | Some v \<Rightarrow> AList.update ''Trailer'' (v @ '', '' @ key) (r_headers r))
         in r\<lparr>r_headers := hs, trailers := trailers r @ [(key, val)]\<rparr>))"

definition encode_trailers :: "response \<Rightarrow> string" where
  "encode_trailers r =
     (if trailers r = [] then [CR, LF]
      else concat (map (\<lambda>(k, v). k @ '': '' @ v @ [CR, LF]) (trailers r)) @ [CR, LF])"

record CookieOptions =
  co_path :: string
  co_domain :: string
  same_site :: string
  max_age :: int
  http_only :: bool
  secure :: bool

definition set_cookie :: "string \<Rightarrow> string \<Rightarrow> CookieOptions \<Rightarrow> response \<Rightarrow> response" where
  "set_cookie nam val opts r =
     r\<lparr>cookies := cookies r @
        [nam @ ''='' @ val
         @ (if co_path opts \<noteq> [] then ''; Path='' @ co_path opts else [])
         @ (if co_domain opts \<noteq> [] then ''; Domain='' @ co_domain opts else [])
         @ (if max_age opts \<ge> 0 then ''; Max-Age='' @ to_string (nat (max_age opts)) else [])
         @ (if same_site opts \<noteq> [] then ''; SameSite='' @ same_site opts else [])
         @ (if secure opts then ''; Secure'' else [])
         @ (if http_only opts then ''; HttpOnly'' else [])]\<rparr>"

definition etag :: "string \<Rightarrow> response \<Rightarrow> response" where
  "etag val r =
     (if val \<noteq> [] \<and> hd val = CHR 0x22 then set_header ''ETag'' val r
      else if length val \<ge> 2 \<and> val ! 0 = CHR ''W'' \<and> val ! 1 = CHR ''/'' then set_header ''ETag'' val r
      else set_header ''ETag'' (CHR 0x22 # val @ [CHR 0x22]) r)"

definition sendfile_path :: "string \<Rightarrow> nat \<Rightarrow> response \<Rightarrow> response" where
  "sendfile_path path n r = r\<lparr>file_path := path, file_size := n\<rparr>"

section \<open>Serialisation\<close>

definition status_to_string :: "nat \<Rightarrow> string" where
  "status_to_string st =
     (if st = 200 then ''OK'' else if st = 201 then ''Created'' else if st = 204 then ''No Content''
      else if st = 206 then ''Partial Content'' else if st = 301 then ''Moved Permanently'' else if st = 302 then ''Found''
      else if st = 304 then ''Not Modified'' else if st = 400 then ''Bad Request'' else if st = 401 then ''Unauthorized''
      else if st = 403 then ''Forbidden'' else if st = 404 then ''Not Found'' else if st = 405 then ''Method Not Allowed''
      else if st = 408 then ''Request Timeout'' else if st = 429 then ''Too Many Requests''
      else if st = 500 then ''Internal Server Error'' else if st = 502 then ''Bad Gateway''
      else if st = 503 then ''Service Unavailable'' else ''Unknown'')"

definition serialize_header :: "response \<Rightarrow> string" where
  "serialize_header r =
     ''HTTP/1.1 '' @ to_string (status_code r) @ '' '' @ status_to_string (status_code r) @ [CR, LF]
     @ concat (map (\<lambda>(k, v). k @ '': '' @ v @ [CR, LF]) (r_headers r))
     @ concat (map (\<lambda>c. ''Set-Cookie: '' @ c @ [CR, LF]) (cookies r))
     @ (if r_chunked r then ''Transfer-Encoding: chunked'' @ [CR, LF, CR, LF]
        else ''Content-Length: '' @ to_string (if file_path r = [] then length (r_body r) else file_size r) @ [CR, LF, CR, LF])"

definition serialize :: "response \<Rightarrow> string" where
  "serialize r = serialize_header r @ r_body r"

section \<open>Streaming\<close>

text \<open>The text given to \<open>WriteAll\<close>, empty when there is none, and the response after it.\<close>

definition stream_head :: "response \<Rightarrow> string \<times> response" where
  "stream_head r =
     (if \<not> header_sent r then
        (let r = r\<lparr>r_chunked := True\<rparr> in (serialize_header r, r\<lparr>header_sent := True, streamed := True\<rparr>))
      else ([], r))"

definition flush :: "bool \<Rightarrow> response \<Rightarrow> string \<times> response" where
  "flush ok r =
     (if \<not> streaming r then ([], r)
      else
        (let (hdr, r) = stream_head r; out = hdr @ chunk_buf r; r = r\<lparr>chunk_buf := []\<rparr> in
         if out = [] then ([], r)
         else (out, if ok then r\<lparr>streamed_bytes := streamed_bytes r + length out\<rparr> else r\<lparr>streaming := False\<rparr>)))"

definition flush_end :: "bool \<Rightarrow> response \<Rightarrow> string \<times> response" where
  "flush_end ok r =
     (if \<not> streaming r then ([], r)
      else
        (let (hdr, r) = stream_head r; out = hdr @ chunk_buf r @ ''0'' @ [CR, LF, CR, LF]; r = r\<lparr>chunk_buf := []\<rparr> in
         (out, (if ok then r\<lparr>streamed_bytes := streamed_bytes r + length out\<rparr> else r)\<lparr>streaming := False\<rparr>)))"

section \<open>Writing\<close>

text \<open>The outcome of a write call: a number of bytes, at most those offered, an interrupted call, a full socket that does or does not
  become writable in time, or another error. The loops return the bytes written and whether all were.\<close>

datatype write_result = Wrote nat | Interrupted | WouldBlock bool | HardError

fun write_all :: "write_result list \<Rightarrow> string \<Rightarrow> string" where
  "write_all [] data = []"
| "write_all (w # ws) data =
     (if data = [] then []
      else case w of
        Wrote n \<Rightarrow> if n = 0 then [] else take n data @ write_all ws (drop n data)
      | Interrupted \<Rightarrow> write_all ws data
      | WouldBlock writable \<Rightarrow> if writable then write_all ws data else []
      | HardError \<Rightarrow> [])"

text \<open>The advance of the \<open>iovec\<close> array after a partial write.\<close>

fun advance_iov :: "string list \<Rightarrow> nat \<Rightarrow> string list" where
  "advance_iov [] remaining = []"
| "advance_iov (b # bs) remaining =
     (if remaining = 0 then b # bs
      else if length b \<le> remaining then advance_iov bs (remaining - length b)
      else drop remaining b # bs)"

fun writev_loop :: "write_result list \<Rightarrow> string list \<Rightarrow> nat \<Rightarrow> string" where
  "writev_loop [] iov tot = []"
| "writev_loop (w # ws) iov tot =
     (if tot = 0 then []
      else case w of
        Wrote n \<Rightarrow> if n = 0 then [] else take n (concat iov) @ writev_loop ws (advance_iov iov n) (tot - n)
      | Interrupted \<Rightarrow> writev_loop ws iov tot
      | WouldBlock writable \<Rightarrow> if writable then writev_loop ws iov tot else []
      | HardError \<Rightarrow> [])"

definition writev_response :: "write_result list \<Rightarrow> string \<Rightarrow> string \<Rightarrow> string" where
  "writev_response ws hdr body =
     writev_loop ws (if body = [] then [hdr] else [hdr, body]) (length hdr + length body)"

end
