(* ===== verification/Response_Spec.thy ===== *)
theory Response_Spec
  imports Response
begin

text \<open>
  What a client gets: a written response read back by the message format, the write loops, and the chunked framing read by
  the parser of the library itself.
\<close>

section \<open>Write loops\<close>

lemma concat_advance_iov: "concat (advance_iov iov n) = drop n (concat iov)"
  by (induction iov n rule: advance_iov.induct) auto

lemma writev_loop_write_all: "tot = length (concat iov) \<Longrightarrow> writev_loop ws iov tot = write_all ws (concat iov)"
proof (induction ws arbitrary: iov tot)
  case (Cons w ws)
  have "writev_loop ws (advance_iov iov n) (tot - n) = write_all ws (drop n (concat iov))" for n
    using Cons.IH [of "tot - n" "advance_iov iov n"] Cons.prems by (simp add: concat_advance_iov)
  then show ?case using Cons by (auto split: write_result.split)
qed simp

fun progress :: "write_result list \<Rightarrow> nat" where
  "progress [] = 0"
| "progress (w # ws) = (case w of Wrote n \<Rightarrow> if n = 0 then 0 else n + progress ws | Interrupted \<Rightarrow> progress ws
     | WouldBlock writable \<Rightarrow> if writable then progress ws else 0 | HardError \<Rightarrow> 0)"

lemma write_all_take: "write_all ws data = take (progress ws) data"
proof (induction ws arbitrary: data)
  case (Cons w ws)
  then show ?case by (auto simp: take_add split: write_result.split)
qed simp

text \<open>C27: Sending. Whatever the socket does with each call, short writes, interruptions and waits included, the scatter
  write of header and body sends exactly what writing their concatenation would, the first bytes of it in order,
  as many as the calls before the first failure took; so all of it when these take enough.\<close>

theorem writev_sends:
  "writev_response ws hdr body = write_all ws (hdr @ body) \<and> write_all ws data = take (progress ws) data"
  using writev_loop_write_all [of "length hdr + length body" "[hdr, body]" ws]
    writev_loop_write_all [of "length hdr" "[hdr]" ws] write_all_take
  by (simp add: writev_response_def)

section \<open>Numbers\<close>

lemma digit_char: "d < 10 \<Longrightarrow> is_digit (char_of (48 + d)) \<and> code (char_of (48 + d)) = 48 + d"
  by (simp add: is_digit_def)

lemma to_string_digits:
  "list_all is_digit (to_string n) \<and> to_string n \<noteq> [] \<and> foldl (\<lambda>a c. a * 10 + (code c - code CHR ''0'')) 0 (to_string n) = n"
proof (induction n rule: to_string.induct)
  case (1 n)
  have "n mod 10 < 10" by simp
  from digit_char [OF this] digit_char [of n] show ?case using 1 by (subst (1 2 3) to_string.simps) auto
qed

lemma from_chars_to_string: "n < 2 ^ 64 \<Longrightarrow> from_chars (to_string n) = Some n"
proof -
  assume n: "n < 2 ^ 64"
  have t: "takeWhile is_digit (to_string n) = to_string n"
    using to_string_digits [of n] by (auto simp: list_all_iff intro: takeWhile_eq_all_conv [THEN iffD2])
  show ?thesis unfolding from_chars_def Let_def t using to_string_digits [of n] n by simp
qed

lemma to_string_plain: "x \<in> set (to_string n) \<Longrightarrow> is_digit x"
  using to_string_digits [of n] by (simp add: list_all_iff)

section \<open>Reading a response\<close>

text \<open>The message format, from the side of a client: lines end with CR LF, the header section with an empty line, and the
  body has the length the Content-Length field says.\<close>

definition read_line :: "string \<Rightarrow> (string \<times> string) option" where
  "read_line s = map_option (\<lambda>i. (take i s, drop (i + 2) s)) (find_sub [CR, LF] s)"

lemma read_line_shorter: "read_line s = Some (line, rest) \<Longrightarrow> length rest < length s"
  by (auto simp: read_line_def dest!: find_sub_bound)

function read_fields :: "string \<Rightarrow> ((string \<times> string) list \<times> string) option" where
  "read_fields s =
     (case read_line s of
        None \<Rightarrow> None
      | Some (line, rest) \<Rightarrow>
          if line = [] then Some ([], rest)
          else case find_sub '': '' line of
            None \<Rightarrow> None
          | Some j \<Rightarrow> map_option (\<lambda>(fs, rest). ((take j line, drop (j + 2) line) # fs, rest)) (read_fields rest))"
  by pat_completeness auto
termination
  by (relation "measure length") (auto dest: read_line_shorter)

declare read_fields.simps [simp del]

definition read_response :: "string \<Rightarrow> (nat \<times> (string \<times> string) list \<times> string \<times> string) option" where
  "read_response s =
     (case read_line s of
        None \<Rightarrow> None
      | Some (line, rest) \<Rightarrow>
          if take 9 line \<noteq> ''HTTP/1.1 '' then None
          else case (from_chars (takeWhile (\<lambda>c. c \<noteq> CHR '' '') (drop 9 line)), read_fields rest) of
            (Some st, Some (fs, rest)) \<Rightarrow>
              (case Option.bind (map_of fs ''Content-Length'') from_chars of
                 None \<Rightarrow> None
               | Some n \<Rightarrow> if n \<le> length rest then Some (st, fs, take n rest, drop n rest) else None)
          | _ \<Rightarrow> None)"

definition clean_field :: "string \<times> string \<Rightarrow> bool" where
  "clean_field kv \<longleftrightarrow> CR \<notin> set (fst kv) \<and> CHR '':'' \<notin> set (fst kv) \<and> CR \<notin> set (snd kv)"

lemma read_line_append: "CR \<notin> set line \<Longrightarrow> read_line (line @ CR # LF # rest) = Some (line, rest)"
  by (simp add: read_line_def find_sub_crlf)

lemma find_sub_colon: "CHR '':'' \<notin> set k \<Longrightarrow> find_sub '': '' (k @ '': '' @ v) = Some (length k)"
proof (induction k)
  case (Cons c k)
  then have "take (length '': '') ((c # k) @ '': '' @ v) \<noteq> '': ''" by (auto simp: take_Cons')
  with Cons show ?case by auto
qed simp

lemma read_fields_append:
  assumes "\<forall>kv \<in> set fs. clean_field kv"
  shows "read_fields (concat (map (\<lambda>(k, v). k @ '': '' @ v @ [CR, LF]) fs) @ CR # LF # rest) = Some (fs, rest)"
  using assms
proof (induction fs)
  case Nil
  then show ?case by (subst read_fields.simps) (use read_line_append [of "[]" rest] in simp)
next
  case (Cons kv fs)
  obtain k v where kv: "kv = (k, v)" by (cases kv)
  let ?rest = "concat (map (\<lambda>(k, v). k @ '': '' @ v @ [CR, LF]) fs) @ CR # LF # rest"
  have c: "CR \<notin> set (k @ '': '' @ v)" "CHR '':'' \<notin> set k" using Cons.prems by (auto simp: kv clean_field_def)
  have "read_line ((k @ '': '' @ v) @ CR # LF # ?rest) = Some (k @ '': '' @ v, ?rest)" by (rule read_line_append [OF c(1)])
  then show ?case using Cons find_sub_colon [OF c(2), of v]
    by (subst read_fields.simps) (simp add: kv)
qed

lemma not_digit [simp]: "\<not> is_digit CR" "\<not> is_digit (CHR '' '')"
  by (simp_all add: is_digit_def)

lemma status_line: "CR \<notin> set (status_to_string st)"
  by (simp add: status_to_string_def)

text \<open>C26: Serialisation. A response with clean header fields, without chunking or a file, that does not set Content-Length
  itself is read back by a client as it was built: status, header fields in their order followed by the cookies and the
  length, and exactly the body, whatever follows on the connection.\<close>

theorem response_read_back:
  assumes "\<forall>kv \<in> set (r_headers r). clean_field kv" "\<forall>c \<in> set (cookies r). CR \<notin> set c"
    and "\<not> r_chunked r" "file_path r = []" "''Content-Length'' \<notin> fst ` set (r_headers r)"
    and "status_code r < 2 ^ 64" "length (r_body r) < 2 ^ 64"
  shows "read_response (serialize r @ rest) =
    Some (status_code r, r_headers r @ map (Pair ''Set-Cookie'') (cookies r) @ [(''Content-Length'', to_string (length (r_body r)))],
      r_body r, rest)"
proof -
  let ?st = "to_string (status_code r)" and ?cl = "to_string (length (r_body r))"
  let ?line = "''HTTP/1.1 '' @ ?st @ '' '' @ status_to_string (status_code r)"
  let ?fs = "r_headers r @ map (Pair ''Set-Cookie'') (cookies r) @ [(''Content-Length'', ?cl)]"
  have digits: "CR \<notin> set (to_string n)" "CHR '' '' \<notin> set (to_string n)" for n using to_string_plain not_digit by blast+
  have "CR \<notin> set ?line" using digits status_line by simp
  moreover have "serialize r @ rest = ?line @ CR # LF # (concat (map (\<lambda>(k, v). k @ '': '' @ v @ [CR, LF]) ?fs) @ CR # LF # (r_body r @ rest))"
    using assms(3,4) by (simp add: serialize_def serialize_header_def comp_def)
  ultimately have line: "read_line (serialize r @ rest) =
    Some (?line, concat (map (\<lambda>(k, v). k @ '': '' @ v @ [CR, LF]) ?fs) @ CR # LF # (r_body r @ rest))"
    using read_line_append by metis
  have "\<forall>kv \<in> set ?fs. clean_field kv" using assms(1,2) digits(1) by (auto simp: clean_field_def)
  note fields = read_fields_append [OF this]
  have st: "takeWhile (\<lambda>c. c \<noteq> CHR '' '') (drop 9 ?line) = ?st"
    using digits(2) by (simp add: takeWhile_append)
  have "map_of (r_headers r) ''Content-Length'' = None" using assms(5) by (simp add: map_of_eq_None_iff)
  moreover have "map_of (map (Pair ''Set-Cookie'') (cookies r)) ''Content-Length'' = None" by (auto simp: map_of_eq_None_iff)
  ultimately have "map_of ?fs ''Content-Length'' = Some ?cl" by (simp add: map_add_def)
  then show ?thesis using assms(6,7)
    unfolding read_response_def line option.case prod.case st fields by (simp add: from_chars_to_string)
qed

definition sample_response :: response where
  "sample_response = set_rbody ''hello'' (set_header ''ETag'' ''x1'' (set_status 201 Response))"

theorem response_read_back_witness:
  "read_response (serialize sample_response @ ''HTTP'') =
     Some (201, [(''ETag'', ''x1''), (''Content-Length'', to_string (length ''hello''))], ''hello'', ''HTTP'')"
  using response_read_back [of sample_response "''HTTP''"]
  by (simp add: sample_response_def set_rbody_def set_header_def set_status_def Response_def clean_field_def)

section \<open>Chunks\<close>

lemma hex_char_table:
  assumes "d < 16"
  shows "map_of digit_table (hex_char d) = Some d \<and> hex_char d \<noteq> CR \<and> hex_char d \<noteq> CHR '';''"
proof -
  have "\<forall>d \<in> set [0..<16]. map_of digit_table (hex_char d) = Some d \<and> hex_char d \<noteq> CR \<and> hex_char d \<noteq> CHR '';''" by code_simp
  with assms show ?thesis by simp
qed

lemma place_value_append: "place_value b (xs @ ys) = place_value b xs * b ^ length ys + place_value b ys"
  by (induction xs) (simp_all add: algebra_simps power_add)

lemma to_hex_value:
  "numeral_in 16 (to_hex n) \<and> place_value 16 (to_hex n) = n \<and> CR \<notin> set (to_hex n) \<and> CHR '';'' \<notin> set (to_hex n)"
proof (induction n rule: to_hex.induct)
  case (1 n)
  show ?case
  proof (cases "n < 16")
    case True
    then show ?thesis using hex_char_table [of n] by (subst (1 2 3 4) to_hex.simps) (auto simp: numeral_in_def)
  next
    case False
    have "n mod 16 < 16" by simp
    then show ?thesis using 1 False hex_char_table [of "n mod 16"]
      by (subst (1 2 3 4) to_hex.simps) (auto simp: numeral_in_def place_value_append)
  qed
qed

definition frame_of :: "string \<Rightarrow> string \<times> string" where
  "frame_of d = (to_hex (length d), d)"

lemma frame_of_ok: "d \<noteq> [] \<Longrightarrow> chunk_ok (frame_of d)"
proof -
  assume "d \<noteq> []"
  have t: "takeWhile (\<lambda>x. x \<noteq> CHR '';'') (to_hex (length d)) = to_hex (length d)"
    using to_hex_value [of "length d"] by (auto simp: takeWhile_eq_all_conv)
  show ?thesis
    unfolding chunk_ok_def frame_of_def fst_conv snd_conv t using to_hex_value [of "length d"] \<open>d \<noteq> []\<close> by simp
qed

lemma serialize_header_nonempty: "serialize_header r \<noteq> []"
  by (simp add: serialize_header_def)

text \<open>What a streaming handler does: it adds a piece of data, or flushes. The bytes written by a sequence of these are collected.\<close>

datatype stream_op = Piece string | Flush

fun stream_ops :: "stream_op list \<Rightarrow> response \<Rightarrow> string \<times> response" where
  "stream_ops [] r = ([], r)"
| "stream_ops (Piece d # ops) r = stream_ops ops (chunk d r)"
| "stream_ops (Flush # ops) r =
     (let (out, r) = flush True r; (outs, r) = stream_ops ops r in (out @ outs, r))"

fun pieces_of :: "stream_op list \<Rightarrow> string list" where
  "pieces_of [] = []"
| "pieces_of (Piece d # ops) = (if d = [] then pieces_of ops else d # pieces_of ops)"
| "pieces_of (Flush # ops) = pieces_of ops"

text \<open>The header that is still to be written.\<close>

definition head_due :: "response \<Rightarrow> string" where
  "head_due r = (if header_sent r then [] else serialize_header (r\<lparr>r_chunked := True\<rparr>))"

lemma chunk_head: "streaming (chunk d r) = streaming r" "head_due (chunk d r) = head_due r" "streamed_bytes (chunk d r) = streamed_bytes r"
  by (auto simp: chunk_def head_due_def serialize_header_def)

lemma flush_head:
  assumes "streaming r" "flush True r = (out, r')"
  shows "out = head_due r @ chunk_buf r" "head_due r' = []" "chunk_buf r' = []" "streaming r'" "streamed_bytes r' = streamed_bytes r + length out"
  using assms by (auto simp: flush_def stream_head_def head_due_def Let_def serialize_header_nonempty split: if_splits)

lemma chunk_adds: "chunk_buf (chunk d r) = chunk_buf r @ (if d = [] then [] else chunk_text (frame_of d))"
  by (simp add: chunk_def chunk_text_def frame_of_def)

lemma stream_ops_frames:
  assumes "streaming r" "stream_ops ops r = (out, r')"
  shows "out @ head_due r' @ chunk_buf r' = head_due r @ chunk_buf r @ concat (map (chunk_text \<circ> frame_of) (pieces_of ops))
    \<and> streaming r' \<and> streamed_bytes r' = streamed_bytes r + length out"
  using assms
proof (induction ops arbitrary: r out rule: pieces_of.induct)
  case (2 d ops)
  then show ?case using 2(1,2) [of "chunk d r" out] by (auto simp: chunk_head chunk_adds split: if_splits)
next
  case (3 ops)
  obtain o1 r1 o2 where f: "flush True r = (o1, r1)" "stream_ops ops r1 = (o2, r')" "out = o1 @ o2"
    using 3(3) by (auto split: prod.splits)
  note h = flush_head [OF 3(2) f(1)]
  from 3(1) [OF h(4) f(2)] show ?case using h f(3) by simp
qed auto

text \<open>C28: Streaming. A handler that adds pieces of data in any order with any number of flushes, whose writes succeed, and ends
  the stream has written the header exactly once, first, announcing chunked encoding, and then well-formed chunks whose data is
  exactly the non-empty pieces in order, closed by the terminal chunk; the bytes counted are the bytes written.\<close>

theorem stream_frames:
  assumes "streaming r" "\<not> header_sent r" "chunk_buf r = []"
    and "stream_ops ops r = (out1, r1)" "flush_end True r1 = (out2, r2)"
  shows "\<exists>cs. out1 @ out2 = serialize_header (r\<lparr>r_chunked := True\<rparr>) @ concat (map chunk_text cs) @ ''0'' @ [CR, LF, CR, LF] \<and>
    (\<forall>c \<in> set cs. chunk_ok c) \<and> map snd cs = pieces_of ops \<and>
    \<not> streaming r2 \<and> streamed_bytes r2 = streamed_bytes r + length (out1 @ out2)"
proof -
  let ?cs = "map frame_of (pieces_of ops)"
  note f = stream_ops_frames [OF assms(1,4)]
  have "[] \<notin> set (pieces_of ops)" by (induction ops rule: pieces_of.induct) auto
  then have ok: "\<forall>c \<in> set ?cs. chunk_ok c" by (auto intro: frame_of_ok)
  have snds: "map snd ?cs = pieces_of ops" by (simp add: frame_of_def comp_def)
  have e: "out2 = head_due r1 @ chunk_buf r1 @ ''0'' @ [CR, LF, CR, LF]" "\<not> streaming r2" "streamed_bytes r2 = streamed_bytes r1 + length out2"
    using assms(5) f by (auto simp: flush_end_def stream_head_def head_due_def Let_def split: if_splits)
  have "out1 @ out2 = (out1 @ head_due r1 @ chunk_buf r1) @ ''0'' @ [CR, LF, CR, LF]" using e(1) by simp
  also have "\<dots> = serialize_header (r\<lparr>r_chunked := True\<rparr>) @ concat (map chunk_text ?cs) @ ''0'' @ [CR, LF, CR, LF]"
    using f assms(2,3) by (simp add: head_due_def)
  finally show ?thesis using ok snds e f by (intro exI [of _ ?cs]) auto
qed

definition sample_stream :: response where
  "sample_stream = Response\<lparr>streaming := True\<rparr>"

theorem stream_frames_witness:
  "\<exists>cs. (let (o1, r) = stream_ops [Piece ''ab'', Flush, Piece [], Piece ''c'', Flush, Flush, Piece ''d''] sample_stream
     in o1 @ fst (flush_end True r)) =
     serialize_header (sample_stream\<lparr>r_chunked := True\<rparr>) @ concat (map chunk_text cs) @ ''0'' @ [CR, LF, CR, LF] \<and>
     map snd cs = [''ab'', ''c'', ''d'']"
proof -
  let ?ops = "[Piece ''ab'', Flush, Piece [], Piece ''c'', Flush, Flush, Piece ''d'']"
  obtain o1 r1 o2 r2 where o: "stream_ops ?ops sample_stream = (o1, r1)" "flush_end True r1 = (o2, r2)" by (meson surj_pair)
  from stream_frames [OF _ _ _ o] show ?thesis unfolding o by (auto simp: o sample_stream_def Response_def)
qed

end
