(* ===== verification/Send_Response.thy ===== *)
theory Send_Response
  imports Response
begin

text \<open>
  \<open>send_response\<close> of \<open>App::listen\<close> in \<open>src/qbuem_stack.cpp\<close>: conditional requests, byte ranges, the connection headers, and what is
  handed to the write calls of the socket. The cached date is an argument.
\<close>

section \<open>Byte ranges\<close>

definition is_space :: "char \<Rightarrow> bool" where
  "is_space c \<longleftrightarrow> c = CHR '' '' \<or> (9 \<le> code c \<and> code c \<le> 13)"

definition digits_value :: "string \<Rightarrow> nat" where
  "digits_value ds = foldl (\<lambda>a c. a * 10 + (code c - code CHR ''0'')) 0 ds"

text \<open>\<open>std::stoul\<close>: white space, a sign, digits, then anything; a negative number wraps. \<open>None\<close> is an exception.\<close>

definition stoul :: "string \<Rightarrow> nat option" where
  "stoul s =
     (let s = dropWhile is_space s;
          neg = (take 1 s = ''-'');
          s = (if take 1 s = ''-'' \<or> take 1 s = ''+'' then drop 1 s else s);
          ds = takeWhile is_digit s;
          n = digits_value ds
      in if ds = [] \<or> n \<ge> 2 ^ 64 then None
         else Some (if neg then (2 ^ 64 - n) mod 2 ^ 64 else n))"

definition opt_stoul :: "string \<Rightarrow> nat \<Rightarrow> nat option" where
  "opt_stoul s dflt = (if s = [] then Some dflt else stoul s)"

text \<open>The first and last byte of the range, when it is satisfiable.\<close>

definition range_bounds :: "string \<Rightarrow> string \<Rightarrow> nat \<Rightarrow> (nat \<times> nat) option" where
  "range_bounds first_str last_str tot =
     (let hi0 = (tot + 2 ^ 64 - 1) mod 2 ^ 64 in
      case opt_stoul first_str 0 of
        None \<Rightarrow> None
      | Some lo \<Rightarrow>
          (case opt_stoul last_str hi0 of
             None \<Rightarrow> None
           | Some hi \<Rightarrow>
               if lo > hi \<or> lo \<ge> tot then None
               else Some (lo, if hi \<ge> tot then hi0 else hi)))"

definition apply_range :: "string \<Rightarrow> response \<Rightarrow> response" where
  "apply_range range_hdr r =
     (if take 6 range_hdr = ''bytes='' then
        (let spec = drop 6 range_hdr; body = r_body r; tot = length body in
         case find_index (\<lambda>c. c = CHR ''-'') spec of
           None \<Rightarrow> r
         | Some dash \<Rightarrow>
             (case range_bounds (take dash spec) (drop (dash + 1) spec) tot of
                Some (lo, hi) \<Rightarrow>
                  set_rbody (substr body lo (hi - lo + 1))
                    (set_header ''Accept-Ranges'' ''bytes''
                      (set_header ''Content-Range''
                        (''bytes '' @ to_string lo @ ''-'' @ to_string hi @ ''/'' @ to_string tot)
                        (set_status 206 r)))
              | None \<Rightarrow>
                  set_rbody ''Range Not Satisfiable''
                    (set_header ''Content-Range'' (''bytes */'' @ to_string tot) (set_status 416 r))))
      else r)"

section \<open>Sending\<close>

text \<open>\<open>write_all\<close>, \<open>writev_response\<close> and \<open>send_file_body\<close>, with what they are given.\<close>

datatype sending = Sent string | SentV string string | SentFile string nat

record outcome =
  o_sent :: "sending list"
  o_bytes :: nat
  o_error :: bool

definition MAX_REQUESTS :: nat where
  "MAX_REQUESTS = 100"

definition connection_value :: "bool \<Rightarrow> string" where
  "connection_value keep_alive = (if keep_alive then ''keep-alive'' else ''close'')"

definition not_modified :: "string \<Rightarrow> bool \<Rightarrow> string \<Rightarrow> response" where
  "not_modified date keep_alive resp_etag =
     set_header ''Connection'' (connection_value keep_alive)
       (set_header ''Date'' date (set_header ''ETag'' resp_etag (set_status 304 Response)))"

definition range_step :: "request \<Rightarrow> response \<Rightarrow> response" where
  "range_step rq r =
     (let range_hdr = header rq ''Range'' in
      if range_hdr \<noteq> [] \<and> status_code r = 200 then apply_range range_hdr r
      else if range_hdr = [] \<and> status_code r = 200 then set_header ''Accept-Ranges'' ''bytes'' r
      else r)"

definition connection_headers :: "string \<Rightarrow> bool \<Rightarrow> nat \<Rightarrow> response \<Rightarrow> response" where
  "connection_headers date keep_alive handled r =
     (let r = set_header ''Connection'' (connection_value keep_alive) (set_header ''Date'' date r) in
      if keep_alive then set_header ''Keep-Alive'' (''timeout=30, max='' @ to_string (MAX_REQUESTS - handled)) r else r)"

definition emit :: "response \<Rightarrow> outcome" where
  "emit r =
     (let hdr = serialize_header r;
          body_view = (if r_chunked r then chunk_buf r else r_body r);
          tr = (if r_chunked r \<and> trailers r \<noteq> [] then [encode_trailers r] else [])
      in \<lparr> o_sent =
             (if file_path r \<noteq> [] then [Sent hdr, SentFile (file_path r) (file_size r)] else [SentV hdr body_view]) @ map Sent tr,
           o_bytes =
             length hdr + (if file_path r \<noteq> [] then file_size r else length body_view) + length (concat tr),
           o_error = (status_code r \<ge> 400) \<rparr>)"

definition send_response :: "string \<Rightarrow> bool \<Rightarrow> nat \<Rightarrow> request \<Rightarrow> response \<Rightarrow> outcome" where
  "send_response date keep_alive handled rq r =
     (if streamed r then \<lparr> o_sent = [], o_bytes = streamed_bytes r, o_error = False \<rparr>
      else
        (let if_none_match = header rq ''If-None-Match''; resp_etag = get_header r ''ETag'' in
         if if_none_match \<noteq> [] \<and> resp_etag \<noteq> [] \<and> (if_none_match = ''*'' \<or> if_none_match = resp_etag)
         then \<lparr> o_sent = [Sent (serialize (not_modified date keep_alive resp_etag))], o_bytes = 0, o_error = False \<rparr>
         else emit (connection_headers date keep_alive handled (range_step rq r))))"

end
