(* ===== verification/Send_Response_Spec.thy ===== *)
theory Send_Response_Spec
  imports Send_Response Response_Spec
begin

text \<open>
  Byte ranges of a body in memory: a request for the bytes from one position to another gets exactly those the body has, or a
  416. What the code does with a suffix range, and with a range of a file.
\<close>

lemma digit_not_space: "is_digit c \<Longrightarrow> \<not> is_space c \<and> c \<noteq> CHR ''-'' \<and> c \<noteq> CHR ''+''"
  by (auto simp: is_digit_def is_space_def)

lemma stoul_numeral:
  assumes "numeral_in 10 s" "s \<noteq> []"
  shows "stoul s = (if place_value 10 s < 2 ^ 64 then Some (place_value 10 s) else None)"
proof -
  obtain c cs where s: "s = c # cs" using assms(2) by (cases s) auto
  have al: "\<forall>c \<in> set s. is_digit c" using assms(1) by (simp add: numeral_digits)
  then have c: "is_digit c" by (simp add: s)
  have d: "dropWhile is_space s = s" using digit_not_space [OF c] by (simp add: s)
  have t: "takeWhile is_digit s = s" using al by (simp add: takeWhile_eq_all_conv)
  have h: "take 1 s = [c]" by (simp add: s)
  have v: "digits_value s = place_value 10 s" using decimal_fold [OF assms(1), of 0] by (simp add: digits_value_def)
  have n: "([c] = ''-'') = False" "([c] = ''+'') = False" using digit_not_space [OF c] by auto
  show ?thesis unfolding stoul_def Let_def d h n if_False simp_thms t v using assms(2) by auto
qed

lemma find_dash: "numeral_in 10 a \<Longrightarrow> find_index (\<lambda>c. c = CHR ''-'') (a @ CHR ''-'' # b) = Some (length a)"
  by (rule find_index_hit) (auto simp: numeral_digits is_digit_def)

lemma range_bounds_numerals:
  assumes "numeral_in 10 a" "numeral_in 10 b" "tot < 2 ^ 64"
    and "lo = place_value 10 a" "hi = (if b = [] then tot - 1 else place_value 10 b)"
  shows "range_bounds a b tot = (if lo \<le> hi \<and> lo < tot \<and> hi < 2 ^ 64 then Some (lo, min hi (tot - 1)) else None)"
proof -
  have w: "(tot + 2 ^ 64 - 1) mod 2 ^ 64 = tot - 1" if "0 < tot" using assms(3) that by (simp add: mod_if)
  have 1: "opt_stoul a 0 = (if lo < 2 ^ 64 then Some lo else None)"
    using stoul_numeral [OF assms(1)] assms(4) by (auto simp: opt_stoul_def)
  show ?thesis
  proof (cases "0 < tot")
    case True
    then have 2: "opt_stoul b (tot - 1) = (if hi < 2 ^ 64 then Some hi else None)"
      using stoul_numeral [OF assms(2)] assms(3,5) by (auto simp: opt_stoul_def)
    show ?thesis unfolding range_bounds_def w [OF True] Let_def 1 2 using assms(3) by (auto simp: min_def)
  next
    case False
    then show ?thesis by (auto simp: range_bounds_def Let_def split: option.splits)
  qed
qed

lemma slice:
  assumes "lo \<le> hi" "lo < length xs"
  shows "substr xs lo (min hi (length xs - 1) - lo + 1) = drop lo (take (hi + 1) xs)"
proof (cases "hi < length xs")
  case True
  then show ?thesis using assms by (simp add: substr_def drop_take Suc_diff_le min_def)
next
  case False
  then have "min hi (length xs - 1) - lo + 1 = length xs - lo" using assms by auto
  then show ?thesis using assms False by (simp add: substr_def)
qed

lemma connection_keeps:
  "status_code (connection_headers d k n r) = status_code r" "r_body (connection_headers d k n r) = r_body r"
  "file_path (connection_headers d k n r) = file_path r" "r_chunked (connection_headers d k n r) = r_chunked r"
  "get_header (connection_headers d k n r) ''Content-Range'' = get_header r ''Content-Range''"
  by (simp_all add: connection_headers_def set_header_def get_header_def update_conv Let_def)

text \<open>C16: byte ranges of a response held in memory. For every \<open>Range\<close> header \<open>bytes=a-b\<close>, where \<open>a\<close> and \<open>b\<close> are decimal numbers
  or missing, a 200 with a body, not chunked and not conditional, is sent as a 206 with exactly the bytes of the body from \<open>a\<close>
  to \<open>b\<close>, cut off at its end, and a \<open>Content-Range\<close> that names them; a missing \<open>b\<close> is the end of the body. When \<open>a\<close> is above
  \<open>b\<close> or not in the body, or \<open>b\<close> has more than 64 bits, a 416 with the length is sent. A missing \<open>a\<close> is zero, although the
  form \<open>bytes=-n\<close> asks for the last \<open>n\<close> bytes.\<close>

theorem range_served:
  assumes "header rq ''Range'' = ''bytes='' @ a @ ''-'' @ b" "numeral_in 10 a" "numeral_in 10 b" "header rq ''If-None-Match'' = []"
    and "status_code r = 200" "\<not> streamed r" "file_path r = []" "\<not> r_chunked r" "tot = length (r_body r)" "tot < 2 ^ 64"
    and "lo = place_value 10 a" "hi = (if b = [] then tot - 1 else place_value 10 b)"
  shows "\<exists>r'. o_sent (send_response date keep_alive n rq r) = [SentV (serialize_header r') (r_body r')] \<and>
    (if lo \<le> hi \<and> lo < tot \<and> hi < 2 ^ 64 then
      status_code r' = 206 \<and> r_body r' = drop lo (take (hi + 1) (r_body r))
      \<and> get_header r' ''Content-Range'' = ''bytes '' @ to_string lo @ ''-'' @ to_string (min hi (tot - 1)) @ ''/'' @ to_string tot
    else status_code r' = 416 \<and> get_header r' ''Content-Range'' = ''bytes */'' @ to_string tot)"
proof -
  define r1 where "r1 = range_step rq r"
  have b: "range_bounds a b tot = (if lo \<le> hi \<and> lo < tot \<and> hi < 2 ^ 64 then Some (lo, min hi (tot - 1)) else None)"
    by (rule range_bounds_numerals) (use assms in auto)
  have s: "substr (r_body r) lo (min hi (tot - 1) - lo + 1) = drop lo (take (hi + 1) (r_body r))" if "lo \<le> hi" "lo < tot"
    using slice [of lo hi "r_body r"] that assms(9) by simp
  have r1: "r1 = (case range_bounds a b tot of
      Some (lo, hi) \<Rightarrow> set_rbody (substr (r_body r) lo (hi - lo + 1)) (set_header ''Accept-Ranges'' ''bytes''
        (set_header ''Content-Range'' (''bytes '' @ to_string lo @ ''-'' @ to_string hi @ ''/'' @ to_string tot) (set_status 206 r)))
    | None \<Rightarrow> set_rbody ''Range Not Satisfiable'' (set_header ''Content-Range'' (''bytes */'' @ to_string tot) (set_status 416 r)))"
    unfolding assms(9) using assms(1,5) find_dash [OF assms(2), of b] by (simp add: r1_def range_step_def apply_range_def Let_def)
  have keep: "file_path r1 = []" "\<not> r_chunked r1"
    using assms(7,8) by (auto simp: r1 set_rbody_def set_header_def set_status_def split: option.split)
  let ?r' = "connection_headers date keep_alive n r1"
  have "o_sent (send_response date keep_alive n rq r) = [SentV (serialize_header ?r') (r_body ?r')]"
    using assms(4,6) keep by (simp add: send_response_def r1_def [symmetric] emit_def connection_keeps Let_def)
  moreover have "if lo \<le> hi \<and> lo < tot \<and> hi < 2 ^ 64 then
      status_code r1 = 206 \<and> r_body r1 = drop lo (take (hi + 1) (r_body r))
      \<and> get_header r1 ''Content-Range'' = ''bytes '' @ to_string lo @ ''-'' @ to_string (min hi (tot - 1)) @ ''/'' @ to_string tot
    else status_code r1 = 416 \<and> get_header r1 ''Content-Range'' = ''bytes */'' @ to_string tot"
    using s by (simp add: r1 b set_rbody_def set_header_def set_status_def get_header_def update_conv)
  ultimately show ?thesis by (intro exI [of _ ?r'] conjI) (simp_all only: connection_keeps)
qed

theorem range_served_witness:
  "\<exists>r'. o_sent (send_response ''now'' True 1 (add_header ''Range'' ''bytes=1-9'' Request) (set_rbody ''abcd'' Response)) =
     [SentV (serialize_header r') ''bcd''] \<and> status_code r' = 206"
proof -
  define rq where "rq = add_header ''Range'' ''bytes=1-9'' Request"
  define r where "r = set_rbody ''abcd'' Response"
  have "header rq ''Range'' = ''bytes='' @ ''1'' @ ''-'' @ ''9''" "header rq ''If-None-Match'' = []"
    by (simp_all add: rq_def add_header_def header_def Request_def kMaxInlineHeaders_def)
  moreover have "status_code r = 200" "r_body r = ''abcd''" "\<not> streamed r" "file_path r = []" "\<not> r_chunked r"
    by (simp_all add: r_def set_rbody_def Response_def)
  moreover have "numeral_in 10 ''1''" "place_value 10 ''1'' = 1" "numeral_in 10 ''9''" "place_value 10 ''9'' = 9"
    by (simp_all add: numeral_in_def digit_table_list)
  ultimately obtain r' where "o_sent (send_response ''now'' True 1 rq r) = [SentV (serialize_header r') (r_body r')]"
      "status_code r' = 206" "r_body r' = ''bcd''"
    using range_served [of rq "''1''" "''9''" r 4 1 9 "''now''" True 1] by auto
  then show ?thesis by (intro exI [of _ r']) (simp add: rq_def r_def)
qed

text \<open>A suffix range asks for the last bytes; the code reads it as a range from the start.\<close>

lemma suffix_range_from_start: "range_bounds [] ''5'' 100 = Some (0, 5)"
  by (simp add: range_bounds_def opt_stoul_def stoul_def is_space_def is_digit_def digits_value_def Let_def)

text \<open>A range of a file: the body is empty, so the status becomes 416, and the whole file is sent with it.\<close>

lemma file_range_refused:
  "o_sent (send_response ''now'' False 1 (add_header ''Range'' ''bytes=0-0'' Request) (sendfile_path ''f'' 9 Response)) =
     [Sent (serialize_header (connection_headers ''now'' False 1 (range_step (add_header ''Range'' ''bytes=0-0'' Request) (sendfile_path ''f'' 9 Response)))),
      SentFile ''f'' 9]
   \<and> status_code (range_step (add_header ''Range'' ''bytes=0-0'' Request) (sendfile_path ''f'' 9 Response)) = 416"
  by (simp add: send_response_def add_header_def header_def Request_def kMaxInlineHeaders_def sendfile_path_def Response_def
      get_header_def emit_def range_step_def apply_range_def range_bounds_def opt_stoul_def stoul_def is_space_def is_digit_def
      digits_value_def connection_headers_def set_status_def set_header_def set_rbody_def Let_def)

end
