(* ===== verification/Epoll_Reactor.thy ===== *)
theory Epoll_Reactor
  imports Prelude "HOL-Library.AList"
begin

text \<open>
  \<open>EpollReactor\<close> of \<open>include/qbuem/core/epoll_reactor.hpp\<close> and \<open>src/core/epoll_reactor.cpp\<close>, with what the kernel holds for
  it: the open descriptors and the interest set of the epoll instance. A callback is a value of the type \<open>'c\<close>; running it
  is an argument of \<open>poll\<close>. The unordered maps are association lists. The choice of a new descriptor is an argument, \<open>alloc\<close>,
  of the operations that create one; \<open>None\<close> is the failure of a call that sets one up.
\<close>

section \<open>Model\<close>

datatype fd_kind = Socket nat | Listener | TimerFile | EventFile

datatype EventType = Read | Write

record 'c FdCallbacks =
  read_cb :: "'c option"
  write_cb :: "'c option"

text \<open>The interest in a descriptor: readable, writable.\<close>

type_synonym interest = "bool \<times> bool"

text \<open>The tables of the reactor and the kernel's. The number of timers made so far is kept beside them; the code has no such field.\<close>

record 'c reactor =
  open_fds :: "(nat \<times> fd_kind) list"
  epoll_set :: "(nat \<times> interest) list"
  next_timer_id :: int
  timers_made :: nat
  timers_by_id :: "(int \<times> nat \<times> 'c) list"
  timerfd_to_id :: "(nat \<times> int) list"
  fd_callbacks :: "(nat \<times> 'c FdCallbacks) list"
  event_fd :: nat
  work_queue :: "'c list"

definition epoll_add :: "nat \<Rightarrow> interest \<Rightarrow> ('c, 'z) reactor_scheme \<Rightarrow> ('c, 'z) reactor_scheme" where
  "epoll_add fd ev s = (if fd \<in> fst ` set (epoll_set s) then s else s\<lparr>epoll_set := (fd, ev) # epoll_set s\<rparr>)"

definition epoll_mod :: "nat \<Rightarrow> interest \<Rightarrow> ('c, 'z) reactor_scheme \<Rightarrow> ('c, 'z) reactor_scheme" where
  "epoll_mod fd ev s = (if fd \<in> fst ` set (epoll_set s) then s\<lparr>epoll_set := AList.update fd ev (epoll_set s)\<rparr> else s)"

definition epoll_del :: "nat \<Rightarrow> ('c, 'z) reactor_scheme \<Rightarrow> ('c, 'z) reactor_scheme" where
  "epoll_del fd s = s\<lparr>epoll_set := AList.delete fd (epoll_set s)\<rparr>"

text \<open>Closing a descriptor also takes it out of the epoll instance.\<close>

definition sys_close :: "nat \<Rightarrow> ('c, 'z) reactor_scheme \<Rightarrow> ('c, 'z) reactor_scheme" where
  "sys_close fd s = epoll_del fd (s\<lparr>open_fds := AList.delete fd (open_fds s)\<rparr>)"

definition sys_open :: "nat \<Rightarrow> fd_kind \<Rightarrow> ('c, 'z) reactor_scheme \<Rightarrow> ('c, 'z) reactor_scheme" where
  "sys_open fd f s = s\<lparr>open_fds := (fd, f) # open_fds s\<rparr>"

definition no_callbacks :: "'c FdCallbacks" where
  "no_callbacks = \<lparr> read_cb = None, write_cb = None \<rparr>"

definition update_epoll :: "nat \<Rightarrow> bool \<Rightarrow> ('c, 'z) reactor_scheme \<Rightarrow> ('c, 'z) reactor_scheme" where
  "update_epoll fd add s =
     (let ev = (case map_of (fd_callbacks s) fd of
                  Some cbs \<Rightarrow> (read_cb cbs \<noteq> None, write_cb cbs \<noteq> None)
                | None \<Rightarrow> (False, False))
      in if add then epoll_add fd ev s else epoll_mod fd ev s)"

definition register_event :: "nat \<Rightarrow> EventType \<Rightarrow> 'c \<Rightarrow> ('c, 'z) reactor_scheme \<Rightarrow> ('c, 'z) reactor_scheme" where
  "register_event fd ty cb s =
     (let is_new = (map_of (fd_callbacks s) fd = None);
          cbs = (case map_of (fd_callbacks s) fd of Some cbs \<Rightarrow> cbs | None \<Rightarrow> no_callbacks);
          cbs = (if ty = Read then cbs\<lparr>read_cb := Some cb\<rparr> else cbs\<lparr>write_cb := Some cb\<rparr>)
      in update_epoll fd is_new (s\<lparr>fd_callbacks := AList.update fd cbs (fd_callbacks s)\<rparr>))"

definition unregister_event :: "nat \<Rightarrow> EventType \<Rightarrow> ('c, 'z) reactor_scheme \<Rightarrow> ('c, 'z) reactor_scheme" where
  "unregister_event fd ty s =
     (case map_of (fd_callbacks s) fd of
        None \<Rightarrow> s
      | Some cbs \<Rightarrow>
          (let cbs = (if ty = Read then cbs\<lparr>read_cb := None\<rparr> else cbs\<lparr>write_cb := None\<rparr>) in
           if read_cb cbs = None \<and> write_cb cbs = None
           then epoll_del fd (s\<lparr>fd_callbacks := AList.delete fd (fd_callbacks s)\<rparr>)
           else update_epoll fd False (s\<lparr>fd_callbacks := AList.update fd cbs (fd_callbacks s)\<rparr>)))"

text \<open>The identifier is an \<open>int\<close>; incrementing the largest one, undefined in C++, is modelled as wrapping around.\<close>

definition int_inc :: "int \<Rightarrow> int" where
  "int_inc n = (if n = 2 ^ 31 - 1 then - (2 ^ 31) else n + 1)"

definition register_timer ::
  "(nat list \<Rightarrow> nat option) \<Rightarrow> 'c \<Rightarrow> ('c, 'z) reactor_scheme \<Rightarrow> int option \<times> ('c, 'z) reactor_scheme" where
  "register_timer alloc cb s =
     (case alloc (map fst (open_fds s)) of
        None \<Rightarrow> (None, s)
      | Some tfd \<Rightarrow>
          (let s = epoll_add tfd (True, False) (sys_open tfd TimerFile s);
               timer_id = next_timer_id s
           in (Some timer_id,
               s\<lparr>next_timer_id := int_inc timer_id, timers_made := timers_made s + 1, timers_by_id := AList.update timer_id (tfd, cb) (timers_by_id s),
                 timerfd_to_id := AList.update tfd timer_id (timerfd_to_id s)\<rparr>)))"

definition unregister_timer :: "int \<Rightarrow> ('c, 'z) reactor_scheme \<Rightarrow> ('c, 'z) reactor_scheme" where
  "unregister_timer timer_id s =
     (case map_of (timers_by_id s) timer_id of
        None \<Rightarrow> s
      | Some (tfd, cb) \<Rightarrow>
          (sys_close tfd (epoll_del tfd s))
            \<lparr>timerfd_to_id := AList.delete tfd (timerfd_to_id s), timers_by_id := AList.delete timer_id (timers_by_id s)\<rparr>)"

definition post :: "'c \<Rightarrow> ('c, 'z) reactor_scheme \<Rightarrow> ('c, 'z) reactor_scheme" where
  "post cb s = s\<lparr>work_queue := work_queue s @ [cb]\<rparr>"

text \<open>An event of \<open>epoll_wait\<close>: the descriptor, \<open>EPOLLIN\<close>, \<open>EPOLLOUT\<close>, and what the callbacks will read from it. A timer callback is
  called with its identifier, an I/O callback with its descriptor.\<close>

type_synonym 'i event = "nat \<times> bool \<times> bool \<times> 'i"

definition poll_event ::
  "('c \<Rightarrow> 'i \<Rightarrow> ('c, 'z) reactor_scheme \<Rightarrow> ('c, 'z) reactor_scheme) \<Rightarrow> 'i event \<Rightarrow>
     ('c, 'z) reactor_scheme \<Rightarrow> ('c, 'z) reactor_scheme" where
  "poll_event run e s =
     (case e of (fd, inp, outp, i) \<Rightarrow>
        if fd = event_fd s then fold (\<lambda>fn. run fn i) (work_queue s) (s\<lparr>work_queue := []\<rparr>)
        else
          case map_of (timerfd_to_id s) fd of
            Some timer_id \<Rightarrow>
              (case map_of (timers_by_id s) timer_id of
                 Some (tfd, cb) \<Rightarrow> run cb i (unregister_timer timer_id s)
               | None \<Rightarrow> s)
          | None \<Rightarrow>
              (case map_of (fd_callbacks s) fd of
                 None \<Rightarrow> s
               | Some cbs \<Rightarrow>
                   (let s = (case read_cb cbs of Some cb \<Rightarrow> if inp then run cb i s else s | None \<Rightarrow> s);
                        s = (case write_cb cbs of Some cb \<Rightarrow> if outp then run cb i s else s | None \<Rightarrow> s)
                    in if map_of (fd_callbacks s) fd \<noteq> None then update_epoll fd False s else s)))"

definition poll ::
  "('c \<Rightarrow> 'i \<Rightarrow> ('c, 'z) reactor_scheme \<Rightarrow> ('c, 'z) reactor_scheme) \<Rightarrow> 'i event list \<Rightarrow>
     ('c, 'z) reactor_scheme \<Rightarrow> ('c, 'z) reactor_scheme" where
  "poll run events s = fold (poll_event run) events s"

end
