(* ===== verification/Http_Views.thy ===== *)
theory Http_Views
  imports Http_Parser_Spec
begin

text \<open>
  The fields of a \<open>Request\<close> are views into the receive buffer: \<open>path_\<close>, \<open>query_string_\<close>, the header arrays and, with a
  fixed length, \<open>body_\<close> hold a pointer and a length. This theory follows the parser once more and records where each view
  points, shows that the views read in the parsed buffer are the fields of the request, and says what they read after the
  front of the buffer has been erased.
\<close>

section \<open>Model\<close>

type_synonym view = "nat \<times> nat"

definition read_view :: "string \<Rightarrow> view \<Rightarrow> string" where
  "read_view mem v = substr mem (fst v) (snd v)"

text \<open>A chunked body is a view of the string \<open>chunk_body_\<close> that the parser owns.\<close>

datatype body_view = BufferBody view | ParserBody string

record views =
  v_path :: view
  v_query :: view
  v_headers :: "(view \<times> view) list"
  v_key :: view
  v_body :: body_view

definition no_views :: views where
  "no_views = \<lparr> v_path = (0, 0), v_query = (0, 0), v_headers = [], v_key = (0, 0), v_body = BufferBody (0, 0) \<rparr>"

definition view_path :: "string \<Rightarrow> nat \<Rightarrow> nat \<Rightarrow> views \<Rightarrow> views" where
  "view_path data start n v =
     (case find_index (\<lambda>c. c = CHR ''?'') (substr data start n) of
        None \<Rightarrow> v\<lparr>v_path := (start, n), v_query := (0, 0)\<rparr>
      | Some q \<Rightarrow> v\<lparr>v_path := (start, q), v_query := (start + q + 1, n - (q + 1))\<rparr>)"

definition view_header :: "view \<Rightarrow> view \<Rightarrow> views \<Rightarrow> views" where
  "view_header k x v = (if length (v_headers v) < kMaxInlineHeaders then v\<lparr>v_headers := v_headers v @ [(k, x)]\<rparr> else v)"

text \<open>The views made by one step of phase 1. \<open>substr\<close> of a view is cut off at its end.\<close>

definition view_step :: "string \<Rightarrow> nat \<Rightarrow> nat \<Rightarrow> parser \<Rightarrow> views \<Rightarrow> views" where
  "view_step data pos start p v =
     (case p_state p of
        PPath \<Rightarrow> if data ! pos = CHR '' '' then view_path data start (pos - start) v else v
      | PHeaderKey \<Rightarrow> if data ! pos = CHR '':'' then v\<lparr>v_key := (start, pos - start)\<rparr> else v
      | PHeaderValue \<Rightarrow>
          if data ! pos = LF
          then view_header (v_key v) (start, min ((pos + 2 ^ 64 - start - 1) mod 2 ^ 64) (length data - start)) v
          else v
      | _ \<Rightarrow> v)"

function view_phase1 :: "string \<Rightarrow> nat \<Rightarrow> nat \<Rightarrow> parser \<Rightarrow> request \<Rightarrow> views \<Rightarrow> views" where
  "view_phase1 data pos start p r v =
     (if pos < length data \<and> in_phase1 (p_state p) then
        (case phase1_step data pos start p r of
           Inl e \<Rightarrow> v
         | Inr (pos', start', p', r') \<Rightarrow> view_phase1 data (pos' + 1) start' p' r' (view_step data pos start p v))
      else v)"
  by pat_completeness auto
termination
  by (relation "measure (\<lambda>(data, pos, start, p, r, v). length data - pos)") (auto dest!: phase1_step_pos)

declare view_phase1.simps [simp del]

definition view_body :: "string \<Rightarrow> nat \<Rightarrow> nat \<Rightarrow> parser \<Rightarrow> request \<Rightarrow> views \<Rightarrow> views" where
  "view_body data pos start p r v =
     (if p_state p = PBody then
        (if (if start < length data then length data - start else 0) < body_length p then v
         else v\<lparr>v_body := BufferBody (start, body_length p)\<rparr>)
      else if p_state p = PChunkSize then
        (case phase2 data pos start p r of (out, p', r') \<Rightarrow>
           if is_complete p' then v\<lparr>v_body := ParserBody (chunk_body p')\<rparr> else v)
      else v)"

text \<open>The views left in a fresh request by a fresh parser that has seen the end of the headers.\<close>

definition parse_views :: "string \<Rightarrow> views" where
  "parse_views data =
     (case phase1 data 0 0 HttpParser Request of
        Inl e \<Rightarrow> view_phase1 data 0 0 HttpParser Request no_views
      | Inr (pos, start, p, r) \<Rightarrow> view_body data pos start p r (view_phase1 data 0 0 HttpParser Request no_views))"

definition read_body :: "string \<Rightarrow> body_view \<Rightarrow> string" where
  "read_body mem b = (case b of BufferBody v \<Rightarrow> read_view mem v | ParserBody s \<Rightarrow> s)"

text \<open>The request as it reads when the memory its views point to holds \<open>mem\<close>.\<close>

definition reread :: "string \<Rightarrow> views \<Rightarrow> request \<Rightarrow> request" where
  "reread mem v r =
     r\<lparr>rq_path := read_view mem (v_path v), query_string := read_view mem (v_query v),
       headers_flat := map (\<lambda>(k, x). (read_view mem k, read_view mem x)) (v_headers v),
       rq_body := read_body mem (v_body v)\<rparr>"

text \<open>\<open>std::string::erase(0, n)\<close>: the rest of the text moves to the front and is terminated; the bytes behind the terminator
  stay as they were.\<close>

definition erase_front :: "nat \<Rightarrow> string \<Rightarrow> string" where
  "erase_front n mem = drop n mem @ CHR 0x00 # drop (length mem - n + 1) mem"

section \<open>The views read the request\<close>

definition late :: "view \<Rightarrow> bool" where
  "late v \<longleftrightarrow> 1 \<le> fst v \<or> snd v = 0"

definition views_inv :: "string \<Rightarrow> nat \<Rightarrow> parser \<Rightarrow> request \<Rightarrow> views \<Rightarrow> bool" where
  "views_inv data start p r v \<longleftrightarrow>
     reread data v r = r \<and> v_body v = BufferBody (0, 0)
     \<and> (p_state p = PHeaderValue \<longrightarrow> current_header_key p = read_view data (v_key v) \<and> late (v_key v))
     \<and> late (v_path v) \<and> late (v_query v) \<and> (\<forall>(k, x) \<in> set (v_headers v). late k \<and> late x)
     \<and> (p_state p \<noteq> PMethod \<longrightarrow> 1 \<le> start) \<and> p_state p \<noteq> PChunkData \<and> p_state p \<noteq> PChunkDataEnd"

lemma reread_iff:
  "reread mem v r = r \<longleftrightarrow>
     rq_path r = read_view mem (v_path v) \<and> query_string r = read_view mem (v_query v)
     \<and> headers_flat r = map (\<lambda>(k, x). (read_view mem k, read_view mem x)) (v_headers v) \<and> rq_body r = read_body mem (v_body v)"
  by (cases r) (auto simp: reread_def)

lemma substr_0 [simp]: "substr mem n 0 = []"
  by (simp add: substr_def)

lemma view_path_reads:
  assumes "reread data v r = r" "v_body v = BufferBody (0, 0)"
  shows "reread data (view_path data start n v) (set_path (substr data start n) r) = set_path (substr data start n) r"
proof (cases "find_index (\<lambda>c. c = CHR ''?'') (substr data start n)")
  case None
  with assms show ?thesis by (simp add: reread_iff view_path_def set_path_def read_view_def del: find_index_None)
next
  case (Some q)
  then have "q < n" using find_index_Some_length by (fastforce simp: substr_def)
  then have "take q (substr data start n) = substr data start q"
    "drop (q + 1) (substr data start n) = substr data (start + q + 1) (n - (q + 1))"
    by (simp_all add: substr_def drop_take add.commute)
  with assms Some show ?thesis by (simp add: reread_iff view_path_def set_path_def read_view_def)
qed

lemma view_path_frame [simp]:
  "v_body (view_path data start n v) = v_body v" "v_headers (view_path data start n v) = v_headers v"
  by (simp_all add: view_path_def split: option.splits)

lemma view_path_late: "1 \<le> start \<Longrightarrow> late (v_path (view_path data start n v)) \<and> late (v_query (view_path data start n v))"
  by (simp add: view_path_def late_def split: option.splits)

lemma set_substr_min: "substr data start (min n (length data - start)) = substr data start n"
  by (simp add: substr_def min_def)

lemma view_header_inv:
  assumes "views_inv data start p r v" "p_state p = PHeaderValue" and "p_state p' = PHeaderKey"
  shows "views_inv data (pos + 1) p' (add_header (current_header_key p) (substr data start n) r)
    (view_header (v_key v) (start, min n (length data - start)) v)"
proof -
  have "length (headers_flat r) = length (v_headers v)" using assms(1) by (simp add: views_inv_def reread_iff)
  with assms show ?thesis
    by (auto simp: views_inv_def view_header_def add_header_def reread_iff read_view_def late_def set_substr_min)
qed

lemma end_headers_state: "end_headers pos start p r = Inr (start', p') \<Longrightarrow> p_state p' \<notin> {PMethod, PHeaderValue, PChunkData, PChunkDataEnd} \<and> (start' = start \<or> start' = pos + 1)"
  by (auto simp: end_headers_def Let_def split: if_splits option.splits)

lemma view_step_inv:
  assumes inv: "views_inv data start p r v" and st: "phase1_step data pos start p r = Inr (pos', start', p', r')"
  shows "views_inv data start' p' r' (view_step data pos start p v)"
proof (cases "p_state p")
  case PMethod
  with assms show ?thesis
    by (auto simp: views_inv_def phase1_step_def view_step_def reread_iff set_method_def split: if_splits)
next
  case PPath
  with assms show ?thesis
    using view_path_reads [of data v r start "pos - start"] view_path_late [of start data "pos - start" v]
    by (auto simp: views_inv_def phase1_step_def view_step_def split: if_splits)
next
  case PHeaderKey
  with assms show ?thesis
    by (auto simp: views_inv_def phase1_step_def view_step_def header_key_step_def reread_iff read_view_def late_def Let_def
        split: if_splits sum.splits dest: end_headers_state)
next
  case PHeaderValue
  show ?thesis
  proof (cases "data ! pos = LF")
    case True
    define n where "n = (pos + 2 ^ 64 - start - 1) mod 2 ^ 64"
    have p': "p_state p' = PHeaderKey" "start' = pos + 1" "r' = add_header (current_header_key p) (substr data start n) r"
      using st PHeaderValue True unfolding phase1_step_def header_value_step_def n_def [symmetric]
      by (auto simp: Let_def split: if_splits)
    have "view_step data pos start p v = view_header (v_key v) (start, min n (length data - start)) v"
      using PHeaderValue True by (simp add: view_step_def n_def)
    then show ?thesis unfolding p'(2,3) using view_header_inv [OF inv PHeaderValue p'(1)] by simp
  next
    case False
    then show ?thesis using assms PHeaderValue by (simp add: phase1_step_def header_value_step_def view_step_def)
  qed
qed (use assms in \<open>auto simp: views_inv_def phase1_step_def view_step_def split: if_splits\<close>)

lemma view_phase1_inv:
  "views_inv data start p r v \<Longrightarrow> phase1 data pos start p r = Inr (pos', start', p', r') \<Longrightarrow>
     views_inv data start' p' r' (view_phase1 data pos start p r v)"
proof (induction data pos start p r v rule: view_phase1.induct)
  case (1 data pos start p r v)
  show ?case
  proof (cases "pos < length data \<and> in_phase1 (p_state p)")
    case True
    with "1.prems"(2) obtain a b c d where st: "phase1_step data pos start p r = Inr (a, b, c, d)"
      "phase1 data (a + 1) b c d = Inr (pos', start', p', r')"
      by (subst (asm) phase1.simps) (auto split: sum.splits)
    have "views_inv data start' p' r' (view_phase1 data (a + 1) b c d (view_step data pos start p v))"
      by (rule "1.IH" [OF True st(1) refl refl refl view_step_inv [OF "1.prems"(1) st(1)] st(2)])
    then show ?thesis using True st(1) by (subst view_phase1.simps) simp
  next
    case False
    with "1.prems" show ?thesis by (subst view_phase1.simps, subst (asm) phase1.simps) auto
  qed
qed

lemma no_views_inv: "views_inv data 0 HttpParser Request no_views"
  by (simp add: views_inv_def reread_iff no_views_def Request_def HttpParser_def late_def read_body_def read_view_def)

definition all_late :: "views \<Rightarrow> bool" where
  "all_late v \<longleftrightarrow> late (v_path v) \<and> late (v_query v) \<and> (\<forall>(k, x) \<in> set (v_headers v). late k \<and> late x)
     \<and> (case v_body v of BufferBody b \<Rightarrow> late b | ParserBody s \<Rightarrow> True)"

lemma chunk_size_step_request:
  "chunk_size_step data pos p r = Inl (out, p', r') \<Longrightarrow> p_state p \<noteq> PComplete \<Longrightarrow> is_complete p' \<Longrightarrow> r' = set_body (chunk_body p') r"
  unfolding chunk_size_step_def Let_def
  by (cases "find_crlf data pos") (auto simp: is_complete_def fail_def size_token split: sum.splits if_splits option.splits)

lemma chunk_step_request:
  assumes "chunk_step data pos p r = Inl (out, p', r')" "p_state p \<noteq> PComplete" "is_complete p'"
  shows "r' = set_body (chunk_body p') r"
proof (cases "p_state p = PChunkSize")
  case True
  then show ?thesis using assms chunk_size_step_request by (simp add: chunk_step_def)
next
  case False
  then show ?thesis
    using assms by (auto simp: chunk_step_def chunk_data_step_def chunk_end_step_def is_complete_def fail_def Let_def split: if_splits)
qed

lemma chunk_size_step_going: "chunk_size_step data pos p r = Inr (pos', p') \<Longrightarrow> p_state p' = PChunkData"
  unfolding chunk_size_step_def Let_def
  by (cases "find_crlf data pos") (auto simp: size_token split: sum.splits if_splits option.splits)

lemma chunk_step_going: "chunk_step data pos p r = Inr (pos', p') \<Longrightarrow> p_state p' \<noteq> PComplete"
  using chunk_size_step_going [of data pos p r pos' p']
  by (auto simp: chunk_step_def chunk_data_step_def chunk_end_step_def Let_def split: if_splits)

lemma chunk_loop_request:
  "chunk_loop data pos p r = (out, p', r') \<Longrightarrow> p_state p \<noteq> PComplete \<Longrightarrow> is_complete p' \<Longrightarrow> r' = set_body (chunk_body p') r"
proof (induction data pos p r rule: chunk_loop.induct)
  case (1 data pos p r)
  show ?case
  proof (cases "chunk_step data pos p r")
    case (Inl x)
    with "1.prems" chunk_step_request [of data pos p r out p' r'] show ?thesis by (subst (asm) chunk_loop.simps) auto
  next
    case (Inr x)
    obtain pos1 p1 where x: "x = (pos1, p1)" by (meson surj_pair)
    have "chunk_loop data pos1 p1 r = (out, p', r')" using "1.prems"(1) Inr x by (subst (asm) chunk_loop.simps) simp
    with "1.IH" [OF Inr x [symmetric]] chunk_step_going [of data pos p r pos1 p1] Inr x "1.prems"(3) show ?thesis by simp
  qed
qed

lemma body_reads:
  assumes inv: "views_inv data start p r v" and "\<not> in_phase1 (p_state p)"
    and out: "phase2 data pos start p r = (Some n, p', r')" "is_complete p'"
  shows "reread data (view_body data pos start p r v) r' = r' \<and> all_late (view_body data pos start p r v)"
proof -
  have r: "reread data v r = r" "v_body v = BufferBody (0, 0)" and l: "1 \<le> start" "all_late v"
    using assms by (auto simp: views_inv_def all_late_def late_def in_phase1_def)
  consider "p_state p = PBody" | "p_state p = PChunkSize" | "p_state p = PComplete" | "p_state p = PError"
    using assms(2) by (auto simp: in_phase1_def)
  then show ?thesis
  proof cases
    case 1
    with out r l show ?thesis
      by (auto simp: phase2_def phase2_body_def view_body_def is_complete_def set_body_def reread_iff read_body_def read_view_def
          all_late_def late_def Let_def split: if_splits)
  next
    case 2
    then have "chunk_loop data pos p r = (Some n, p', r')" using out by (simp add: phase2_def)
    then have "r' = set_body (chunk_body p') r" using chunk_loop_request 2 out(2) by fastforce
    with 2 out r l show ?thesis
      by (auto simp: view_body_def set_body_def reread_iff read_body_def all_late_def)
  qed (use out r l in \<open>auto simp: phase2_def view_body_def\<close>)
qed

text \<open>The views of a complete request read, in the buffer it was parsed from, exactly its fields, and none looks at the
  first byte.\<close>

lemma views_read:
  assumes "parse data HttpParser Request = (Some n, p, r)" "is_complete p"
  shows "reread data (parse_views data) r = r \<and> all_late (parse_views data)"
proof -
  have "find_header_end data \<noteq> None"
    using assms by (auto simp: parse_def HttpParser_def is_complete_def in_phase1_def fail_def Let_def split: if_splits)
  then have run: "run_phases data HttpParser Request = (Some n, p, r)" using assms(1) by (simp add: parse_fresh)
  then obtain pos start p1 r1 where f: "phase1 data 0 0 HttpParser Request = Inr (pos, start, p1, r1)"
    "phase2 data pos start p1 r1 = (Some n, p, r)"
    by (auto simp: run_phases_def split: sum.splits)
  have inv: "views_inv data start p1 r1 (view_phase1 data 0 0 HttpParser Request no_views)"
    by (rule view_phase1_inv [OF no_views_inv f(1)])
  then have "\<not> in_phase1 (p_state p1)"
    using f(2) assms(2) by (auto simp: views_inv_def in_phase1_def phase2_def is_complete_def split: if_splits)
  from body_reads [OF inv this f(2) assms(2)] show ?thesis
    by (simp add: parse_views_def f(1))
qed

lemma read_view_erased: "late v \<Longrightarrow> length mem = n \<Longrightarrow> mem \<noteq> [] \<Longrightarrow> read_view (erase_front n mem) v = read_view mem v"
  by (cases v; cases "fst v") (auto simp: late_def read_view_def erase_front_def substr_def drop_Suc neq_Nil_conv)

text \<open>Erasing the whole buffer does not disturb the request.\<close>

lemma reread_erased_all:
  assumes "all_late v" "mem \<noteq> []"
  shows "reread (erase_front (length mem) mem) v r = reread mem v r"
proof -
  have "read_body (erase_front (length mem) mem) (v_body v) = read_body mem (v_body v)"
    using assms by (auto simp: read_body_def all_late_def read_view_erased split: body_view.splits)
  moreover have "map (\<lambda>(k, x). (read_view (erase_front (length mem) mem) k, read_view (erase_front (length mem) mem) x)) (v_headers v) =
      map (\<lambda>(k, x). (read_view mem k, read_view mem x)) (v_headers v)"
    using assms by (intro map_cong) (auto simp: all_late_def read_view_erased)
  ultimately show ?thesis using assms by (simp add: reread_def all_late_def read_view_erased)
qed

end
