(* ===== verification/Application.thy ===== *)
theory Application
  imports Epoll_Reactor Send_Response Http_Views Router
begin

text \<open>
  \<open>App\<close> of \<open>src/qbuem_stack.cpp\<close> on one reactor: the accept callback, the read callback of a connection with its parse, guards,
  dispatch and response, and the two timers of a connection. The world extends the reactor by the \<open>ConnCtx\<close> objects the
  callbacks share, the counters of the server and a log of what each socket was given. Descriptors are numbers the
  kernel reuses; a socket keeps its own number for the log. Handlers and middlewares are functions on the request and the
  response; a handler may throw, leaving the response as it then is. Asynchronous handlers and middlewares and WebSocket servers take over a connection.
\<close>

section \<open>State\<close>

record ConnCtx =
  idle_timer_id :: int
  read_timer_id :: int
  handled :: nat
  sent_100 :: bool
  buf :: string
  client_ip :: string

definition new_ctx :: "string \<Rightarrow> ConnCtx" where
  "new_ctx ip = \<lparr> idle_timer_id = - 1, read_timer_id = - 1, handled = 0, sent_100 = False, buf = [], client_ip = ip \<rparr>"

text \<open>The closures the application registers: each holds its descriptor and its context.\<close>

datatype callback = OnAccept | OnAcceptUnix | OnRead nat nat | OnReadUnix nat nat | OnIdle nat nat | OnReadTimeout nat nat

datatype log_entry = Gave sending | Closed | HandedOver

record world = "callback reactor" +
  ctxs :: "ConnCtx list"
  sockets :: nat
  out_log :: "(nat \<times> log_entry) list"
  cnt_requests :: u64
  cnt_errors :: u64
  cnt_bytes_sent :: u64
  max_connections :: u64
  draining :: bool

record metrics =
  requests_total :: u64
  errors_total :: u64
  active_connections :: u64
  bytes_sent :: u64

type_synonym exn = string

datatype app_handler =
    Handler "metrics \<times> bool \<Rightarrow> request \<Rightarrow> response \<Rightarrow> exn option \<times> response"
  | AsyncHandler nat

text \<open>The configuration, the current date, the kernel's choice of descriptors and the order of iteration of the parameter map.\<close>

record app =
  app_router :: "app_handler router"
  run_mw :: "nat \<Rightarrow> request \<Rightarrow> response \<Rightarrow> bool \<times> response"
  error_handler :: "(exn \<Rightarrow> request \<Rightarrow> response \<Rightarrow> response) option"
  ws_routes :: "string list"
  http_date :: string
  fd_alloc :: "nat list \<Rightarrow> nat option"
  params_order :: "(string \<rightharpoonup> string) \<Rightarrow> (string \<times> string) list"

text \<open>A \<open>ConnCtx\<close> lives, and is counted as active, while a registered callback holds it.\<close>

fun ctx_of :: "callback \<Rightarrow> nat list" where
  "ctx_of OnAccept = []"
| "ctx_of OnAcceptUnix = []"
| "ctx_of (OnRead fd c) = [c]"
| "ctx_of (OnReadUnix fd c) = [c]"
| "ctx_of (OnIdle fd c) = [c]"
| "ctx_of (OnReadTimeout fd c) = [c]"

definition held :: "('c, 'z) reactor_scheme \<Rightarrow> 'c list" where
  "held w =
     map (snd \<circ> snd) (timers_by_id w)
     @ concat (map (\<lambda>(fd, cbs). (case read_cb cbs of Some cb \<Rightarrow> [cb] | None \<Rightarrow> [])
                               @ (case write_cb cbs of Some cb \<Rightarrow> [cb] | None \<Rightarrow> [])) (fd_callbacks w))"

definition cnt_active :: "world \<Rightarrow> nat" where
  "cnt_active w = length (remdups (concat (map ctx_of (held w))))"

definition snapshot_metrics :: "world \<Rightarrow> metrics" where
  "snapshot_metrics w =
     \<lparr> requests_total = cnt_requests w, errors_total = cnt_errors w, active_connections = of_nat (cnt_active w),
       bytes_sent = cnt_bytes_sent w \<rparr>"

definition upd_ctx :: "nat \<Rightarrow> (ConnCtx \<Rightarrow> ConnCtx) \<Rightarrow> world \<Rightarrow> world" where
  "upd_ctx c f w = w\<lparr>ctxs := (ctxs w)[c := f (ctxs w ! c)]\<rparr>"

section \<open>The socket\<close>

definition give :: "nat \<Rightarrow> sending \<Rightarrow> world \<Rightarrow> world" where
  "give fd x w = (case map_of (open_fds w) fd of Some (Socket s) \<Rightarrow> w\<lparr>out_log := out_log w @ [(s, Gave x)]\<rparr> | _ \<Rightarrow> w)"

definition close_fd :: "nat \<Rightarrow> world \<Rightarrow> world" where
  "close_fd fd w =
     sys_close fd (case map_of (open_fds w) fd of Some (Socket s) \<Rightarrow> w\<lparr>out_log := out_log w @ [(s, Closed)]\<rparr> | _ \<Rightarrow> w)"

definition hand_over :: "nat \<Rightarrow> world \<Rightarrow> world" where
  "hand_over fd w =
     (case map_of (open_fds w) fd of Some (Socket s) \<Rightarrow> w\<lparr>out_log := out_log w @ [(s, HandedOver)]\<rparr> | _ \<Rightarrow> w)"

definition close_conn :: "nat \<Rightarrow> world \<Rightarrow> world" where
  "close_conn fd w = close_fd fd (unregister_event fd Read w)"

section \<open>Timers\<close>

definition disarm_idle :: "nat \<Rightarrow> world \<Rightarrow> world" where
  "disarm_idle c w =
     (let t = idle_timer_id (ctxs w ! c) in
      if t \<noteq> - 1 then upd_ctx c (\<lambda>x. x\<lparr>idle_timer_id := - 1\<rparr>) (unregister_timer t w) else w)"

definition arm_idle :: "app \<Rightarrow> nat \<Rightarrow> nat \<Rightarrow> world \<Rightarrow> world" where
  "arm_idle a fd c w =
     (case register_timer (fd_alloc a) (OnIdle fd c) (disarm_idle c w) of
        (Some t, w) \<Rightarrow> upd_ctx c (\<lambda>x. x\<lparr>idle_timer_id := t\<rparr>) w
      | (None, w) \<Rightarrow> w)"

definition arm_read_timeout :: "app \<Rightarrow> nat \<Rightarrow> nat \<Rightarrow> world \<Rightarrow> world" where
  "arm_read_timeout a fd c w =
     (if read_timer_id (ctxs w ! c) \<noteq> - 1 then w
      else case register_timer (fd_alloc a) (OnReadTimeout fd c) w of
        (Some t, w) \<Rightarrow> upd_ctx c (\<lambda>x. x\<lparr>read_timer_id := t\<rparr>) w
      | (None, w) \<Rightarrow> w)"

definition cancel_read_timeout :: "nat \<Rightarrow> world \<Rightarrow> world" where
  "cancel_read_timeout c w =
     (let t = read_timer_id (ctxs w ! c) in
      if t \<noteq> - 1 then upd_ctx c (\<lambda>x. x\<lparr>read_timer_id := - 1\<rparr>) (unregister_timer t w) else w)"

definition on_idle :: "nat \<Rightarrow> nat \<Rightarrow> world \<Rightarrow> world" where
  "on_idle fd c w = close_conn fd (upd_ctx c (\<lambda>x. x\<lparr>idle_timer_id := - 1\<rparr>) w)"

definition timeout_response :: response where
  "timeout_response = set_rbody ''Request Timeout'' (set_header ''Connection'' ''close'' (set_status 408 Response))"

definition on_read_timeout :: "nat \<Rightarrow> nat \<Rightarrow> world \<Rightarrow> world" where
  "on_read_timeout fd c w =
     close_conn fd (give fd (Sent (serialize timeout_response)) (upd_ctx c (\<lambda>x. x\<lparr>read_timer_id := - 1\<rparr>) w))"

section \<open>A complete request\<close>

definition error_response :: "string \<Rightarrow> nat \<Rightarrow> response" where
  "error_response date status =
     set_rbody (if status = 413 then ''Payload Too Large'' else ''Bad Request'')
       (set_header ''Date'' date (set_header ''Connection'' ''close'' (set_status status Response)))"

definition traversal_response :: "string \<Rightarrow> response" where
  "traversal_response date =
     set_header ''Connection'' ''close'' (set_header ''Date'' date (set_rbody ''Bad Request'' (set_status 400 Response)))"

text \<open>The path traversal guard; \<open>find\<close> gives \<open>npos\<close>, all bits set, when there is no match.\<close>

definition find_npos :: "string \<Rightarrow> string \<Rightarrow> nat" where
  "find_npos pat p = (case find_sub pat p of Some i \<Rightarrow> i | None \<Rightarrow> 2 ^ 64 - 1)"

definition bad_path :: "string \<Rightarrow> bool" where
  "bad_path p \<longleftrightarrow>
     find_sub ''/../'' p \<noteq> None \<or> find_npos ''/..'' p = (length p + 2 ^ 64 - 3) mod 2 ^ 64
     \<or> find_sub ''%2e%2e'' p \<noteq> None \<or> find_sub ''%2E%2E'' p \<noteq> None \<or> find_sub ''%2e.'' p \<noteq> None
     \<or> find_sub ''.%2e'' p \<noteq> None"

definition to_lower :: "char \<Rightarrow> char" where
  "to_lower c = (if 65 \<le> code c \<and> code c \<le> 90 then char_of (code c + 32) else c)"

definition is_websocket :: "string \<Rightarrow> bool" where
  "is_websocket up \<longleftrightarrow> length up = 9 \<and> map to_lower up = ''websocket''"

definition finalize :: "app \<Rightarrow> nat \<Rightarrow> nat \<Rightarrow> bool \<Rightarrow> request \<Rightarrow> response \<Rightarrow> world \<Rightarrow> world" where
  "finalize a fd c keep_alive rq r w =
     (let out = send_response (http_date a) keep_alive (handled (ctxs w ! c)) rq r;
          w = fold (give fd) (o_sent out) w
      in w\<lparr>cnt_bytes_sent := cnt_bytes_sent w + of_nat (o_bytes out),
           cnt_errors := (if o_error out then cnt_errors w + 1 else cnt_errors w)\<rparr>)"

definition end_request :: "app \<Rightarrow> nat \<Rightarrow> nat \<Rightarrow> bool \<Rightarrow> world \<Rightarrow> world" where
  "end_request a fd c keep_alive w = (if keep_alive then arm_idle a fd c w else close_conn fd w)"

text \<open>The route and its parameters; a \<open>HEAD\<close> without a route of its own falls back to \<open>GET\<close>.\<close>

definition route :: "app \<Rightarrow> request \<Rightarrow> app_handler option \<times> (string \<rightharpoonup> string) \<times> bool" where
  "route a rq =
     (case match_route (rq_method rq) (rq_path rq) Map.empty (app_router a) of
        (None, params) \<Rightarrow>
          if rq_method rq = Head then
            (case match_route Get (rq_path rq) params (app_router a) of (h, params) \<Rightarrow> (h, params, h \<noteq> None))
          else (None, params, False)
      | (Some h, params) \<Rightarrow> (Some h, params, False))"

definition no_route :: "app \<Rightarrow> request \<Rightarrow> response \<Rightarrow> response" where
  "no_route a rq r =
     (if path_exists (rq_path rq) (app_router a) then set_rbody ''Method Not Allowed'' (set_status 405 r)
      else set_rbody ''Not Found'' (set_status 404 r))"

definition add_params :: "app \<Rightarrow> (string \<rightharpoonup> string) \<Rightarrow> request \<Rightarrow> request" where
  "add_params a params rq = fold (\<lambda>(k, v). set_param k v) (params_order a params) rq"

text \<open>The synchronous middlewares in order, until one stops the request; without an asynchronous one the last case does not arise.\<close>

fun run_mws :: "app \<Rightarrow> any_middleware list \<Rightarrow> request \<Rightarrow> response \<Rightarrow> bool \<times> response" where
  "run_mws a [] rq r = (True, r)"
| "run_mws a (Sync i # ms) rq r = (case run_mw a i rq r of (True, r) \<Rightarrow> run_mws a ms rq r | (False, r) \<Rightarrow> (False, r))"
| "run_mws a (Async i # ms) rq r = run_mws a ms rq r"

text \<open>A synchronous handler: an exception discards the response, and the error handler, or a 500, makes a new one.\<close>

definition run_handler ::
  "app \<Rightarrow> (request \<Rightarrow> response \<Rightarrow> exn option \<times> response) \<Rightarrow> bool \<Rightarrow> request \<Rightarrow> response \<Rightarrow> response" where
  "run_handler a h head_fallback rq r =
     (case h rq r of
        (None, r) \<Rightarrow> if head_fallback then set_rbody [] r else r
      | (Some ep, r) \<Rightarrow>
          (case error_handler a of
             Some eh \<Rightarrow> eh ep rq Response
           | None \<Rightarrow> set_rbody ''Internal Server Error'' (set_status 500 Response)))"

text \<open>The dispatch of a request whose bytes have been taken out of the buffer.\<close>

definition dispatch :: "app \<Rightarrow> nat \<Rightarrow> nat \<Rightarrow> bool \<Rightarrow> request \<Rightarrow> world \<Rightarrow> world" where
  "dispatch a fd c keep_alive rq w =
     (case route a rq of (h, params, head_fallback) \<Rightarrow>
        if has_async_mw (app_router a) then
          (case h of
             None \<Rightarrow> end_request a fd c keep_alive (finalize a fd c keep_alive rq (no_route a rq Response) w)
           | Some h \<Rightarrow> hand_over fd w)
        else
          case run_mws a (middlewares (app_router a)) rq Response of
            (False, r) \<Rightarrow> close_conn fd (finalize a fd c keep_alive rq r w)
          | (True, r) \<Rightarrow>
              (case h of
                 None \<Rightarrow> end_request a fd c keep_alive (finalize a fd c keep_alive rq (no_route a rq r) w)
               | Some (Handler f) \<Rightarrow>
                   (let rq = add_params a params rq;
                        r = run_handler a (f (snapshot_metrics w, draining w)) head_fallback rq r
                    in end_request a fd c keep_alive (finalize a fd c keep_alive rq r w))
               | Some (AsyncHandler i) \<Rightarrow> hand_over fd w))"

text \<open>The bytes of the request are erased from the buffer; from then on its fields are what their views read in the memory
  left behind.\<close>

definition after_erase :: "string \<Rightarrow> nat \<Rightarrow> request \<Rightarrow> request" where
  "after_erase data n rq = reread (erase_front n data) (parse_views data) rq"

definition serve :: "app \<Rightarrow> nat \<Rightarrow> nat \<Rightarrow> nat \<Rightarrow> request \<Rightarrow> world \<Rightarrow> world" where
  "serve a fd c n rq w =
     (let data = buf (ctxs w ! c);
          rq = after_erase data n rq;
          w = upd_ctx c (\<lambda>x. x\<lparr>buf := drop n data\<rparr>) w;
          rq = set_remote_addr (client_ip (ctxs w ! c)) rq;
          keep_alive = (header rq ''Connection'' \<noteq> ''close'' \<and> handled (ctxs w ! c) < MAX_REQUESTS)
      in dispatch a fd c keep_alive rq w)"

definition on_complete :: "app \<Rightarrow> nat \<Rightarrow> nat \<Rightarrow> nat \<Rightarrow> request \<Rightarrow> world \<Rightarrow> world" where
  "on_complete a fd c n rq w =
     (let w = cancel_read_timeout c w;
          w = upd_ctx c (\<lambda>x. x\<lparr>sent_100 := False, handled := handled x + 1\<rparr>) w;
          w = w\<lparr>cnt_requests := cnt_requests w + 1\<rparr>
      in if bad_path (rq_path rq)
         then close_conn fd (give fd (Sent (serialize (traversal_response (http_date a)))) w)
         else if is_websocket (header rq ''Upgrade'') \<and> rq_path rq \<in> set (ws_routes a)
         then hand_over fd (unregister_event fd Read (disarm_idle c (cancel_read_timeout c w)))
         else serve a fd c n rq w)"

definition continue_100 :: string where
  "continue_100 = ''HTTP/1.1 100 Continue'' @ [CR, LF, CR, LF]"

text \<open>The headers are complete and the body is not.\<close>

definition on_expect :: "nat \<Rightarrow> nat \<Rightarrow> request \<Rightarrow> world \<Rightarrow> world" where
  "on_expect fd c rq w =
     (if \<not> sent_100 (ctxs w ! c) \<and> header rq ''Expect'' = ''100-continue''
      then upd_ctx c (\<lambda>x. x\<lparr>sent_100 := True\<rparr>) (give fd (Sent continue_100) w)
      else w)"

text \<open>The read callback; \<open>tmp\<close> is what \<open>read\<close> returned, empty for the end of the stream or an error.\<close>

definition on_data :: "app \<Rightarrow> nat \<Rightarrow> nat \<Rightarrow> string \<Rightarrow> world \<Rightarrow> world" where
  "on_data a fd c tmp w =
     (let w = (if buf (ctxs w ! c) = [] then arm_read_timeout a fd c w else w);
          w = upd_ctx c (\<lambda>x. x\<lparr>buf := buf x @ tmp\<rparr>) w
      in case parse (buf (ctxs w ! c)) HttpParser Request of
           (None, p, rq) \<Rightarrow>
             (let status = (if error_status p \<noteq> 0 then error_status p else 400) in
              close_conn fd (give fd (Sent (serialize (error_response (http_date a) status))) (cancel_read_timeout c w)))
         | (Some n, p, rq) \<Rightarrow>
             if headers_complete p \<and> \<not> is_complete p then arm_idle a fd c (on_expect fd c rq w)
             else if \<not> is_complete p then arm_idle a fd c w
             else on_complete a fd c n rq w)"

definition on_read :: "app \<Rightarrow> nat \<Rightarrow> nat \<Rightarrow> string \<Rightarrow> world \<Rightarrow> world" where
  "on_read a fd c tmp w =
     (let w = disarm_idle c w in
      if tmp = [] then close_conn fd (cancel_read_timeout c w) else on_data a fd c tmp w)"

section \<open>Accepting\<close>

definition kOverload :: string where
  "kOverload =
     ''HTTP/1.1 503 Service Unavailable'' @ [CR, LF] @ ''Content-Type: application/json'' @ [CR, LF]
     @ ''Retry-After: 1'' @ [CR, LF] @ ''Content-Length: 37'' @ [CR, LF] @ ''Connection: close'' @ [CR, LF, CR, LF]
     @ ''{'' @ [CHR 0x22] @ ''error'' @ [CHR 0x22] @ '':'' @ [CHR 0x22] @ ''too many connections'' @ [CHR 0x22] @ ''}    ''"

definition on_accept :: "app \<Rightarrow> string \<Rightarrow> world \<Rightarrow> world" where
  "on_accept a peer_ip w =
     (if draining w then w
      else case fd_alloc a (map fst (open_fds w)) of
        None \<Rightarrow> w
      | Some client_fd \<Rightarrow>
          (let w = (sys_open client_fd (Socket (sockets w)) w)\<lparr>sockets := sockets w + 1\<rparr> in
           if max_connections w > 0 \<and> of_nat (cnt_active w) \<ge> max_connections w
           then close_fd client_fd (give client_fd (Sent (take (length kOverload - 4) kOverload)) w)
           else
             (let c = length (ctxs w);
                  w = arm_idle a client_fd c (w\<lparr>ctxs := ctxs w @ [new_ctx peer_ip]\<rparr>)
              in register_event client_fd Read (OnRead client_fd c) w)))"

section \<open>Connections on a Unix socket\<close>

text \<open>\<open>App::listen_unix\<close> has callbacks of its own: no guard, no upgrade, no \<open>Expect\<close>, no conditional requests or ranges. \<open>clear\<close>
  drops the whole buffer.\<close>

definition unix_headers :: "string \<Rightarrow> bool \<Rightarrow> response \<Rightarrow> response" where
  "unix_headers date keep_alive r = set_header ''Connection'' (connection_value keep_alive) (set_header ''Date'' date r)"

definition unix_answer :: "app \<Rightarrow> metrics \<times> bool \<Rightarrow> request \<Rightarrow> response \<Rightarrow> response" where
  "unix_answer a v rq r =
     (case match_route (rq_method rq) (rq_path rq) Map.empty (app_router a) of
        (None, params) \<Rightarrow> no_route a rq r
      | (Some (Handler f), params) \<Rightarrow>
          (case f v (add_params a params rq) r of
             (None, r) \<Rightarrow> r
           | (Some ep, r) \<Rightarrow> set_rbody ''Internal Server Error'' (set_status 500 r))
      | (Some (AsyncHandler i), params) \<Rightarrow> r)"

definition unix_finish :: "app \<Rightarrow> nat \<Rightarrow> nat \<Rightarrow> bool \<Rightarrow> response \<Rightarrow> world \<Rightarrow> world" where
  "unix_finish a fd c keep_alive r w =
     (let r = unix_headers (http_date a) keep_alive r;
          w = give fd (SentV (serialize_header r) (if r_chunked r then chunk_buf r else r_body r)) w;
          w = w\<lparr>cnt_bytes_sent := cnt_bytes_sent w + 1, cnt_errors := (if status_code r \<ge> 400 then cnt_errors w + 1 else cnt_errors w)\<rparr>
      in end_request a fd c keep_alive w)"

definition unix_complete :: "app \<Rightarrow> nat \<Rightarrow> nat \<Rightarrow> request \<Rightarrow> world \<Rightarrow> world" where
  "unix_complete a fd c rq w =
     (let w = cancel_read_timeout c w;
          data = buf (ctxs w ! c);
          rq = reread (erase_front (length data) data) (parse_views data) rq;
          w = upd_ctx c (\<lambda>x. x\<lparr>buf := [], handled := handled x + 1\<rparr>) w;
          rq = set_remote_addr (client_ip (ctxs w ! c)) rq;
          w = w\<lparr>cnt_requests := cnt_requests w + 1\<rparr>;
          keep_alive = (handled (ctxs w ! c) < MAX_REQUESTS)
      in case run_mws a (middlewares (app_router a)) rq Response of
           (False, r) \<Rightarrow>
             (let r = unix_headers (http_date a) False r in close_conn fd (give fd (SentV (serialize_header r) (r_body r)) w))
         | (True, r) \<Rightarrow> unix_finish a fd c keep_alive (unix_answer a (snapshot_metrics w, draining w) rq r) w)"

definition on_read_unix :: "app \<Rightarrow> nat \<Rightarrow> nat \<Rightarrow> string \<Rightarrow> world \<Rightarrow> world" where
  "on_read_unix a fd c tmp w =
     (let w = disarm_idle c w in
      if tmp = [] then close_conn fd (cancel_read_timeout c w)
      else
        (let w = (if buf (ctxs w ! c) = [] then arm_read_timeout a fd c w else w);
             w = upd_ctx c (\<lambda>x. x\<lparr>buf := buf x @ tmp\<rparr>) w
         in case parse (buf (ctxs w ! c)) HttpParser Request of
              (None, p, rq) \<Rightarrow>
                close_conn fd (give fd (Sent (serialize (error_response (http_date a) 400))) (cancel_read_timeout c w))
            | (Some n, p, rq) \<Rightarrow> if \<not> is_complete p then w else unix_complete a fd c rq w))"

definition on_accept_unix :: "app \<Rightarrow> world \<Rightarrow> world" where
  "on_accept_unix a w =
     (case fd_alloc a (map fst (open_fds w)) of
        None \<Rightarrow> w
      | Some client_fd \<Rightarrow>
          (let w = (sys_open client_fd (Socket (sockets w)) w)\<lparr>sockets := sockets w + 1\<rparr>;
               c = length (ctxs w);
               w = arm_idle a client_fd c (w\<lparr>ctxs := ctxs w @ [new_ctx ''unix'']\<rparr>)
           in register_event client_fd Read (OnReadUnix client_fd c) w))"

section \<open>The loop\<close>

text \<open>What a callback reads: bytes of a connection, or a new connection with the address of its peer.\<close>

datatype input = Bytes string | Accepted string | Nothing

definition run_callback :: "app \<Rightarrow> callback \<Rightarrow> input \<Rightarrow> world \<Rightarrow> world" where
  "run_callback a cb i w =
     (case cb of
        OnAccept \<Rightarrow> (case i of Accepted ip \<Rightarrow> on_accept a ip w | _ \<Rightarrow> w)
      | OnAcceptUnix \<Rightarrow> (case i of Accepted ip \<Rightarrow> on_accept_unix a w | _ \<Rightarrow> w)
      | OnRead fd c \<Rightarrow> on_read a fd c (case i of Bytes s \<Rightarrow> s | _ \<Rightarrow> []) w
      | OnReadUnix fd c \<Rightarrow> on_read_unix a fd c (case i of Bytes s \<Rightarrow> s | _ \<Rightarrow> []) w
      | OnIdle fd c \<Rightarrow> on_idle fd c w
      | OnReadTimeout fd c \<Rightarrow> on_read_timeout fd c w)"

definition app_poll :: "app \<Rightarrow> input event list \<Rightarrow> world \<Rightarrow> world" where
  "app_poll a events w = poll (run_callback a) events w"

text \<open>The reactor with its event descriptor 0 and the listening socket 1.\<close>

definition listen :: "u64 \<Rightarrow> world" where
  "listen mx =
     register_event 1 Read OnAccept
       \<lparr> open_fds = [(1, Listener), (0, EventFile)], epoll_set = [(0, (True, False))], next_timer_id = 1, timers_made = 0, timers_by_id = [],
         timerfd_to_id = [], fd_callbacks = [], event_fd = 0, work_queue = [], ctxs = [], sockets = 0, out_log = [],
         cnt_requests = 0, cnt_errors = 0, cnt_bytes_sent = 0, max_connections = mx, draining = False \<rparr>"

text \<open>An application may also listen on a Unix socket; its listener is a descriptor of its own.\<close>

definition listen_unix :: "nat \<Rightarrow> world \<Rightarrow> world" where
  "listen_unix fd w = register_event fd Read OnAcceptUnix (sys_open fd Listener w)"

text \<open>\<open>App::stop\<close> up to the end of its second step: drain mode, and the listening sockets are closed. Waiting for the connections
  and stopping the threads are left out.\<close>

definition stop :: "world \<Rightarrow> world" where
  "stop w = fold sys_close (map fst (filter (\<lambda>(fd, k). k = Listener) (open_fds w))) (w\<lparr>draining := True\<rparr>)"

end
