(* ===== verification/App_Routes.thy ===== *)
theory App_Routes
  imports Application
begin

text \<open>
  The configuration calls of \<open>App\<close> in \<open>src/qbuem_stack.cpp\<close> with the handlers they install, and the static files of
  \<open>include/qbuem/middleware/static_files.hpp\<close>. What \<open>stat\<close> says of a path, and the text of a date, are arguments.
\<close>

section \<open>Configuration\<close>

definition app_route :: "Method \<Rightarrow> string \<Rightarrow> app_handler option \<Rightarrow> app \<Rightarrow> app" where
  "app_route m path h a = a\<lparr>app_router := add_route m path h (app_router a)\<rparr>"

definition app_get :: "string \<Rightarrow> app_handler option \<Rightarrow> app \<Rightarrow> app" where
  "app_get path h a = app_route Get path h a"

definition app_post :: "string \<Rightarrow> app_handler option \<Rightarrow> app \<Rightarrow> app" where
  "app_post path h a = app_route Post path h a"

definition app_put :: "string \<Rightarrow> app_handler option \<Rightarrow> app \<Rightarrow> app" where
  "app_put path h a = app_route Put path h a"

definition app_del :: "string \<Rightarrow> app_handler option \<Rightarrow> app \<Rightarrow> app" where
  "app_del path h a = app_route Delete path h a"

definition app_patch :: "string \<Rightarrow> app_handler option \<Rightarrow> app \<Rightarrow> app" where
  "app_patch path h a = app_route Patch path h a"

definition app_head :: "string \<Rightarrow> app_handler option \<Rightarrow> app \<Rightarrow> app" where
  "app_head path h a = app_route Head path h a"

definition app_options :: "string \<Rightarrow> app_handler option \<Rightarrow> app \<Rightarrow> app" where
  "app_options path h a = app_route Options path h a"

definition app_use :: "nat \<Rightarrow> app \<Rightarrow> app" where
  "app_use mw a = a\<lparr>app_router := use_mw mw (app_router a)\<rparr>"

definition app_use_async :: "nat \<Rightarrow> app \<Rightarrow> app" where
  "app_use_async mw a = a\<lparr>app_router := use_async mw (app_router a)\<rparr>"

definition on_error :: "(exn \<Rightarrow> request \<Rightarrow> response \<Rightarrow> response) option \<Rightarrow> app \<Rightarrow> app" where
  "on_error h a = a\<lparr>error_handler := h\<rparr>"

definition app_ws :: "string \<Rightarrow> app \<Rightarrow> app" where
  "app_ws path a = a\<lparr>ws_routes := List.insert path (ws_routes a)\<rparr>"

definition set_max_connections :: "u64 \<Rightarrow> world \<Rightarrow> world" where
  "set_max_connections mx w = w\<lparr>max_connections := mx\<rparr>"

section \<open>Probes\<close>

definition quote :: "string \<Rightarrow> string" where
  "quote s = [CHR 0x22] @ s @ [CHR 0x22]"

definition json_reply :: "nat \<Rightarrow> string \<Rightarrow> response \<Rightarrow> response" where
  "json_reply st body r = set_rbody body (set_header ''Content-Type'' ''application/json'' (set_status st r))"

definition health_check :: "string \<Rightarrow> app \<Rightarrow> app" where
  "health_check path a =
     app_get path (Some (Handler (\<lambda>v rq r. (None, json_reply 200 (''{'' @ quote ''status'' @ '':'' @ quote ''ok'' @ ''}'') r)))) a"

text \<open>The uptime in seconds is an argument.\<close>

definition health_check_detailed :: "nat \<Rightarrow> string \<Rightarrow> app \<Rightarrow> app" where
  "health_check_detailed uptime path a =
     app_get path (Some (Handler (\<lambda>(m, dr) rq r. (None, json_reply 200
       (''{'' @ quote ''status'' @ '':'' @ quote ''ok'' @ '',''
        @ quote ''connections'' @ '':'' @ to_string (unat (active_connections m)) @ '',''
        @ quote ''uptime_s'' @ '':'' @ to_string uptime @ '',''
        @ quote ''requests_total'' @ '':'' @ to_string (unat (requests_total m)) @ ''}'') r)))) a"

definition liveness_endpoint :: "string \<Rightarrow> app \<Rightarrow> app" where
  "liveness_endpoint path a =
     app_get path (Some (Handler (\<lambda>v rq r. (None, json_reply 200 (''{'' @ quote ''alive'' @ '':true}'') r)))) a"

definition readiness_endpoint :: "string \<Rightarrow> app \<Rightarrow> app" where
  "readiness_endpoint path a =
     app_get path (Some (Handler (\<lambda>(m, dr) rq r. (None, 
       if dr then
         set_rbody (''{'' @ quote ''ready'' @ '':false,'' @ quote ''reason'' @ '':'' @ quote ''draining'' @ ''}'')
           (set_header ''Retry-After'' ''5'' (set_header ''Content-Type'' ''application/json'' (set_status 503 r)))
       else json_reply 200 (''{'' @ quote ''ready'' @ '':true}'') r)))) a"

definition metrics_endpoint :: "string \<Rightarrow> app \<Rightarrow> app" where
  "metrics_endpoint path a =
     app_get path (Some (Handler (\<lambda>(m, dr) rq r. (None, 
       set_rbody
         (''qbuem_requests_total '' @ to_string (unat (requests_total m)) @ [LF]
          @ ''qbuem_errors_total '' @ to_string (unat (errors_total m)) @ [LF]
          @ ''qbuem_active_connections '' @ to_string (unat (active_connections m)) @ [LF]
          @ ''qbuem_bytes_sent '' @ to_string (unat (bytes_sent m)) @ [LF])
         (set_header ''Content-Type'' ''text/plain; version=0.0.4; charset=utf-8'' (set_status 200 r)))))) a"

section \<open>Static files\<close>

definition kTable :: "(string \<times> string) list" where
  "kTable =
     [(''.html'', ''text/html; charset=utf-8''), (''.htm'', ''text/html; charset=utf-8''), (''.css'', ''text/css; charset=utf-8''),
      (''.js'', ''text/javascript; charset=utf-8''), (''.mjs'', ''text/javascript; charset=utf-8''),
      (''.txt'', ''text/plain; charset=utf-8''), (''.md'', ''text/markdown; charset=utf-8''), (''.csv'', ''text/csv; charset=utf-8''),
      (''.json'', ''application/json''), (''.xml'', ''application/xml''), (''.pdf'', ''application/pdf''),
      (''.wasm'', ''application/wasm''), (''.zip'', ''application/zip''), (''.gz'', ''application/gzip''),
      (''.png'', ''image/png''), (''.jpg'', ''image/jpeg''), (''.jpeg'', ''image/jpeg''), (''.gif'', ''image/gif''),
      (''.svg'', ''image/svg+xml''), (''.ico'', ''image/x-icon''), (''.webp'', ''image/webp''), (''.avif'', ''image/avif''),
      (''.woff'', ''font/woff''), (''.woff2'', ''font/woff2''), (''.ttf'', ''font/ttf''), (''.otf'', ''font/otf''),
      (''.mp3'', ''audio/mpeg''), (''.ogg'', ''audio/ogg''), (''.mp4'', ''video/mp4''), (''.webm'', ''video/webm'')]"

definition mime_type :: "string \<Rightarrow> string" where
  "mime_type ext = (case map_of kTable ext of Some t \<Rightarrow> t | None \<Rightarrow> ''application/octet-stream'')"

definition rfind :: "char \<Rightarrow> string \<Rightarrow> nat option" where
  "rfind c s = map_option (\<lambda>i. length s - 1 - i) (find_index (\<lambda>x. x = c) (rev s))"

definition file_extension :: "string \<Rightarrow> string" where
  "file_extension path =
     (case rfind CHR ''.'' path of
        None \<Rightarrow> []
      | Some dot \<Rightarrow>
          (case rfind CHR ''/'' path of
             Some slash \<Rightarrow> if dot < slash then [] else drop dot path
           | None \<Rightarrow> drop dot path))"

text \<open>What \<open>stat\<close> tells of a path that exists.\<close>

record file_stat =
  st_regular :: bool
  st_size :: nat
  st_mtime :: nat

definition last_modified :: "(nat \<Rightarrow> string) \<Rightarrow> nat \<Rightarrow> response \<Rightarrow> response" where
  "last_modified fmt t r = set_header ''Last-Modified'' (fmt t) r"

definition serve_file :: "(nat \<Rightarrow> string) \<Rightarrow> (string \<Rightarrow> file_stat option) \<Rightarrow> string \<Rightarrow> response \<Rightarrow> response" where
  "serve_file fmt stat fs_path r =
     (case stat fs_path of
        None \<Rightarrow> set_rbody ''Not Found'' (set_status 404 r)
      | Some st \<Rightarrow>
          if \<not> st_regular st then set_rbody ''Not Found'' (set_status 404 r)
          else
            sendfile_path fs_path (st_size st)
              (last_modified fmt (st_mtime st)
                (set_header ''ETag'' (''W/'' @ quote (to_string (st_size st) @ ''-'' @ to_string (st_mtime st)))
                  (set_header ''Content-Type'' (mime_type (file_extension fs_path)) (set_status 200 r)))))"

definition static_handler :: "(nat \<Rightarrow> string) \<Rightarrow> (string \<Rightarrow> file_stat option) \<Rightarrow> string \<Rightarrow> request \<Rightarrow> response \<Rightarrow> response" where
  "static_handler fmt stat root rq r =
     (let rel = dropWhile (\<lambda>c. c = CHR ''/'') (param rq ''**'');
          rel = (if rel = [] then ''index.html'' else rel)
      in if find_sub ''..'' rel \<noteq> None then set_rbody ''Bad Request'' (set_status 400 r)
         else serve_file fmt stat (root @ ''/'' @ rel) r)"

definition serve_static :: "(nat \<Rightarrow> string) \<Rightarrow> (string \<Rightarrow> file_stat option) \<Rightarrow> string \<Rightarrow> string \<Rightarrow> app \<Rightarrow> app" where
  "serve_static fmt stat url_prefix root a =
     a\<lparr>app_router := add_prefix_route Get url_prefix (Some (Handler (\<lambda>v rq r. (None, static_handler fmt stat root rq r)))) (app_router a)\<rparr>"

section \<open>A static file is inside its directory\<close>

text \<open>The components of a path, and the directory they lead to from another one; \<open>None\<close> above it.\<close>

fun split_path :: "string \<Rightarrow> string list" where
  "split_path [] = [[]]"
| "split_path (c # s) = (if c = CHR ''/'' then [] # split_path s else case split_path s of x # xs \<Rightarrow> (c # x) # xs | [] \<Rightarrow> [[c]])"

fun descend :: "nat \<Rightarrow> string list \<Rightarrow> nat option" where
  "descend d [] = Some d"
| "descend d (x # xs) =
     (if x = ''..'' then (if d = 0 then None else descend (d - 1) xs)
      else if x = [] \<or> x = ''.'' then descend d xs
      else descend (d + 1) xs)"

lemma split_path_first: "\<exists>y ys suf. split_path s = y # ys \<and> s = y @ suf"
  by (induction s) auto

lemma split_path_part: "x \<in> set (split_path s) \<Longrightarrow> \<exists>pre suf. s = pre @ x @ suf"
proof (induction s arbitrary: x)
  case (Cons c s)
  show ?case
  proof (cases "c = CHR ''/''")
    case True
    with Cons show ?thesis by (metis append_Cons append_Nil set_ConsD split_path.simps(2))
  next
    case False
    obtain y ys suf where y: "split_path s = y # ys" and first: "s = y @ suf" using split_path_first [of s] by blast
    from Cons.prems y False consider "x = c # y" | "x \<in> set ys" by auto
    then show ?thesis
    proof cases
      case 1
      with first show ?thesis by (intro exI [of _ "[]"] exI [of _ suf]) simp
    next
      case 2
      with Cons.IH [of x] y obtain pre suf where "s = pre @ x @ suf" by auto
      then show ?thesis by (metis append_Cons)
    qed
  qed
qed simp

lemma find_sub_here: "s = pre @ pat @ suf \<Longrightarrow> find_sub pat s \<noteq> None"
  by (induction s arbitrary: pre) (auto simp: Cons_eq_append_conv)

lemma descend_plain: "''..'' \<notin> set xs \<Longrightarrow> descend d xs \<noteq> None"
  by (induction xs arbitrary: d) auto

text \<open>C17: whatever the request, the file a static route sends is the root directory followed by a relative path that
  never climbs: no component of it is \<open>..\<close>, and following it from the root stays at or below the root.\<close>

theorem static_inside_root:
  "file_path (static_handler fmt stat root rq Response) = [] \<or>
   (\<exists>rel. file_path (static_handler fmt stat root rq Response) = root @ ''/'' @ rel
      \<and> hd rel \<noteq> CHR ''/'' \<and> (\<exists>d. descend 0 (split_path rel) = Some d))"
proof -
  define rel where "rel = (let rel = dropWhile (\<lambda>c. c = CHR ''/'') (param rq ''**'') in if rel = [] then ''index.html'' else rel)"
  have h: "hd rel \<noteq> CHR ''/''" using hd_dropWhile [of "\<lambda>c. c = CHR ''/''" "param rq ''**''"] by (auto simp: rel_def Let_def)
  have f: "find_sub ''..'' rel = None \<Longrightarrow> \<exists>d. descend 0 (split_path rel) = Some d"
    using split_path_part [of "''..''" rel] find_sub_here [of rel _ "''..''"] descend_plain [of "split_path rel" 0] by fastforce
  have "static_handler fmt stat root rq Response =
      (if find_sub ''..'' rel \<noteq> None then set_rbody ''Bad Request'' (set_status 400 Response)
       else serve_file fmt stat (root @ ''/'' @ rel) Response)"
    by (simp add: static_handler_def rel_def Let_def)
  then show ?thesis
    using h f by (auto simp: serve_file_def set_rbody_def set_status_def set_header_def sendfile_path_def last_modified_def Response_def
        split: option.splits)
qed

end
