(* ===== verification/Epoll_Reactor_Spec.thy ===== *)
theory Epoll_Reactor_Spec
  imports Epoll_Reactor
begin

text \<open>
  The contract of the reactor: the tables of the timers mirror each other and the kernel, which holds one open descriptor
  for each timer, and a property that every callback keeps is kept by the event loop.
\<close>

section \<open>What an operation leaves alone\<close>

lemma epoll_frame [simp]:
  "open_fds (epoll_add fd ev s) = open_fds s" "open_fds (epoll_mod fd ev s) = open_fds s" "open_fds (epoll_del fd s) = open_fds s"
  "next_timer_id (epoll_add fd ev s) = next_timer_id s" "timers_made (epoll_add fd ev s) = timers_made s" "next_timer_id (epoll_mod fd ev s) = next_timer_id s" "timers_made (epoll_mod fd ev s) = timers_made s"
  "next_timer_id (epoll_del fd s) = next_timer_id s" "timers_made (epoll_del fd s) = timers_made s"
  "timers_by_id (epoll_add fd ev s) = timers_by_id s" "timers_by_id (epoll_mod fd ev s) = timers_by_id s"
  "timers_by_id (epoll_del fd s) = timers_by_id s"
  "timerfd_to_id (epoll_add fd ev s) = timerfd_to_id s" "timerfd_to_id (epoll_mod fd ev s) = timerfd_to_id s"
  "timerfd_to_id (epoll_del fd s) = timerfd_to_id s"
  "fd_callbacks (epoll_add fd ev s) = fd_callbacks s" "fd_callbacks (epoll_mod fd ev s) = fd_callbacks s"
  "fd_callbacks (epoll_del fd s) = fd_callbacks s"
  "event_fd (epoll_add fd ev s) = event_fd s" "event_fd (epoll_mod fd ev s) = event_fd s" "event_fd (epoll_del fd s) = event_fd s"
  "work_queue (epoll_add fd ev s) = work_queue s" "work_queue (epoll_mod fd ev s) = work_queue s"
  "work_queue (epoll_del fd s) = work_queue s"
  "reactor.more (epoll_add fd ev s) = reactor.more s" "reactor.more (epoll_mod fd ev s) = reactor.more s"
  "reactor.more (epoll_del fd s) = reactor.more s"
  by (simp_all add: epoll_add_def epoll_mod_def epoll_del_def)

lemma update_epoll_frame [simp]:
  "open_fds (update_epoll fd b s) = open_fds s" "next_timer_id (update_epoll fd b s) = next_timer_id s" "timers_made (update_epoll fd b s) = timers_made s"
  "timers_by_id (update_epoll fd b s) = timers_by_id s" "timerfd_to_id (update_epoll fd b s) = timerfd_to_id s"
  "fd_callbacks (update_epoll fd b s) = fd_callbacks s" "event_fd (update_epoll fd b s) = event_fd s"
  "work_queue (update_epoll fd b s) = work_queue s" "reactor.more (update_epoll fd b s) = reactor.more s"
  by (simp_all add: update_epoll_def Let_def)

lemma close_frame [simp]:
  "open_fds (sys_close fd s) = AList.delete fd (open_fds s)" "next_timer_id (sys_close fd s) = next_timer_id s" "timers_made (sys_close fd s) = timers_made s"
  "timers_by_id (sys_close fd s) = timers_by_id s" "timerfd_to_id (sys_close fd s) = timerfd_to_id s"
  "fd_callbacks (sys_close fd s) = fd_callbacks s" "event_fd (sys_close fd s) = event_fd s"
  "work_queue (sys_close fd s) = work_queue s" "reactor.more (sys_close fd s) = reactor.more s"
  by (simp_all add: sys_close_def)

lemma open_frame [simp]:
  "open_fds (sys_open fd f s) = (fd, f) # open_fds s" "next_timer_id (sys_open fd f s) = next_timer_id s" "timers_made (sys_open fd f s) = timers_made s"
  "timers_by_id (sys_open fd f s) = timers_by_id s" "timerfd_to_id (sys_open fd f s) = timerfd_to_id s"
  "fd_callbacks (sys_open fd f s) = fd_callbacks s" "event_fd (sys_open fd f s) = event_fd s"
  "work_queue (sys_open fd f s) = work_queue s" "reactor.more (sys_open fd f s) = reactor.more s"
  by (simp_all add: sys_open_def)

lemma register_event_frame [simp]:
  "open_fds (register_event fd ty cb s) = open_fds s" "next_timer_id (register_event fd ty cb s) = next_timer_id s" "timers_made (register_event fd ty cb s) = timers_made s"
  "timers_by_id (register_event fd ty cb s) = timers_by_id s" "timerfd_to_id (register_event fd ty cb s) = timerfd_to_id s"
  "event_fd (register_event fd ty cb s) = event_fd s" "work_queue (register_event fd ty cb s) = work_queue s"
  "reactor.more (register_event fd ty cb s) = reactor.more s"
  by (simp_all add: register_event_def Let_def)

lemma unregister_event_frame [simp]:
  "open_fds (unregister_event fd ty s) = open_fds s" "next_timer_id (unregister_event fd ty s) = next_timer_id s" "timers_made (unregister_event fd ty s) = timers_made s"
  "timers_by_id (unregister_event fd ty s) = timers_by_id s" "timerfd_to_id (unregister_event fd ty s) = timerfd_to_id s"
  "event_fd (unregister_event fd ty s) = event_fd s" "work_queue (unregister_event fd ty s) = work_queue s"
  "reactor.more (unregister_event fd ty s) = reactor.more s"
  by (simp_all add: unregister_event_def Let_def split: option.splits)

lemma unregister_timer_frame [simp]:
  "next_timer_id (unregister_timer t s) = next_timer_id s" "timers_made (unregister_timer t s) = timers_made s" "fd_callbacks (unregister_timer t s) = fd_callbacks s"
  "event_fd (unregister_timer t s) = event_fd s" "work_queue (unregister_timer t s) = work_queue s"
  "reactor.more (unregister_timer t s) = reactor.more s"
  "map_of (timers_by_id (unregister_timer t s)) = (map_of (timers_by_id s))(t := None)"
  by (auto simp: unregister_timer_def delete_conv fun_eq_iff split: option.splits)

section \<open>Well-formed tables\<close>

definition reactor_wf :: "('c, 'z) reactor_scheme \<Rightarrow> bool" where
  "reactor_wf s \<longleftrightarrow>
     (\<forall>tfd t. map_of (timerfd_to_id s) tfd = Some t \<longrightarrow> map_of (open_fds s) tfd = Some TimerFile)
     \<and> (\<forall>t tfd cb. map_of (timers_by_id s) t = Some (tfd, cb) \<longrightarrow> map_of (open_fds s) tfd = Some TimerFile)
     \<and> (\<forall>t t' tfd cb cb'. map_of (timers_by_id s) t = Some (tfd, cb) \<longrightarrow> map_of (timers_by_id s) t' = Some (tfd, cb') \<longrightarrow> t = t')"

text \<open>A new descriptor is not one that is open.\<close>

definition fresh_alloc :: "(nat list \<Rightarrow> nat option) \<Rightarrow> bool" where
  "fresh_alloc alloc \<longleftrightarrow> (\<forall>used fd. alloc used = Some fd \<longrightarrow> fd \<notin> set used)"

lemma fresh_fd:
  assumes "fresh_alloc alloc" "alloc (map fst xs) = Some fd"
  shows "map_of xs fd = None"
proof -
  have "fd \<notin> set (map fst xs)" using assms unfolding fresh_alloc_def by blast
  then show ?thesis by (simp add: map_of_eq_None_iff)
qed

lemma wf_timer: "reactor_wf s \<Longrightarrow> map_of (timers_by_id s) t = Some (tfd, cb) \<Longrightarrow> map_of (open_fds s) tfd = Some TimerFile"
  unfolding reactor_wf_def by blast

lemma wf_timerfd: "reactor_wf s \<Longrightarrow> map_of (timerfd_to_id s) tfd = Some t \<Longrightarrow> map_of (open_fds s) tfd = Some TimerFile"
  unfolding reactor_wf_def by blast

lemma wf_unregister_timer:
  assumes "reactor_wf s"
  shows "reactor_wf (unregister_timer t s)"
proof (cases "map_of (timers_by_id s) t")
  case None
  then show ?thesis using assms by (simp add: unregister_timer_def)
next
  case (Some x)
  obtain tfd cb where x: "x = (tfd, cb)" by (meson surj_pair)
  have other: "map_of (timers_by_id s) t' = Some (tfd, cb') \<Longrightarrow> t' = t" for t' cb'
    using assms Some x unfolding reactor_wf_def by blast
  show ?thesis
    unfolding reactor_wf_def
  proof (intro conjI allI impI)
    show "map_of (open_fds (unregister_timer t s)) f = Some TimerFile" if "map_of (timerfd_to_id (unregister_timer t s)) f = Some u" for f u
      using wf_timerfd [OF assms, of f u] that Some x by (auto simp: unregister_timer_def delete_conv split: if_splits)
    show "map_of (open_fds (unregister_timer t s)) f = Some TimerFile" if "map_of (timers_by_id (unregister_timer t s)) u = Some (f, cb')" for f u cb'
      using wf_timer [OF assms, of u f cb'] that Some x other [of u cb'] by (auto simp: unregister_timer_def delete_conv split: if_splits)
    show "u = u'" if "map_of (timers_by_id (unregister_timer t s)) u = Some (f, c1)" "map_of (timers_by_id (unregister_timer t s)) u' = Some (f, c2)"
      for u u' f c1 c2 using assms that unfolding reactor_wf_def by (auto split: if_splits)
  qed
qed

lemma register_timer_result:
  "alloc (map fst (open_fds s)) = Some tfd \<Longrightarrow> register_timer alloc cb s = (Some t, s') \<Longrightarrow>
     t = next_timer_id s \<and> open_fds s' = (tfd, TimerFile) # open_fds s \<and> next_timer_id s' = int_inc t \<and> timers_made s' = timers_made s + 1
     \<and> map_of (timers_by_id s') = (map_of (timers_by_id s))(t \<mapsto> (tfd, cb))
     \<and> map_of (timerfd_to_id s') = (map_of (timerfd_to_id s))(tfd \<mapsto> t)
     \<and> fd_callbacks s' = fd_callbacks s \<and> event_fd s' = event_fd s \<and> work_queue s' = work_queue s
     \<and> reactor.more s' = reactor.more s"
  by (auto simp: register_timer_def Let_def update_conv)

lemma register_timer_None: "register_timer alloc cb s = (None, s') \<Longrightarrow> s' = s"
  by (auto simp: register_timer_def Let_def split: option.splits)

lemma register_timer_Some:
  assumes "register_timer alloc cb s = (Some t, s')"
  obtains tfd where "alloc (map fst (open_fds s)) = Some tfd"
  using assms by (auto simp: register_timer_def split: option.splits)

lemma wf_fresh:
  assumes "reactor_wf s" "map_of (open_fds s) tfd = None"
  shows "map_of (timerfd_to_id s) tfd = None" "map_of (timers_by_id s) t \<noteq> Some (tfd, cb)"
proof -
  show no: "map_of (timers_by_id s) t \<noteq> Some (tfd, cb)" for t cb using assms wf_timer [of s t tfd cb] by auto
  show "map_of (timerfd_to_id s) tfd = None" using assms wf_timerfd [of s tfd] by (cases "map_of (timerfd_to_id s) tfd") auto
qed

lemma wf_register_timer:
  assumes wf: "reactor_wf s" and "fresh_alloc alloc" and reg: "register_timer alloc cb s = (t, s')"
  shows "reactor_wf s'"
proof (cases t)
  case None
  show ?thesis using wf register_timer_None [OF reg [unfolded None]] by simp
next
  case (Some t1)
  obtain tfd where al: "alloc (map fst (open_fds s)) = Some tfd" by (rule register_timer_Some [OF reg [unfolded Some]])
  have new: "map_of (open_fds s) tfd = None" by (rule fresh_fd [OF assms(2) al])
  note r = register_timer_result [OF al reg [unfolded Some]]
  show ?thesis
    unfolding reactor_wf_def
  proof (intro conjI allI impI)
    show "map_of (open_fds s') f = Some TimerFile" if "map_of (timerfd_to_id s') f = Some u" for f u
      using that r wf_timerfd [OF wf, of f u] by (auto split: if_splits)
    show "map_of (open_fds s') f = Some TimerFile" if "map_of (timers_by_id s') u = Some (f, cb')" for f u cb'
      using that r wf_timer [OF wf, of u f cb'] by (auto split: if_splits)
    show "u = u'" if "map_of (timers_by_id s') u = Some (f, c1)" "map_of (timers_by_id s') u' = Some (f, c2)" for u u' f c1 c2
      using that r wf_fresh(2) [OF wf new] wf unfolding reactor_wf_def by (auto split: if_splits)
  qed
qed

lemma wf_openI:
  assumes "reactor_wf s" "timers_by_id s' = timers_by_id s" "timerfd_to_id s' = timerfd_to_id s" "next_timer_id s' = next_timer_id s"
    and "\<And>tfd. map_of (open_fds s) tfd = Some TimerFile \<Longrightarrow> map_of (open_fds s') tfd = Some TimerFile"
  shows "reactor_wf s'"
  using assms(1) unfolding reactor_wf_def assms(2-4) by (meson assms(5))

lemma wf_sys_close: "reactor_wf s \<Longrightarrow> map_of (open_fds s) fd \<noteq> Some TimerFile \<Longrightarrow> reactor_wf (sys_close fd s)"
  by (rule wf_openI [of s]) (auto simp: delete_conv)

lemma wf_sys_open: "reactor_wf s \<Longrightarrow> map_of (open_fds s) fd = None \<Longrightarrow> reactor_wf (sys_open fd f s)"
  by (rule wf_openI [of s]) auto

lemma wf_events [simp]:
  "reactor_wf (register_event fd ty cb s) = reactor_wf s" "reactor_wf (unregister_event fd ty s) = reactor_wf s"
  "reactor_wf (update_epoll fd b s) = reactor_wf s"
  by (simp_all add: reactor_wf_def)

section \<open>Properties the loop keeps\<close>

text \<open>A property of the state that survives every callback, the removal of a timer that is due together with running it, and
  the bookkeeping of the loop holds after any events.\<close>

locale loop_client =
  fixes run :: "'c \<Rightarrow> 'i \<Rightarrow> ('c, 'z) reactor_scheme \<Rightarrow> ('c, 'z) reactor_scheme"
    and ok :: "('c, 'z) reactor_scheme \<Rightarrow> bool"
  assumes run_io: "ok s \<Longrightarrow> map_of (fd_callbacks s) fd = Some cbs \<Longrightarrow> read_cb cbs = Some cb \<Longrightarrow> ok (run cb i s)"
    and no_write: "ok s \<Longrightarrow> map_of (fd_callbacks s) fd = Some cbs \<Longrightarrow> write_cb cbs = None"
    and run_timer: "ok s \<Longrightarrow> map_of (timers_by_id s) t = Some (tfd, cb) \<Longrightarrow> ok (run cb i (unregister_timer t s))"
    and no_work: "ok s \<Longrightarrow> work_queue s = []"
    and rearm: "ok s \<Longrightarrow> ok (update_epoll fd False s)"
begin

lemma poll_event_ok:
  assumes "ok s"
  shows "ok (poll_event run e s)"
proof -
  obtain fd inp outp i where e: "e = (fd, inp, outp, i)" by (metis surj_pair)
  have w: "s\<lparr>work_queue := []\<rparr> = s" using no_work [OF assms] by (cases s) simp
  have w': "ok (s\<lparr>work_queue := []\<rparr>)" unfolding w by (rule assms)
  show ?thesis
    using assms no_work [OF assms] no_write [OF assms] w'
    by (auto simp: poll_event_def e Let_def split: option.splits intro: run_io run_timer rearm)
qed

lemma poll_ok: "ok s \<Longrightarrow> ok (poll run events s)"
  unfolding poll_def by (induction events arbitrary: s) (simp_all add: poll_event_ok)

end

end
