(* ===== verification/App_Timers.thy ===== *)
theory App_Timers
  imports Application Epoll_Reactor_Spec
begin

text \<open>
  The timers of the connections: in every state the event loop reaches, a connection has at most one idle timer and one
  read timer, and the identifiers kept in its context are those of the timers registered for it.
\<close>

section \<open>What the operations leave alone\<close>

lemma world_epoll [simp]:
  "ctxs (epoll_add fd ev w) = ctxs w" "ctxs (epoll_mod fd ev w) = ctxs w" "ctxs (epoll_del fd w) = ctxs w"
  "out_log (epoll_add fd ev w) = out_log w" "out_log (epoll_mod fd ev w) = out_log w" "out_log (epoll_del fd w) = out_log w"
  "cnt_requests (epoll_add fd ev w) = cnt_requests w" "cnt_requests (epoll_mod fd ev w) = cnt_requests w"
  "cnt_requests (epoll_del fd w) = cnt_requests w"
  "draining (epoll_add fd ev w) = draining w" "draining (epoll_mod fd ev w) = draining w" "draining (epoll_del fd w) = draining w"
  by (simp_all add: epoll_add_def epoll_mod_def epoll_del_def)

lemma world_ops [simp]:
  "ctxs (update_epoll fd b w) = ctxs w" "ctxs (sys_close fd w) = ctxs w" "ctxs (sys_open fd f w) = ctxs w"
  "ctxs (register_event fd ty cb w) = ctxs w" "ctxs (unregister_event fd ty w) = ctxs w" "ctxs (unregister_timer t w) = ctxs w"
  "out_log (update_epoll fd b w) = out_log w" "out_log (sys_close fd w) = out_log w" "out_log (sys_open fd f w) = out_log w"
  "out_log (register_event fd ty cb w) = out_log w" "out_log (unregister_event fd ty w) = out_log w"
  "out_log (unregister_timer t w) = out_log w"
  "cnt_requests (update_epoll fd b w) = cnt_requests w" "cnt_requests (sys_close fd w) = cnt_requests w"
  "cnt_requests (sys_open fd f w) = cnt_requests w"
  "cnt_requests (register_event fd ty cb w) = cnt_requests w" "cnt_requests (unregister_event fd ty w) = cnt_requests w"
  "cnt_requests (unregister_timer t w) = cnt_requests w"
  by (auto simp: update_epoll_def sys_close_def sys_open_def register_event_def unregister_event_def unregister_timer_def Let_def
      split: option.splits)

lemma world_register_timer:
  "register_timer alloc cb w = (t, w') \<Longrightarrow> ctxs w' = ctxs w \<and> out_log w' = out_log w \<and> cnt_requests w' = cnt_requests w"
  by (auto simp: register_timer_def Let_def split: option.splits)

lemma upd_ctx_frame [simp]:
  "length (ctxs (upd_ctx c f w)) = length (ctxs w)" "open_fds (upd_ctx c f w) = open_fds w"
  "timers_by_id (upd_ctx c f w) = timers_by_id w" "timerfd_to_id (upd_ctx c f w) = timerfd_to_id w"
  "fd_callbacks (upd_ctx c f w) = fd_callbacks w" "next_timer_id (upd_ctx c f w) = next_timer_id w" "timers_made (upd_ctx c f w) = timers_made w"
  "event_fd (upd_ctx c f w) = event_fd w" "work_queue (upd_ctx c f w) = work_queue w"
  "out_log (upd_ctx c f w) = out_log w" "cnt_requests (upd_ctx c f w) = cnt_requests w"
  by (simp_all add: upd_ctx_def)

lemma upd_ctx_nth: "c < length (ctxs w) \<Longrightarrow> ctxs (upd_ctx c f w) ! d = (if d = c then f (ctxs w ! c) else ctxs w ! d)"
  by (simp add: upd_ctx_def)

lemma give_frame [simp]:
  "ctxs (give fd x w) = ctxs w" "open_fds (give fd x w) = open_fds w" "timers_by_id (give fd x w) = timers_by_id w"
  "timerfd_to_id (give fd x w) = timerfd_to_id w" "fd_callbacks (give fd x w) = fd_callbacks w"
  "next_timer_id (give fd x w) = next_timer_id w" "timers_made (give fd x w) = timers_made w" "event_fd (give fd x w) = event_fd w" "work_queue (give fd x w) = work_queue w"
  "cnt_requests (give fd x w) = cnt_requests w"
  by (simp_all add: give_def split: option.splits fd_kind.splits)

lemma hand_over_frame [simp]:
  "ctxs (hand_over fd w) = ctxs w" "timers_by_id (hand_over fd w) = timers_by_id w" "fd_callbacks (hand_over fd w) = fd_callbacks w"
  "next_timer_id (hand_over fd w) = next_timer_id w" "timers_made (hand_over fd w) = timers_made w" "work_queue (hand_over fd w) = work_queue w"
  by (simp_all add: hand_over_def split: option.splits fd_kind.splits)

lemma close_fd_frame [simp]:
  "ctxs (close_fd fd w) = ctxs w" "timers_by_id (close_fd fd w) = timers_by_id w" "timerfd_to_id (close_fd fd w) = timerfd_to_id w"
  "fd_callbacks (close_fd fd w) = fd_callbacks w" "next_timer_id (close_fd fd w) = next_timer_id w" "timers_made (close_fd fd w) = timers_made w"
  "work_queue (close_fd fd w) = work_queue w" "event_fd (close_fd fd w) = event_fd w"
  by (simp_all add: close_fd_def split: option.splits fd_kind.splits)

section \<open>The invariant\<close>

fun timer_of :: "world \<Rightarrow> int \<Rightarrow> callback \<Rightarrow> bool" where
  "timer_of w t (OnIdle fd c) \<longleftrightarrow> c < length (ctxs w) \<and> idle_timer_id (ctxs w ! c) = t"
| "timer_of w t (OnReadTimeout fd c) \<longleftrightarrow> c < length (ctxs w) \<and> read_timer_id (ctxs w ! c) = t"
| "timer_of w t OnAccept \<longleftrightarrow> False"
| "timer_of w t OnAcceptUnix \<longleftrightarrow> False"
| "timer_of w t (OnRead fd c) \<longleftrightarrow> False"
| "timer_of w t (OnReadUnix fd c) \<longleftrightarrow> False"

definition timers_tracked :: "world \<Rightarrow> bool" where
  "timers_tracked w \<longleftrightarrow>
     (\<forall>t tfd cb. map_of (timers_by_id w) t = Some (tfd, cb) \<longrightarrow> timer_of w t cb)
     \<and> (\<forall>c < length (ctxs w).
          (idle_timer_id (ctxs w ! c) = - 1 \<or> (\<exists>tfd fd. map_of (timers_by_id w) (idle_timer_id (ctxs w ! c)) = Some (tfd, OnIdle fd c)))
          \<and> (read_timer_id (ctxs w ! c) = - 1 \<or> (\<exists>tfd fd. map_of (timers_by_id w) (read_timer_id (ctxs w ! c)) = Some (tfd, OnReadTimeout fd c))))"

text \<open>The identifiers are positive and below the next one, as long as the counter, an \<open>int\<close>, has not been exhausted.\<close>

definition ids_ok :: "world \<Rightarrow> bool" where
  "ids_ok w \<longleftrightarrow>
     next_timer_id w = 1 + int (timers_made w)
     \<and> (\<forall>t tfd cb. map_of (timers_by_id w) t = Some (tfd, cb) \<longrightarrow> 0 < t \<and> t < next_timer_id w)"

definition few :: "world \<Rightarrow> bool" where
  "few w \<longleftrightarrow> timers_made w < 2 ^ 31 - 1"

definition known :: "world \<Rightarrow> bool" where
  "known w \<longleftrightarrow>
     (\<forall>t tfd cb. map_of (timers_by_id w) t = Some (tfd, cb) \<longrightarrow>
        (\<exists>fd c. c < length (ctxs w) \<and> (cb = OnIdle fd c \<or> cb = OnReadTimeout fd c)))"

definition reads_ok :: "world \<Rightarrow> bool" where
  "reads_ok w \<longleftrightarrow>
     (\<forall>fd cbs. map_of (fd_callbacks w) fd = Some cbs \<longrightarrow> write_cb cbs = None
        \<and> (read_cb cbs = Some OnAccept \<or> read_cb cbs = Some OnAcceptUnix
           \<or> (\<exists>c < length (ctxs w). read_cb cbs = Some (OnRead fd c) \<or> read_cb cbs = Some (OnReadUnix fd c))))"

definition app_inv :: "world \<Rightarrow> bool" where
  "app_inv w \<longleftrightarrow> known w \<and> reads_ok w \<and> work_queue w = [] \<and> (few w \<longrightarrow> timers_tracked w \<and> ids_ok w)"

lemma app_invI:
  assumes "app_inv w" "timers_by_id w' = timers_by_id w" "next_timer_id w' = next_timer_id w \<and> timers_made w' = timers_made w"
    "work_queue w' = work_queue w"
    and "length (ctxs w') = length (ctxs w)"
    and "\<And>c. c < length (ctxs w) \<Longrightarrow> idle_timer_id (ctxs w' ! c) = idle_timer_id (ctxs w ! c) \<and> read_timer_id (ctxs w' ! c) = read_timer_id (ctxs w ! c)"
    and "\<And>fd cbs. map_of (fd_callbacks w') fd = Some cbs \<Longrightarrow> map_of (fd_callbacks w) fd = Some cbs"
  shows "app_inv w'"
proof -
  have "timer_of w' t cb = timer_of w t cb" for t cb
    using assms(5,6) by (cases cb) auto
  then have "timers_tracked w' = timers_tracked w"
    unfolding timers_tracked_def assms(2,5) using assms(6) by simp
  moreover have "ids_ok w' = ids_ok w" "few w' = few w" "known w' = known w"
    using assms(3) by (simp_all add: ids_ok_def few_def known_def assms(2,5))
  moreover have "reads_ok w'" using assms(1) assms(7) unfolding app_inv_def reads_ok_def assms(5) by blast
  ultimately show ?thesis using assms(1,4) by (simp add: app_inv_def)
qed

lemma inv_timer:
  assumes "app_inv w" "few w" "map_of (timers_by_id w) t = Some (tfd, cb)"
  shows "timer_of w t cb" "0 < t" "t < next_timer_id w"
  using assms unfolding app_inv_def timers_tracked_def ids_ok_def by blast+

lemma inv_ctx:
  assumes "app_inv w" "few w" "c < length (ctxs w)"
  shows "idle_timer_id (ctxs w ! c) = - 1 \<or> (\<exists>tfd fd. map_of (timers_by_id w) (idle_timer_id (ctxs w ! c)) = Some (tfd, OnIdle fd c))"
    "read_timer_id (ctxs w ! c) = - 1 \<or> (\<exists>tfd fd. map_of (timers_by_id w) (read_timer_id (ctxs w ! c)) = Some (tfd, OnReadTimeout fd c))"
  using assms unfolding app_inv_def timers_tracked_def by blast+

lemma inv_known:
  assumes "app_inv w" "map_of (timers_by_id w) t = Some (tfd, cb)"
  obtains fd c where "c < length (ctxs w)" "cb = OnIdle fd c \<or> cb = OnReadTimeout fd c"
  using assms unfolding app_inv_def known_def by blast

lemma app_inv_step:
  assumes inv: "app_inv w" and "work_queue w' = []" "fd_callbacks w' = fd_callbacks w" "length (ctxs w') = length (ctxs w)" "known w'"
    and "few w' \<Longrightarrow> ids_ok w'"
    and "\<And>t tfd cb. few w' \<Longrightarrow> map_of (timers_by_id w') t = Some (tfd, cb) \<Longrightarrow> timer_of w' t cb"
    and "\<And>d. few w' \<Longrightarrow> d < length (ctxs w) \<Longrightarrow> idle_timer_id (ctxs w' ! d) \<noteq> - 1 \<Longrightarrow>
      \<exists>tfd fd. map_of (timers_by_id w') (idle_timer_id (ctxs w' ! d)) = Some (tfd, OnIdle fd d)"
    and "\<And>d. few w' \<Longrightarrow> d < length (ctxs w) \<Longrightarrow> read_timer_id (ctxs w' ! d) \<noteq> - 1 \<Longrightarrow>
      \<exists>tfd fd. map_of (timers_by_id w') (read_timer_id (ctxs w' ! d)) = Some (tfd, OnReadTimeout fd d)"
  shows "app_inv w'"
proof -
  have "timers_tracked w'" if "few w'" unfolding timers_tracked_def assms(4) using assms(7-9) [OF that] by blast
  moreover have "reads_ok w'" using inv unfolding app_inv_def reads_ok_def assms(3,4) by blast
  ultimately show ?thesis using assms(2,5,6) by (simp add: app_inv_def)
qed

lemma known_gone: "app_inv w \<Longrightarrow> known (upd_ctx c f (unregister_timer t w))"
  by (auto simp: app_inv_def known_def)

lemma few_frame [simp]: "few (upd_ctx c f w) = few w" "few (unregister_timer t w) = few w"
  by (simp_all add: few_def)

lemma ids_gone: "app_inv w \<Longrightarrow> few w \<Longrightarrow> ids_ok (upd_ctx c f (unregister_timer t w))"
  by (auto simp: app_inv_def ids_ok_def)

lemma idle_gone:
  assumes inv: "app_inv w" and c: "c < length (ctxs w)" "few w \<longrightarrow> idle_timer_id (ctxs w ! c) = t \<and> t \<noteq> - 1"
  shows "app_inv (upd_ctx c (\<lambda>x. x\<lparr>idle_timer_id := - 1\<rparr>) (unregister_timer t w))"
proof -
  let ?w = "upd_ctx c (\<lambda>x. x\<lparr>idle_timer_id := - 1\<rparr>) (unregister_timer t w)"
  have t: "\<exists>tfd fd. map_of (timers_by_id w) t = Some (tfd, OnIdle fd c)" if "few w" using inv_ctx(1) [OF inv that c(1)] c(2) that by auto
  show ?thesis
  proof (rule app_inv_step [OF inv])
    show "known ?w" "work_queue ?w = []" using inv by (simp_all add: known_gone app_inv_def)
    assume "few ?w"
    then have few: "few w" by simp
    show "ids_ok ?w" by (rule ids_gone [OF inv few])
    show "timer_of ?w t' cb" if "map_of (timers_by_id ?w) t' = Some (f, cb)" for t' f cb
      using that inv_timer(1) [OF inv few, of t' f cb] c few by (cases cb) (auto simp: upd_ctx_nth split: if_splits)
    fix d
    assume d: "d < length (ctxs w)"
    show "\<exists>tfd fd. map_of (timers_by_id ?w) (idle_timer_id (ctxs ?w ! d)) = Some (tfd, OnIdle fd d)" if "idle_timer_id (ctxs ?w ! d) \<noteq> - 1"
      using that inv_ctx(1) [OF inv few d] t [OF few] c by (auto simp: upd_ctx_nth split: if_splits)
    show "\<exists>tfd fd. map_of (timers_by_id ?w) (read_timer_id (ctxs ?w ! d)) = Some (tfd, OnReadTimeout fd d)" if "read_timer_id (ctxs ?w ! d) \<noteq> - 1"
      using that inv_ctx(2) [OF inv few d] t [OF few] c by (auto simp: upd_ctx_nth split: if_splits)
  qed simp_all
qed

lemma read_gone:
  assumes inv: "app_inv w" and c: "c < length (ctxs w)" "few w \<longrightarrow> read_timer_id (ctxs w ! c) = t \<and> t \<noteq> - 1"
  shows "app_inv (upd_ctx c (\<lambda>x. x\<lparr>read_timer_id := - 1\<rparr>) (unregister_timer t w))"
proof -
  let ?w = "upd_ctx c (\<lambda>x. x\<lparr>read_timer_id := - 1\<rparr>) (unregister_timer t w)"
  have t: "\<exists>tfd fd. map_of (timers_by_id w) t = Some (tfd, OnReadTimeout fd c)" if "few w" using inv_ctx(2) [OF inv that c(1)] c(2) that by auto
  show ?thesis
  proof (rule app_inv_step [OF inv])
    show "known ?w" "work_queue ?w = []" using inv by (simp_all add: known_gone app_inv_def)
    assume "few ?w"
    then have few: "few w" by simp
    show "ids_ok ?w" by (rule ids_gone [OF inv few])
    show "timer_of ?w t' cb" if "map_of (timers_by_id ?w) t' = Some (f, cb)" for t' f cb
      using that inv_timer(1) [OF inv few, of t' f cb] c few by (cases cb) (auto simp: upd_ctx_nth split: if_splits)
    fix d
    assume d: "d < length (ctxs w)"
    show "\<exists>tfd fd. map_of (timers_by_id ?w) (idle_timer_id (ctxs ?w ! d)) = Some (tfd, OnIdle fd d)" if "idle_timer_id (ctxs ?w ! d) \<noteq> - 1"
      using that inv_ctx(1) [OF inv few d] t [OF few] c by (auto simp: upd_ctx_nth split: if_splits)
    show "\<exists>tfd fd. map_of (timers_by_id ?w) (read_timer_id (ctxs ?w ! d)) = Some (tfd, OnReadTimeout fd d)" if "read_timer_id (ctxs ?w ! d) \<noteq> - 1"
      using that inv_ctx(2) [OF inv few d] t [OF few] c by (auto simp: upd_ctx_nth split: if_splits)
  qed simp_all
qed

text \<open>A timer newly registered for a context that had none of its kind.\<close>

lemma timer_new:
  assumes inv: "app_inv w" and c: "c < length (ctxs w)" and reg: "register_timer alloc cb w = (Some t, w1)"
    and f: "cb = OnIdle fd c \<and> idle_timer_id (ctxs w ! c) = - 1 \<and> f = (\<lambda>x. x\<lparr>idle_timer_id := t\<rparr>)
      \<or> cb = OnReadTimeout fd c \<and> read_timer_id (ctxs w ! c) = - 1 \<and> f = (\<lambda>x. x\<lparr>read_timer_id := t\<rparr>)"
  shows "app_inv (upd_ctx c f w1)"
proof -
  let ?w = "upd_ctx c f w1"
  obtain tfd where al: "alloc (map fst (open_fds w)) = Some tfd" by (rule register_timer_Some [OF reg])
  note r = register_timer_result [OF al reg] and cx = world_register_timer [OF reg]
  have m: "timers_made ?w = timers_made w + 1" using r by simp
  have new: "map_of (timers_by_id w) t = None" if "few w"
    using r inv_timer(3) [OF inv that, of t] by (cases "map_of (timers_by_id w) t") auto
  have old: "map_of (timers_by_id w) t' = Some x \<Longrightarrow> few w \<Longrightarrow> t' \<noteq> t" for t' x using new by auto
  show ?thesis
  proof (rule app_inv_step [OF inv])
    show "known ?w" using inv r f c cx by (auto simp: app_inv_def known_def split: if_splits)
    show "work_queue ?w = []" "fd_callbacks ?w = fd_callbacks w" using inv r by (auto simp: app_inv_def)
    assume fw: "few ?w"
    then have few: "few w" using m by (simp add: few_def)
    have ids: "ids_ok w" using inv few by (simp add: app_inv_def)
    have "int_inc t = t + 1" using r ids m fw by (auto simp: int_inc_def ids_ok_def few_def)
    then show "ids_ok ?w" using ids r inv_timer(2,3) [OF inv few] by (fastforce simp: ids_ok_def split: if_splits)
    show "timer_of ?w t' cb'" if "map_of (timers_by_id ?w) t' = Some (g, cb')" for t' g cb'
      using that r f c cx inv_timer(1,2) [OF inv few, of t' g cb'] ids by (cases cb') (auto simp: upd_ctx_nth split: if_splits)
    fix d
    assume d: "d < length (ctxs w)"
    show "\<exists>tfd fd. map_of (timers_by_id ?w) (idle_timer_id (ctxs ?w ! d)) = Some (tfd, OnIdle fd d)" if "idle_timer_id (ctxs ?w ! d) \<noteq> - 1"
      using that inv_ctx(1) [OF inv few d] r f c cx by (auto simp: upd_ctx_nth split: if_splits dest: old [OF _ few])
    show "\<exists>tfd fd. map_of (timers_by_id ?w) (read_timer_id (ctxs ?w ! d)) = Some (tfd, OnReadTimeout fd d)" if "read_timer_id (ctxs ?w ! d) \<noteq> - 1"
      using that inv_ctx(2) [OF inv few d] r f c cx by (auto simp: upd_ctx_nth split: if_splits dest: old [OF _ few])
  qed (use cx in simp)
qed

section \<open>The callbacks keep it\<close>

definition live :: "nat \<Rightarrow> world \<Rightarrow> bool" where
  "live c w \<longleftrightarrow> app_inv w \<and> c < length (ctxs w)"

lemma live_same:
  assumes "live c w" "timers_by_id w' = timers_by_id w" "next_timer_id w' = next_timer_id w \<and> timers_made w' = timers_made w" "work_queue w' = work_queue w"
    and "ctxs w' = ctxs w" and "\<And>fd cbs. map_of (fd_callbacks w') fd = Some cbs \<Longrightarrow> map_of (fd_callbacks w) fd = Some cbs"
  shows "live c w'"
  using assms(1) app_invI [OF _ assms(2-4), OF _ _ _ assms(6)] unfolding live_def assms(5) by simp

lemma live_upd:
  assumes "live c w" and "\<And>x. idle_timer_id (f x) = idle_timer_id x \<and> read_timer_id (f x) = read_timer_id x"
  shows "live c (upd_ctx c f w)"
proof -
  have "c < length (ctxs w)" using assms(1) by (simp add: live_def)
  then show ?thesis using assms(1) unfolding live_def by (auto intro!: app_invI [of w] simp: upd_ctx_nth assms(2))
qed

lemma unregistered: "reads_ok w \<Longrightarrow> map_of (fd_callbacks (unregister_event fd Read w)) = (map_of (fd_callbacks w))(fd := None)"
  by (auto simp: unregister_event_def reads_ok_def delete_conv Let_def fun_eq_iff split: option.splits)

lemma live_unregister_event: "live c w \<Longrightarrow> live c (unregister_event fd Read w)"
  by (rule live_same) (auto simp: live_def app_inv_def unregistered split: if_splits)

lemma live_simple:
  "live c w \<Longrightarrow> live c (give fd x w)" "live c w \<Longrightarrow> live c (hand_over fd w)" "live c w \<Longrightarrow> live c (close_fd fd w)"
  "live c w \<Longrightarrow> live c (w\<lparr>cnt_requests := n\<rparr>)" "live c w \<Longrightarrow> live c (w\<lparr>cnt_bytes_sent := n, cnt_errors := m\<rparr>)"
  by (rule live_same; simp)+

lemma live_close_conn: "live c w \<Longrightarrow> live c (close_conn fd w)"
  by (simp add: close_conn_def live_simple live_unregister_event)

lemma live_disarm_idle: "live c w \<Longrightarrow> live c (disarm_idle c w)"
  using idle_gone [of w c] by (auto simp: live_def disarm_idle_def Let_def)

lemma live_cancel_read_timeout: "live c w \<Longrightarrow> live c (cancel_read_timeout c w)"
  using read_gone [of w c] by (auto simp: live_def cancel_read_timeout_def Let_def)

lemma disarmed: "c < length (ctxs w) \<Longrightarrow> idle_timer_id (ctxs (disarm_idle c w) ! c) = - 1"
  by (simp add: disarm_idle_def Let_def upd_ctx_nth)

lemma live_register:
  assumes "live c w" "register_timer (fd_alloc a) cb w = (t, w1)"
    and f: "\<And>t. cb = OnIdle fd c \<and> idle_timer_id (ctxs w ! c) = - 1 \<and> f t = (\<lambda>x. x\<lparr>idle_timer_id := t\<rparr>)
      \<or> cb = OnReadTimeout fd c \<and> read_timer_id (ctxs w ! c) = - 1 \<and> f t = (\<lambda>x. x\<lparr>read_timer_id := t\<rparr>)"
  shows "live c (case t of Some t \<Rightarrow> upd_ctx c (f t) w1 | None \<Rightarrow> w1)"
proof (cases t)
  case None
  then show ?thesis using assms register_timer_None [of "fd_alloc a" cb w w1] by simp
next
  case (Some t1)
  have "app_inv (upd_ctx c (f t1) w1)"
    by (rule timer_new [of w c "fd_alloc a" cb t1 w1 fd]) (use assms Some in \<open>auto simp: live_def\<close>)
  then show ?thesis using Some assms world_register_timer [of "fd_alloc a" cb w t w1] by (simp add: live_def)
qed

lemma live_arm_idle:
  assumes "live c w"
  shows "live c (arm_idle a fd c w)"
proof -
  obtain t w1 where r: "register_timer (fd_alloc a) (OnIdle fd c) (disarm_idle c w) = (t, w1)" by (meson surj_pair)
  have c: "c < length (ctxs w)" using assms by (simp add: live_def)
  have "live c (case t of Some t \<Rightarrow> upd_ctx c (\<lambda>x. x\<lparr>idle_timer_id := t\<rparr>) w1 | None \<Rightarrow> w1)"
    by (rule live_register [OF live_disarm_idle [OF assms] r]) (simp add: disarmed [OF c])
  then show ?thesis using r by (simp add: arm_idle_def split: option.splits)
qed

lemma live_arm_read_timeout:
  assumes "live c w"
  shows "live c (arm_read_timeout a fd c w)"
proof -
  obtain t w1 where r: "register_timer (fd_alloc a) (OnReadTimeout fd c) w = (t, w1)" by (meson surj_pair)
  have "live c (case t of Some t \<Rightarrow> upd_ctx c (\<lambda>x. x\<lparr>read_timer_id := t\<rparr>) w1 | None \<Rightarrow> w1)" if "read_timer_id (ctxs w ! c) = - 1"
    by (rule live_register [OF assms r]) (simp add: that)
  then show ?thesis using r assms by (simp add: arm_read_timeout_def split: option.splits)
qed

lemma live_gives: "live c w \<Longrightarrow> live c (fold (give fd) xs w)"
  by (induction xs arbitrary: w) (simp_all add: live_simple)

lemma live_finalize: "live c w \<Longrightarrow> live c (finalize a fd c ka rq r w)"
  by (simp add: finalize_def Let_def live_simple live_gives)

lemma live_end_request: "live c w \<Longrightarrow> live c (end_request a fd c ka w)"
  by (simp add: end_request_def live_arm_idle live_close_conn)

lemma live_dispatch: "live c w \<Longrightarrow> live c (dispatch a fd c ka rq w)"
  by (auto simp: dispatch_def Let_def live_finalize live_end_request live_close_conn live_simple
      split: prod.splits option.splits bool.splits app_handler.splits)

lemmas live_ops = live_simple live_close_conn live_disarm_idle live_cancel_read_timeout live_arm_idle live_arm_read_timeout
  live_unregister_event live_dispatch live_upd

lemma live_serve: "live c w \<Longrightarrow> live c (serve a fd c n rq w)"
  by (simp add: serve_def Let_def live_ops)

lemma live_on_complete: "live c w \<Longrightarrow> live c (on_complete a fd c n rq w)"
  by (simp add: on_complete_def Let_def live_ops live_serve)

lemma live_on_expect: "live c w \<Longrightarrow> live c (on_expect fd c rq w)"
  by (simp add: on_expect_def live_ops)

lemma live_on_data: "live c w \<Longrightarrow> live c (on_data a fd c tmp w)"
  by (auto simp: on_data_def Let_def live_ops live_on_complete live_on_expect split: prod.splits option.splits)

lemma live_on_read: "live c w \<Longrightarrow> live c (on_read a fd c tmp w)"
  by (simp add: on_read_def Let_def live_ops live_on_data)

lemma live_unix_finish: "live c w \<Longrightarrow> live c (unix_finish a fd c ka r w)"
  by (simp add: unix_finish_def Let_def live_simple live_end_request)

lemma live_unix_complete: "live c w \<Longrightarrow> live c (unix_complete a fd c rq w)"
  by (auto simp: unix_complete_def Let_def live_ops live_unix_finish split: prod.splits bool.splits)

lemma live_on_read_unix: "live c w \<Longrightarrow> live c (on_read_unix a fd c tmp w)"
  by (auto simp: on_read_unix_def Let_def live_ops live_unix_complete split: prod.splits option.splits)

lemma inv_new_ctx:
  assumes inv: "app_inv w"
  shows "app_inv (w\<lparr>ctxs := ctxs w @ [new_ctx ip]\<rparr>)"
proof -
  let ?w = "w\<lparr>ctxs := ctxs w @ [new_ctx ip]\<rparr>"
  have "timers_tracked ?w" if few: "few w"
  proof -
    have "timer_of ?w t cb" if "map_of (timers_by_id w) t = Some (tfd, cb)" for t tfd cb
      using inv_timer(1) [OF inv few that] by (cases cb) (auto simp: nth_append)
    moreover have "idle_timer_id (ctxs ?w ! d) = - 1 \<or> (\<exists>tfd fd. map_of (timers_by_id w) (idle_timer_id (ctxs ?w ! d)) = Some (tfd, OnIdle fd d))"
      "read_timer_id (ctxs ?w ! d) = - 1 \<or> (\<exists>tfd fd. map_of (timers_by_id w) (read_timer_id (ctxs ?w ! d)) = Some (tfd, OnReadTimeout fd d))"
      if "d < Suc (length (ctxs w))" for d
      using that inv_ctx [OF inv few, of d] by (cases "d = length (ctxs w)"; simp add: nth_append new_ctx_def)+
    ultimately show ?thesis unfolding timers_tracked_def by simp
  qed
  moreover have "known ?w" using inv unfolding app_inv_def known_def by (fastforce simp: less_Suc_eq)
  moreover have "work_queue ?w = []" using inv by (simp add: app_inv_def)
  moreover have "reads_ok ?w" using inv unfolding app_inv_def reads_ok_def by (fastforce simp: less_Suc_eq)
  moreover have "ids_ok ?w = ids_ok w" "few ?w = few w" by (simp_all add: ids_ok_def few_def)
  ultimately show ?thesis using inv by (simp add: app_inv_def)
qed

lemma inv_register_read:
  assumes inv: "app_inv w"
    and c: "cb = OnAccept \<or> cb = OnAcceptUnix \<or> (\<exists>c < length (ctxs w). cb = OnRead fd c \<or> cb = OnReadUnix fd c)"
  shows "app_inv (register_event fd Read cb w)"
proof -
  let ?w = "register_event fd Read cb w"
  have "fd_callbacks ?w = AList.update fd
      ((case map_of (fd_callbacks w) fd of Some cbs \<Rightarrow> cbs | None \<Rightarrow> no_callbacks)\<lparr>read_cb := Some cb\<rparr>) (fd_callbacks w)"
    by (simp add: register_event_def Let_def)
  then have "reads_ok ?w"
    using inv c by (auto simp: app_inv_def reads_ok_def update_conv no_callbacks_def split: option.splits if_splits)
  moreover have "timer_of ?w t cb' = timer_of w t cb'" for t cb' by (cases cb') simp_all
  then have "timers_tracked ?w = timers_tracked w" by (simp add: timers_tracked_def)
  moreover have "ids_ok ?w = ids_ok w" "few ?w = few w" "known ?w = known w" by (simp_all add: ids_ok_def few_def known_def)
  ultimately show ?thesis using inv by (simp add: app_inv_def)
qed

lemma inv_opened: "app_inv w \<Longrightarrow> app_inv ((sys_open fd f w)\<lparr>sockets := n\<rparr>)"
  by (erule app_invI) simp_all

lemma inv_new_conn:
  assumes inv: "app_inv w" and cb: "cb = OnRead fd (length (ctxs w)) \<or> cb = OnReadUnix fd (length (ctxs w))"
  shows "app_inv (register_event fd Read cb (arm_idle a fd (length (ctxs w)) (w\<lparr>ctxs := ctxs w @ [new_ctx ip]\<rparr>)))"
proof -
  let ?c = "length (ctxs w)"
  have "live ?c (arm_idle a fd ?c (w\<lparr>ctxs := ctxs w @ [new_ctx ip]\<rparr>))"
    using inv_new_ctx [OF inv] by (intro live_arm_idle) (simp add: live_def)
  then show ?thesis using cb by (intro inv_register_read) (auto simp: live_def)
qed

lemma inv_on_accept:
  assumes "app_inv w"
  shows "app_inv (on_accept a ip w)"
proof (cases "fd_alloc a (map fst (open_fds w))")
  case (Some fd)
  let ?w = "(sys_open fd (Socket (sockets w)) w)\<lparr>sockets := sockets w + 1\<rparr>"
  have w: "app_inv ?w" by (rule inv_opened [OF assms])
  have "app_inv (close_fd fd (give fd x ?w))" for x by (rule app_invI [OF w]) simp_all
  with inv_new_conn [OF w disjI1 [OF refl], where a = a and fd = fd and ip = ip] show ?thesis using assms Some by (simp add: on_accept_def Let_def)
qed (use assms in \<open>simp add: on_accept_def\<close>)

lemma inv_on_accept_unix:
  assumes "app_inv w"
  shows "app_inv (on_accept_unix a w)"
proof (cases "fd_alloc a (map fst (open_fds w))")
  case (Some fd)
  have w: "app_inv ((sys_open fd (Socket (sockets w)) w)\<lparr>sockets := sockets w + 1\<rparr>)" by (rule inv_opened [OF assms])
  show ?thesis using inv_new_conn [OF w disjI2 [OF refl], where a = a and fd = fd and ip = "''unix''"] Some by (simp add: on_accept_unix_def Let_def)
qed (use assms in \<open>simp add: on_accept_unix_def\<close>)

lemma inv_read_callback:
  assumes "app_inv w" "map_of (fd_callbacks w) fd = Some cbs" "read_cb cbs = Some cb"
  shows "app_inv (run_callback a cb i w)"
proof -
  have "read_cb cbs = Some OnAccept \<or> read_cb cbs = Some OnAcceptUnix
      \<or> (\<exists>c < length (ctxs w). read_cb cbs = Some (OnRead fd c) \<or> read_cb cbs = Some (OnReadUnix fd c))"
    using assms(1,2) unfolding app_inv_def reads_ok_def by blast
  then have "cb = OnAccept \<or> cb = OnAcceptUnix \<or> (\<exists>c < length (ctxs w). cb = OnRead fd c \<or> cb = OnReadUnix fd c)"
    using assms(3) by auto
  then show ?thesis
    using assms(1) live_on_read [of _ w a fd] live_on_read_unix [of _ w a fd] inv_on_accept inv_on_accept_unix
    by (auto simp: run_callback_def live_def split: input.splits)
qed

lemma inv_timer_callback:
  assumes inv: "app_inv w" and t: "map_of (timers_by_id w) t = Some (tfd, cb)"
  shows "app_inv (run_callback a cb i (unregister_timer t w))"
proof (cases cb)
  case (OnIdle fd c)
  have c: "c < length (ctxs w)" using inv_known [OF inv t] OnIdle by blast
  have i: "few w \<longrightarrow> idle_timer_id (ctxs w ! c) = t \<and> t \<noteq> - 1" using inv_timer(1,2) [OF inv _ t] OnIdle by auto
  show ?thesis
    using live_close_conn [of c _ fd] idle_gone [OF inv c i] OnIdle c by (simp add: run_callback_def on_idle_def live_def)
next
  case (OnReadTimeout fd c)
  have c: "c < length (ctxs w)" using inv_known [OF inv t] OnReadTimeout by blast
  have i: "few w \<longrightarrow> read_timer_id (ctxs w ! c) = t \<and> t \<noteq> - 1" using inv_timer(1,2) [OF inv _ t] OnReadTimeout by auto
  have "live c (upd_ctx c (\<lambda>x. x\<lparr>read_timer_id := - 1\<rparr>) (unregister_timer t w))" using read_gone [OF inv c i] c by (simp add: live_def)
  then have "live c (on_read_timeout fd c (unregister_timer t w))"
    unfolding on_read_timeout_def by (intro live_close_conn live_simple(1))
  then show ?thesis using OnReadTimeout by (simp add: run_callback_def live_def)
qed (rule inv_known [OF inv t]; simp)+

lemma inv_rearm: "app_inv w \<Longrightarrow> app_inv (update_epoll fd b w)"
  by (erule app_invI) simp_all

lemma inv_bookkeeping:
  assumes "app_inv w"
  shows "work_queue w = []" "map_of (fd_callbacks w) fd = Some cbs \<Longrightarrow> write_cb cbs = None"
  using assms unfolding app_inv_def reads_ok_def by blast+

interpretation app_loop: loop_client "run_callback a" app_inv for a
  by unfold_locales (fact inv_read_callback inv_bookkeeping inv_timer_callback inv_rearm)+

lemma listen_inv: "app_inv (listen mx)"
  unfolding listen_def
  by (rule inv_register_read) (simp_all add: app_inv_def timers_tracked_def ids_ok_def reads_ok_def known_def)

lemma listen_unix_inv:
  assumes "app_inv w"
  shows "app_inv (listen_unix fd w)"
proof -
  have "app_inv (sys_open fd Listener w)" using assms by (rule app_invI) simp_all
  then show ?thesis unfolding listen_unix_def by (rule inv_register_read) simp
qed

lemma polls_inv: "app_inv w \<Longrightarrow> app_inv (fold (app_poll a) batches w)"
  by (induction batches arbitrary: w) (simp_all add: app_poll_def app_loop.poll_ok)

text \<open>C15: whatever events the loop is given, with a TCP listener and perhaps a Unix one, and as long as fewer timers have been made
  than the \<open>int\<close> counter of identifiers can number, every registered timer belongs to a connection whose context holds its
  identifier, and every identifier a context holds is that of a registered timer of its kind: a connection never has two
  idle timers or two read timers, and none is forgotten.\<close>

theorem conn_timers_tracked:
  assumes "w = fold (app_poll a) batches (listen mx) \<or> w = fold (app_poll a) batches (listen_unix fd (listen mx))"
    and "timers_made w < 2 ^ 31 - 1"
  shows "timers_tracked w"
  using polls_inv [OF listen_inv, of a batches mx] polls_inv [OF listen_unix_inv [OF listen_inv], of a batches fd mx] assms
  by (auto simp: app_inv_def few_def)

end
