(* ===== verification/App_Serves.thy ===== *)
theory App_Serves
  imports App_Timers Router_Spec
begin

text \<open>
  A request from the socket to its response. A well-formed request with a fixed length that arrives on a kept-alive
  connection, cut into any pieces, is parsed when its last piece arrives, reaches the handler the router chooses exactly
  once, and its response is the only thing written; the connection is then ready for the next request.
\<close>

section \<open>Incomplete requests\<close>

text \<open>A line feed, a carriage return and a line feed in a row: what the end of the headers contains.\<close>

fun lcl :: "string \<Rightarrow> bool" where
  "lcl (x # y # z # xs) \<longleftrightarrow> x = LF \<and> y = CR \<and> z = LF \<or> lcl (y # z # xs)"
| "lcl xs \<longleftrightarrow> False"

lemma lcl_Cons: "x \<noteq> LF \<Longrightarrow> lcl (x # xs) = lcl xs"
  by (cases xs rule: lcl.cases) auto

lemma lcl_skip: "LF \<notin> set l \<Longrightarrow> lcl (l @ xs) = lcl xs"
  by (induction l) (auto simp: lcl_Cons [OF not_sym])

lemma lcl_line:
  assumes "LF \<notin> set l" "2 \<le> length l"
  shows "lcl (LF # l @ LF # xs) = lcl (LF # xs)"
proof -
  obtain x y l' where l: "l = x # y # l'" using assms(2) by (cases l rule: lcl.cases) auto
  then have "lcl (LF # l @ LF # xs) = lcl (l @ LF # xs)" using assms(1) by auto
  also have "\<dots> = lcl (LF # xs)" by (rule lcl_skip [OF assms(1)])
  finally show ?thesis .
qed

lemma lcl_Suc: "lcl xs \<Longrightarrow> lcl (x # xs)"
  by (cases xs rule: lcl.cases) auto

lemma lcl_drop: "lcl (drop n xs) \<Longrightarrow> lcl xs"
proof (induction n arbitrary: xs)
  case (Suc n)
  then show ?case by (cases xs) (auto intro: lcl_Suc)
qed simp

lemma lcl_append: "lcl xs \<Longrightarrow> lcl (xs @ ys)"
  by (induction xs rule: lcl.induct) auto

lemma hit_lcl: "hit data i \<Longrightarrow> lcl data"
proof -
  assume h: "hit data i"
  then obtain rest where "drop i data = CR # LF # CR # LF # rest"
    unfolding hit_def by (auto simp: Cons_nth_drop_Suc [symmetric] numeral_2_eq_2 numeral_3_eq_3)
  then show ?thesis using lcl_drop [of i data] by simp
qed

lemma lcl_headers:
  "\<forall>kv \<in> set hs. clean_header kv \<Longrightarrow> \<not> lcl (LF # concat (map header_line hs) @ [CR])"
proof (induction hs)
  case (Cons kv hs)
  let ?l = "fst kv @ '': '' @ snd kv @ [CR]"
  have "LF \<notin> set ?l" using Cons.prems by (simp add: clean_header_def)
  then have "lcl (LF # ?l @ LF # concat (map header_line hs) @ [CR]) = lcl (LF # concat (map header_line hs) @ [CR])"
    by (rule lcl_line) simp
  then show ?case using Cons by (simp add: header_line_def [of kv])
qed simp

text \<open>A request whose lines are clean, with a body of the announced length, or none.\<close>

definition plain_request :: "string \<Rightarrow> string \<Rightarrow> string \<Rightarrow> (string \<times> string) list \<Rightarrow> string \<Rightarrow> bool" where
  "plain_request m path version hs body \<longleftrightarrow>
     clean_head m path version hs \<and> LF \<notin> set m \<and> LF \<notin> set path
     \<and> length (render_head m path version hs) \<le> MAX_HEADER_SIZE
     \<and> flat_lookup hs ''Transfer-Encoding'' = [] \<and> flat_lookup hs ''Expect'' \<noteq> ''100-continue''
     \<and> announces hs body \<and> length body \<le> MAX_BODY_SIZE"

lemma head_before:
  assumes cl: "clean_head m path version hs" "LF \<notin> set m" "LF \<notin> set path"
    and d: "d @ x = render_head m path version hs" "x \<noteq> []"
  shows "find_header_end d = None"
proof -
  let ?first = "m @ '' '' @ path @ '' '' @ version @ [CR]"
  let ?h = "?first @ LF # concat (map header_line hs) @ [CR]"
  obtain y where y: "x = y @ [LF]" using d by (cases x rule: rev_cases) (auto simp: render_head_def)
  then have h: "?h = d @ y" using d(1) by (simp add: render_head_def)
  have "\<not> lcl ?h"
    using cl lcl_skip [of ?first] lcl_headers [of hs] by (simp add: clean_head_def)
  then have "\<not> lcl d" unfolding h using lcl_append by blast
  then have "\<not> hit d i" for i using hit_lcl by blast
  then show ?thesis unfolding find_header_end_find by (simp add: find_None_iff)
qed

lemma plain_size: "plain_request m path version hs body \<Longrightarrow> length (render_head m path version hs @ body) < 2 ^ 64"
  by (simp add: plain_request_def MAX_HEADER_SIZE_def MAX_BODY_SIZE_def)

definition waits :: "(string \<times> string) list \<Rightarrow> nat option \<times> parser \<times> request \<Rightarrow> bool" where
  "waits hs out \<longleftrightarrow> (\<exists>k p r. out = (Some k, p, r) \<and> \<not> is_complete p
     \<and> (headers_complete p \<longrightarrow> header r ''Expect'' = flat_lookup hs ''Expect''))"

lemma prefix_waits:
  assumes pl: "plain_request m path version hs body" and d: "d @ x = render_head m path version hs @ body" "x \<noteq> []"
  shows "waits hs (parse d HttpParser Request)"
proof -
  let ?h = "render_head m path version hs"
  obtain us where "d = ?h @ us \<and> us @ x = body \<or> d @ us = ?h \<and> x = us @ body"
    using d(1) unfolding append_eq_append_conv2 by blast
  then consider y where "d @ y = ?h" "y \<noteq> []" | b where "d = ?h @ b" "b @ x = body"
    by (cases "us = []") auto
  then show ?thesis
  proof cases
    case 1
    then have "find_header_end d = None" using head_before pl unfolding plain_request_def by blast
    moreover have "length d \<le> MAX_HEADER_SIZE" using 1 pl by (metis add_leE length_append plain_request_def)
    ultimately show ?thesis
      by (simp add: waits_def parse_def HttpParser_def in_phase1_def is_complete_def Let_def)
  next
    case 2
    have cl: "clean_head m path version hs" using pl by (simp add: plain_request_def)
    have an: "if flat_lookup hs ''Content-Length'' = [] then body = [] else from_chars (flat_lookup hs ''Content-Length'') = Some (length body)"
      by (rule announces_chars) (use pl in \<open>simp_all add: plain_request_def\<close>)
    have small: "length d < 2 ^ 64" using plain_size [OF pl] 2 by auto
    show ?thesis
    proof (rule run_head [OF cl 2(1) small refl])
      fix p :: parser
      assume "p_state p = PHeaderKey"
      let ?e = "length ?h" and ?r = "parsed_head m path hs"
      let ?p = "p\<lparr>headers_complete := True, body_length := length body, p_state := PBody\<rparr>"
      have "end_headers (?e - 1) (?e - 2) p ?r = Inr (?e, ?p)"
        using pl an 2(2) d(2) head_nonempty [of m path version hs]
        by (auto simp: end_headers_def header_parsed plain_request_def split: if_splits)
      moreover have "phase2 d ?e ?e ?p ?r = (Some ?e, ?p, ?r)"
        using 2 d(2) by (auto simp: phase2_def phase2_body_def Let_def)
      ultimately show "\<exists>start p'. end_headers (?e - 1) (?e - 2) p ?r = Inr (start, p') \<and> \<not> in_phase1 (p_state p')
          \<and> waits hs (phase2 d ?e start p' ?r)"
        by (simp add: in_phase1_def waits_def is_complete_def header_parsed)
    qed
  qed
qed

lemma plain_completes:
  assumes pl: "plain_request m path version hs body"
  shows "completes (render_head m path version hs @ body) (length (render_head m path version hs @ body))
    (set_body body (parsed_head m path hs)) (parse (render_head m path version hs @ body) HttpParser Request)"
  using fixed_completes [of m path version hs body "render_head m path version hs @ body" "[]"] pl plain_size [OF pl]
  by (simp add: plain_request_def)

section \<open>The connection between events\<close>

text \<open>The socket \<open>s\<close> is open as descriptor \<open>fd\<close>, with the context \<open>c\<close> and the callbacks \<open>q\<close>.\<close>

definition sock_at :: "callback FdCallbacks option \<Rightarrow> nat \<Rightarrow> nat \<Rightarrow> nat \<Rightarrow> world \<Rightarrow> bool" where
  "sock_at q fd c s w \<longleftrightarrow>
     reactor_wf w \<and> live c w \<and> map_of (open_fds w) fd = Some (Socket s) \<and> fd \<noteq> event_fd w \<and> map_of (fd_callbacks w) fd = q"

definition ctx_data :: "nat \<Rightarrow> world \<Rightarrow> string \<times> nat \<times> bool \<times> string" where
  "ctx_data c w = (let x = ctxs w ! c in (buf x, handled x, sent_100 x, client_ip x))"

definition quiet :: "callback FdCallbacks option \<Rightarrow> nat \<Rightarrow> nat \<Rightarrow> nat \<Rightarrow> world \<Rightarrow> world \<Rightarrow> bool" where
  "quiet q fd c s w w' \<longleftrightarrow>
     sock_at q fd c s w' \<and> ctx_data c w' = ctx_data c w \<and> out_log w' = out_log w \<and> cnt_requests w' = cnt_requests w"

text \<open>A connection waits for its next bytes.\<close>

abbreviation conn_at :: "nat \<Rightarrow> nat \<Rightarrow> nat \<Rightarrow> world \<Rightarrow> bool" where
  "conn_at fd c \<equiv> sock_at (Some \<lparr> read_cb = Some (OnRead fd c), write_cb = None \<rparr>) fd c"

abbreviation steady :: "nat \<Rightarrow> nat \<Rightarrow> nat \<Rightarrow> world \<Rightarrow> world \<Rightarrow> bool" where
  "steady fd c \<equiv> quiet (Some \<lparr> read_cb = Some (OnRead fd c), write_cb = None \<rparr>) fd c"

lemma steady_trans: "quiet q fd c s w w' \<Longrightarrow> quiet q fd c s w' w'' \<Longrightarrow> quiet q fd c s w w''"
  by (simp add: quiet_def)

lemma steady_refl: "sock_at q fd c s w \<Longrightarrow> quiet q fd c s w w"
  by (simp add: quiet_def)

lemma unregister_keeps_socket:
  assumes "reactor_wf w" "map_of (open_fds w) fd = Some (Socket s)"
  shows "map_of (open_fds (unregister_timer t w)) fd = Some (Socket s)"
proof (cases "map_of (timers_by_id w) t")
  case (Some x)
  then have "fst x \<noteq> fd" using wf_timer [OF assms(1), of t "fst x" "snd x"] assms(2) by auto
  with Some assms(2) show ?thesis by (auto simp: unregister_timer_def delete_conv split: prod.splits)
qed (use assms(2) in \<open>simp add: unregister_timer_def\<close>)

lemma conn_unregister:
  assumes "sock_at q fd c s w"
  shows "reactor_wf (unregister_timer t w)" "map_of (open_fds (unregister_timer t w)) fd = Some (Socket s)"
  using assms by (simp_all add: sock_at_def wf_unregister_timer unregister_keeps_socket)

lemma wf_upd [simp]: "reactor_wf (upd_ctx c f w) = reactor_wf w"
  by (simp add: reactor_wf_def)

lemma steady_disarm_idle: "sock_at q fd c s w \<Longrightarrow> quiet q fd c s w (disarm_idle c w)"
  using live_disarm_idle [of c w] conn_unregister [of q fd c s w]
  by (auto simp: quiet_def sock_at_def disarm_idle_def Let_def ctx_data_def upd_ctx_nth live_def)

lemma steady_cancel: "sock_at q fd c s w \<Longrightarrow> quiet q fd c s w (cancel_read_timeout c w)"
  using live_cancel_read_timeout [of c w] conn_unregister [of q fd c s w]
  by (auto simp: quiet_def sock_at_def cancel_read_timeout_def Let_def ctx_data_def upd_ctx_nth live_def)

lemma steady_register:
  assumes c: "sock_at q fd c s w" and al: "fresh_alloc alloc" and reg: "register_timer alloc cb w = (t, w1)"
    and l: "live c (case t of Some t \<Rightarrow> upd_ctx c (f t) w1 | None \<Rightarrow> w1)"
    and f: "\<And>t x. buf (f t x) = buf x \<and> handled (f t x) = handled x \<and> sent_100 (f t x) = sent_100 x \<and> client_ip (f t x) = client_ip x"
  shows "quiet q fd c s w (case t of Some t \<Rightarrow> upd_ctx c (f t) w1 | None \<Rightarrow> w1)"
proof (cases t)
  case None
  then show ?thesis using c register_timer_None [OF reg [unfolded None]] by (simp add: steady_refl)
next
  case (Some t1)
  obtain tfd where tfd: "alloc (map fst (open_fds w)) = Some tfd" by (rule register_timer_Some [OF reg [unfolded Some]])
  note r = register_timer_result [OF tfd reg [unfolded Some]]
  have "tfd \<noteq> fd" using fresh_fd [OF al tfd] c by (auto simp: sock_at_def)
  moreover have "reactor_wf w1" using c by (intro wf_register_timer [OF _ al reg]) (simp add: sock_at_def)
  ultimately show ?thesis
    using c l Some r world_register_timer [OF reg] f
    by (auto simp: quiet_def sock_at_def ctx_data_def upd_ctx_nth live_def Let_def)
qed

lemma steady_arm_idle:
  assumes c: "sock_at q fd c s w" and al: "fresh_alloc (fd_alloc a)"
  shows "quiet q fd c s w (arm_idle a fd c w)"
proof -
  obtain t w1 where r: "register_timer (fd_alloc a) (OnIdle fd c) (disarm_idle c w) = (t, w1)" by (meson surj_pair)
  have eq: "arm_idle a fd c w = (case t of Some t \<Rightarrow> upd_ctx c (\<lambda>x. x\<lparr>idle_timer_id := t\<rparr>) w1 | None \<Rightarrow> w1)"
    using r by (simp add: arm_idle_def split: option.splits)
  have d: "quiet q fd c s w (disarm_idle c w)" by (rule steady_disarm_idle [OF c])
  have "live c (arm_idle a fd c w)" using c by (intro live_arm_idle) (simp add: sock_at_def)
  then have "quiet q fd c s (disarm_idle c w) (arm_idle a fd c w)"
    using d unfolding eq by (intro steady_register [OF _ al r]) (simp_all add: quiet_def)
  with d show ?thesis by (rule steady_trans)
qed

lemma steady_arm_read_timeout:
  assumes c: "sock_at q fd c s w" and al: "fresh_alloc (fd_alloc a)"
  shows "quiet q fd c s w (arm_read_timeout a fd c w)"
proof (cases "read_timer_id (ctxs w ! c) = - 1")
  case True
  obtain t w1 where r: "register_timer (fd_alloc a) (OnReadTimeout fd c) w = (t, w1)" by (meson surj_pair)
  have eq: "arm_read_timeout a fd c w = (case t of Some t \<Rightarrow> upd_ctx c (\<lambda>x. x\<lparr>read_timer_id := t\<rparr>) w1 | None \<Rightarrow> w1)"
    using r True by (simp add: arm_read_timeout_def split: option.splits)
  have "live c (arm_read_timeout a fd c w)" using c by (intro live_arm_read_timeout) (simp add: sock_at_def)
  then show ?thesis unfolding eq by (intro steady_register [OF c al r]) simp_all
qed (use c in \<open>simp add: arm_read_timeout_def steady_refl\<close>)

lemma steady_update_epoll: "sock_at q fd c s w \<Longrightarrow> quiet q fd c s w (update_epoll f b w)"
  using inv_rearm [of w f b] by (simp add: quiet_def sock_at_def ctx_data_def live_def)

lemma conn_event:
  assumes "conn_at fd c s w"
  shows "app_poll a [(fd, True, False, Bytes x)] w =
    (let w = on_read a fd c x w in if map_of (fd_callbacks w) fd \<noteq> None then update_epoll fd False w else w)"
proof -
  have "map_of (timerfd_to_id w) fd = None"
  proof (cases "map_of (timerfd_to_id w) fd")
    case (Some t)
    then show ?thesis using assms wf_timerfd [of w fd t] by (simp add: sock_at_def)
  qed
  then show ?thesis using assms by (simp add: app_poll_def poll_def poll_event_def sock_at_def run_callback_def Let_def)
qed

section \<open>One event\<close>

text \<open>The bytes of an event appended to the buffer, the idle timer stopped and the read timer running.\<close>

definition feed :: "app \<Rightarrow> nat \<Rightarrow> nat \<Rightarrow> string \<Rightarrow> world \<Rightarrow> world" where
  "feed a fd c tmp w =
     (let w = disarm_idle c w; w = (if buf (ctxs w ! c) = [] then arm_read_timeout a fd c w else w)
      in upd_ctx c (\<lambda>x. x\<lparr>buf := buf x @ tmp\<rparr>) w)"

lemma conn_upd:
  assumes "conn_at fd c s w" "\<And>x. idle_timer_id (f x) = idle_timer_id x \<and> read_timer_id (f x) = read_timer_id x"
  shows "conn_at fd c s (upd_ctx c f w)" "ctxs (upd_ctx c f w) ! c = f (ctxs w ! c)"
  using assms live_upd [of c w f] by (simp_all add: sock_at_def upd_ctx_nth live_def)

lemma conn_requests [simp]: "conn_at fd c s (w\<lparr>cnt_requests := n\<rparr>) = conn_at fd c s w"
proof -
  have "live c (w\<lparr>cnt_requests := n\<rparr>) = live c w"
    using live_simple(4) [of c w n] live_simple(4) [of c "w\<lparr>cnt_requests := n\<rparr>" "cnt_requests w"] by (auto simp: live_def)
  then show ?thesis by (simp add: sock_at_def reactor_wf_def)
qed

lemma feed_keeps:
  assumes c: "conn_at fd c s w" and al: "fresh_alloc (fd_alloc a)" and d: "ctx_data c w = (b, n, e, ip)"
  shows "conn_at fd c s (feed a fd c x w)" "ctx_data c (feed a fd c x w) = (b @ x, n, e, ip)"
    "out_log (feed a fd c x w) = out_log w" "cnt_requests (feed a fd c x w) = cnt_requests w"
proof -
  define w1 where "w1 = disarm_idle c w"
  define w2 where "w2 = (if buf (ctxs w1 ! c) = [] then arm_read_timeout a fd c w1 else w1)"
  have 1: "steady fd c s w w1" unfolding w1_def by (rule steady_disarm_idle [OF c])
  then have c1: "conn_at fd c s w1" by (simp add: quiet_def)
  have "steady fd c s w1 w2"
    using steady_arm_read_timeout [OF c1 al] steady_refl [OF c1] by (simp add: w2_def)
  with 1 have s: "steady fd c s w w2" by (rule steady_trans)
  have f: "feed a fd c x w = upd_ctx c (\<lambda>y. y\<lparr>buf := buf y @ x\<rparr>) w2" by (simp add: feed_def w1_def w2_def Let_def)
  have c2: "conn_at fd c s w2" using s by (simp add: quiet_def)
  show "conn_at fd c s (feed a fd c x w)" unfolding f by (rule conn_upd(1) [OF c2]) simp
  have "ctxs (feed a fd c x w) ! c = (ctxs w2 ! c)\<lparr>buf := buf (ctxs w2 ! c) @ x\<rparr>" unfolding f by (rule conn_upd(2) [OF c2]) simp
  then show "ctx_data c (feed a fd c x w) = (b @ x, n, e, ip)" using s d by (simp add: quiet_def ctx_data_def Let_def)
  show "out_log (feed a fd c x w) = out_log w" "cnt_requests (feed a fd c x w) = cnt_requests w"
    using s by (simp_all add: f quiet_def)
qed

lemma on_read_feed:
  assumes "x \<noteq> []"
  shows "on_read a fd c x w =
    (case parse (buf (ctxs (feed a fd c x w) ! c)) HttpParser Request of
       (None, p, rq) \<Rightarrow>
         close_conn fd (give fd (Sent (serialize (error_response (http_date a) (if error_status p \<noteq> 0 then error_status p else 400))))
           (cancel_read_timeout c (feed a fd c x w)))
     | (Some n, p, rq) \<Rightarrow>
         if headers_complete p \<and> \<not> is_complete p then arm_idle a fd c (on_expect fd c rq (feed a fd c x w))
         else if \<not> is_complete p then arm_idle a fd c (feed a fd c x w)
         else on_complete a fd c n rq (feed a fd c x w))"
  unfolding on_read_def on_data_def feed_def Let_def using assms by (simp cong: option.case_cong prod.case_cong if_cong)

lemma read_waits:
  assumes c: "conn_at fd c s w" and al: "fresh_alloc (fd_alloc a)" and d: "ctx_data c w = (b, n, e, ip)" and x: "x \<noteq> []"
    and wt: "waits hs (parse (b @ x) HttpParser Request)" and ex: "flat_lookup hs ''Expect'' \<noteq> ''100-continue''"
  shows "conn_at fd c s (on_read a fd c x w)" "ctx_data c (on_read a fd c x w) = (b @ x, n, e, ip)"
    "out_log (on_read a fd c x w) = out_log w" "cnt_requests (on_read a fd c x w) = cnt_requests w"
proof -
  let ?w = "feed a fd c x w"
  note f = feed_keeps [OF c al d, of x]
  have b: "buf (ctxs ?w ! c) = b @ x" using f(2) by (simp add: ctx_data_def Let_def)
  obtain k p r where out: "parse (b @ x) HttpParser Request = (Some k, p, r)" "\<not> is_complete p"
    "headers_complete p \<longrightarrow> header r ''Expect'' = flat_lookup hs ''Expect''"
    using wt unfolding waits_def by blast
  then have "headers_complete p \<Longrightarrow> on_expect fd c r ?w = ?w" using ex by (simp add: on_expect_def)
  then have eq: "on_read a fd c x w = arm_idle a fd c ?w" unfolding on_read_feed [OF x] b using out(1,2) by simp
  have "steady fd c s ?w (arm_idle a fd c ?w)" by (rule steady_arm_idle [OF f(1) al])
  then show "conn_at fd c s (on_read a fd c x w)" "ctx_data c (on_read a fd c x w) = (b @ x, n, e, ip)"
    "out_log (on_read a fd c x w) = out_log w" "cnt_requests (on_read a fd c x w) = cnt_requests w"
    using f unfolding eq by (simp_all add: quiet_def)
qed

lemma conn_give: "conn_at fd c s w \<Longrightarrow> conn_at fd c s (give fd x w) \<and> out_log (give fd x w) = out_log w @ [(s, Gave x)]"
  using live_simple(1) [of c w fd x] by (simp add: sock_at_def reactor_wf_def) (simp add: give_def)

lemma conn_gives:
  "conn_at fd c s w \<Longrightarrow> conn_at fd c s (fold (give fd) xs w) \<and> out_log (fold (give fd) xs w) = out_log w @ map (\<lambda>x. (s, Gave x)) xs
     \<and> ctxs (fold (give fd) xs w) = ctxs w \<and> cnt_requests (fold (give fd) xs w) = cnt_requests w"
  by (induction xs arbitrary: w) (simp_all add: conn_give)

lemma conn_finalize:
  assumes "conn_at fd c s w"
  shows "conn_at fd c s (finalize a fd c ka rq r w)" "ctxs (finalize a fd c ka rq r w) = ctxs w"
    "cnt_requests (finalize a fd c ka rq r w) = cnt_requests w"
    "out_log (finalize a fd c ka rq r w) =
      out_log w @ map (\<lambda>x. (s, Gave x)) (o_sent (send_response (http_date a) ka (handled (ctxs w ! c)) rq r))"
proof -
  let ?out = "send_response (http_date a) ka (handled (ctxs w ! c)) rq r"
  note g = conn_gives [OF assms, of "o_sent ?out"]
  have "live c (finalize a fd c ka rq r w)" using assms by (intro live_finalize) (simp add: sock_at_def)
  with g show "conn_at fd c s (finalize a fd c ka rq r w)" by (simp add: sock_at_def finalize_def Let_def reactor_wf_def)
qed (use conn_gives [OF assms] in \<open>simp_all add: finalize_def Let_def\<close>)

section \<open>The last piece\<close>

text \<open>What the application does with a request that is let through: the middlewares, then the handler of its route, which
  does not look at the counters of the server.\<close>

definition answers :: "app \<Rightarrow> request \<Rightarrow> request \<Rightarrow> response \<Rightarrow> bool" where
  "answers a rq rq' r' \<longleftrightarrow>
     \<not> has_async_mw (app_router a)
     \<and> (\<exists>r g params hf. run_mws a (middlewares (app_router a)) rq Response = (True, r)
          \<and> route a rq = (Some (Handler (\<lambda>v. g)), params, hf)
          \<and> rq' = add_params a params rq \<and> r' = run_handler a g hf rq' r)"

definition let_through :: "app \<Rightarrow> request \<Rightarrow> bool" where
  "let_through a rq \<longleftrightarrow>
     \<not> bad_path (rq_path rq) \<and> \<not> (is_websocket (header rq ''Upgrade'') \<and> rq_path rq \<in> set (ws_routes a))"

lemma dispatch_answers:
  assumes an: "answers a rq rq' r'" and c: "conn_at fd c s w" and al: "fresh_alloc (fd_alloc a)"
  shows "conn_at fd c s (dispatch a fd c True rq w)" "ctx_data c (dispatch a fd c True rq w) = ctx_data c w"
    "cnt_requests (dispatch a fd c True rq w) = cnt_requests w"
    "out_log (dispatch a fd c True rq w) =
      out_log w @ map (\<lambda>x. (s, Gave x)) (o_sent (send_response (http_date a) True (handled (ctxs w ! c)) rq' r'))"
proof -
  let ?w = "finalize a fd c True rq' r' w"
  note f = conn_finalize [OF c, of a True rq' r']
  have eq: "dispatch a fd c True rq w = arm_idle a fd c ?w"
    using an by (auto simp: answers_def dispatch_def end_request_def Let_def)
  have "steady fd c s ?w (arm_idle a fd c ?w)" by (rule steady_arm_idle [OF f(1) al])
  then show "conn_at fd c s (dispatch a fd c True rq w)" "ctx_data c (dispatch a fd c True rq w) = ctx_data c w"
    "cnt_requests (dispatch a fd c True rq w) = cnt_requests w"
    "out_log (dispatch a fd c True rq w) =
      out_log w @ map (\<lambda>x. (s, Gave x)) (o_sent (send_response (http_date a) True (handled (ctxs w ! c)) rq' r'))"
    using f unfolding eq by (simp_all add: quiet_def ctx_data_def)
qed

lemma whole_buffer:
  assumes "parse data HttpParser Request = (Some (length data), p, rq)" "is_complete p"
  shows "after_erase data (length data) rq = rq"
proof -
  have "data \<noteq> []"
  proof
    assume "data = []"
    with assms show False
      by (auto simp: parse_def find_header_end_def HttpParser_def in_phase1_def is_complete_def Let_def split: if_splits)
  qed
  with views_read [OF assms] show ?thesis by (simp add: after_erase_def reread_erased_all)
qed

lemma serve_answers:
  assumes c: "conn_at fd c s w" and al: "fresh_alloc (fd_alloc a)" and d: "ctx_data c w = (data, n, e, ip)"
    and er: "after_erase data (length data) rq = rq" and an: "answers a (set_remote_addr ip rq) rq' r'"
    and ka: "header rq ''Connection'' \<noteq> ''close''" "n < MAX_REQUESTS"
  shows "conn_at fd c s (serve a fd c (length data) rq w)" "ctx_data c (serve a fd c (length data) rq w) = ([], n, e, ip)"
    "cnt_requests (serve a fd c (length data) rq w) = cnt_requests w"
    "out_log (serve a fd c (length data) rq w) =
      out_log w @ map (\<lambda>x. (s, Gave x)) (o_sent (send_response (http_date a) True n rq' r'))"
proof -
  let ?w = "upd_ctx c (\<lambda>x. x\<lparr>buf := []\<rparr>) w"
  have x: "buf (ctxs w ! c) = data" "handled (ctxs w ! c) = n" "client_ip (ctxs w ! c) = ip" "sent_100 (ctxs w ! c) = e"
    using d by (simp_all add: ctx_data_def Let_def)
  have c1: "conn_at fd c s ?w" and x1: "ctxs ?w ! c = (ctxs w ! c)\<lparr>buf := []\<rparr>"
    by (rule conn_upd [OF c]; simp)+
  have h: "header (set_remote_addr ip rq) k = header rq k" for k by (simp add: header_def set_remote_addr_def)
  have eq: "serve a fd c (length data) rq w = dispatch a fd c True (set_remote_addr ip rq) ?w"
    using er ka by (simp add: serve_def Let_def x x1 h)
  note r = dispatch_answers [OF an c1 al]
  show "conn_at fd c s (serve a fd c (length data) rq w)" "ctx_data c (serve a fd c (length data) rq w) = ([], n, e, ip)"
    "cnt_requests (serve a fd c (length data) rq w) = cnt_requests w"
    "out_log (serve a fd c (length data) rq w) =
      out_log w @ map (\<lambda>x. (s, Gave x)) (o_sent (send_response (http_date a) True n rq' r'))"
    using r by (simp_all add: eq x1 x ctx_data_def Let_def)
qed

lemma read_completes:
  assumes c: "conn_at fd c s w" and al: "fresh_alloc (fd_alloc a)" and d: "ctx_data c w = (b, n, e, ip)" and x: "x \<noteq> []"
    and cm: "completes (b @ x) (length (b @ x)) rq (parse (b @ x) HttpParser Request)" and lt: "let_through a rq"
    and an: "answers a (set_remote_addr ip rq) rq' r'"
    and ka: "header rq ''Connection'' \<noteq> ''close''" "n + 1 < MAX_REQUESTS"
  shows "conn_at fd c s (on_read a fd c x w)" "ctx_data c (on_read a fd c x w) = ([], n + 1, False, ip)"
    "cnt_requests (on_read a fd c x w) = cnt_requests w + 1"
    "out_log (on_read a fd c x w) =
      out_log w @ map (\<lambda>x. (s, Gave x)) (o_sent (send_response (http_date a) True (n + 1) rq' r'))"
proof -
  let ?f = "feed a fd c x w"
  let ?w1 = "cancel_read_timeout c ?f"
  let ?w2 = "upd_ctx c (\<lambda>x. x\<lparr>sent_100 := False, handled := handled x + 1\<rparr>) ?w1"
  let ?w3 = "?w2\<lparr>cnt_requests := cnt_requests ?w2 + 1\<rparr>"
  note f = feed_keeps [OF c al d, of x]
  have fb: "buf (ctxs ?f ! c) = b @ x" using f(2) by (simp add: ctx_data_def Let_def)
  obtain p where out: "parse (b @ x) HttpParser Request = (Some (length (b @ x)), p, rq)" "is_complete p"
    using cm unfolding completes_def by blast
  have st: "steady fd c s ?f ?w1" by (rule steady_cancel [OF f(1)])
  then have c1: "conn_at fd c s ?w1" and d1: "ctx_data c ?w1 = (b @ x, n, e, ip)" using f by (simp_all add: quiet_def)
  have c2: "conn_at fd c s ?w2" and x2: "ctxs ?w2 ! c = (ctxs ?w1 ! c)\<lparr>sent_100 := False, handled := handled (ctxs ?w1 ! c) + 1\<rparr>"
    by (rule conn_upd [OF c1]; simp)+
  have d3: "ctx_data c ?w3 = (b @ x, n + 1, False, ip)" using d1 x2 by (simp add: ctx_data_def Let_def)
  have "on_read a fd c x w = on_complete a fd c (length (b @ x)) rq ?f"
    unfolding on_read_feed [OF x] fb using out by simp
  also have "\<dots> = serve a fd c (length (b @ x)) rq ?w3" using lt by (auto simp: on_complete_def let_through_def Let_def)
  finally have eq: "on_read a fd c x w = serve a fd c (length (b @ x)) rq ?w3" .
  note r = serve_answers [OF _ al d3 whole_buffer [OF out] an ka, unfolded conn_requests, OF c2]
  show "conn_at fd c s (on_read a fd c x w)" "ctx_data c (on_read a fd c x w) = ([], n + 1, False, ip)"
    "cnt_requests (on_read a fd c x w) = cnt_requests w + 1"
    "out_log (on_read a fd c x w) =
      out_log w @ map (\<lambda>x. (s, Gave x)) (o_sent (send_response (http_date a) True (n + 1) rq' r'))"
    using r st f unfolding eq by (simp_all add: quiet_def)
qed

section \<open>A new connection\<close>

lemma accept_conn:
  assumes wf: "reactor_wf w" and inv: "app_inv w" and al: "fresh_alloc (fd_alloc a)" and fd: "fd_alloc a (map fst (open_fds w)) = Some fd"
    and new: "map_of (fd_callbacks w) fd = None" "map_of (open_fds w) (event_fd w) \<noteq> None"
    and "\<not> draining w" "max_connections w = 0" and c: "c = length (ctxs w)"
  shows "conn_at fd c (sockets w) (on_accept a ip w)" "ctx_data c (on_accept a ip w) = ([], 0, False, ip)"
    "out_log (on_accept a ip w) = out_log w"
proof -
  define w1 where "w1 = (sys_open fd (Socket (sockets w)) w)\<lparr>sockets := sockets w + 1, ctxs := ctxs w @ [new_ctx ip]\<rparr>"
  have f: "map_of (open_fds w) fd = None" by (rule fresh_fd [OF al fd])
  have "app_inv ((sys_open fd (Socket (sockets w)) w)\<lparr>sockets := sockets w + 1\<rparr>)" by (rule inv_opened [OF inv])
  then have i1: "app_inv w1" using inv_new_ctx [of _ ip] by (fastforce simp: w1_def)
  have "reactor_wf w1" using wf_sys_open [OF wf f, of "Socket (sockets w)"] by (simp add: w1_def reactor_wf_def)
  then have "sock_at None fd c (sockets w) w1" using i1 new f by (auto simp: sock_at_def live_def w1_def c)
  then have q: "quiet None fd c (sockets w) w1 (arm_idle a fd c w1)" by (rule steady_arm_idle [OF _ al])
  let ?w2 = "arm_idle a fd c w1" and ?cb = "OnRead fd c"
  have eq: "on_accept a ip w = register_event fd Read ?cb ?w2"
    using fd assms(7,8) c by (simp add: on_accept_def w1_def Let_def sys_open_def)
  have "live c (register_event fd Read ?cb ?w2)"
    using q inv_register_read [of ?w2 ?cb fd] by (auto simp: quiet_def sock_at_def live_def)
  then show "conn_at fd c (sockets w) (on_accept a ip w)"
    using q unfolding eq by (simp add: quiet_def sock_at_def) (simp add: register_event_def Let_def update_conv no_callbacks_def)
  show "ctx_data c (on_accept a ip w) = ([], 0, False, ip)" "out_log (on_accept a ip w) = out_log w"
    using q c unfolding eq by (simp_all add: quiet_def ctx_data_def w1_def new_ctx_def)
qed

section \<open>From the socket to the response\<close>

text \<open>The pieces arrive one event after the other.\<close>

definition deliver :: "app \<Rightarrow> nat \<Rightarrow> string list \<Rightarrow> world \<Rightarrow> world" where
  "deliver a fd pieces w = fold (\<lambda>x. app_poll a [(fd, True, False, Bytes x)]) pieces w"

lemma event_steady:
  assumes "conn_at fd c s w" "conn_at fd c s (on_read a fd c x w)"
  shows "steady fd c s (on_read a fd c x w) (app_poll a [(fd, True, False, Bytes x)] w)"
  unfolding conn_event [OF assms(1)] using assms(2) steady_update_epoll [OF assms(2), of fd False]
  by (simp add: sock_at_def Let_def)

lemma deliver_answers:
  assumes al: "fresh_alloc (fd_alloc a)" and pl: "plain_request m path version hs body"
    and rq: "rq = set_body body (parsed_head m path hs)" and lt: "let_through a rq"
    and an: "answers a (set_remote_addr ip rq) rq' r'" and ka: "header rq ''Connection'' \<noteq> ''close''" "n + 1 < MAX_REQUESTS"
  shows "conn_at fd c s w \<Longrightarrow> ctx_data c w = (b, n, e, ip) \<Longrightarrow> b @ concat pieces = render_head m path version hs @ body \<Longrightarrow>
     pieces \<noteq> [] \<Longrightarrow> [] \<notin> set pieces \<Longrightarrow>
     conn_at fd c s (deliver a fd pieces w) \<and> ctx_data c (deliver a fd pieces w) = ([], n + 1, False, ip)
     \<and> cnt_requests (deliver a fd pieces w) = cnt_requests w + 1
     \<and> out_log (deliver a fd pieces w) =
         out_log w @ map (\<lambda>x. (s, Gave x)) (o_sent (send_response (http_date a) True (n + 1) rq' r'))"
proof (induction pieces arbitrary: b w)
  case (Cons x pieces)
  let ?r = "on_read a fd c x w" and ?p = "app_poll a [(fd, True, False, Bytes x)] w"
  have x: "x \<noteq> []" using Cons.prems by auto
  show ?case
  proof (cases "pieces = []")
    case True
    then have "completes (b @ x) (length (b @ x)) rq (parse (b @ x) HttpParser Request)"
      using plain_completes [OF pl] Cons.prems(3) rq by simp
    note r = read_completes [OF Cons.prems(1) al Cons.prems(2) x this lt an ka]
    have "steady fd c s ?r ?p" by (rule event_steady [OF Cons.prems(1) r(1)])
    then show ?thesis using True r by (simp add: deliver_def quiet_def)
  next
    case False
    then have "concat pieces \<noteq> []" using Cons.prems(5) by (cases pieces) auto
    then have "waits hs (parse (b @ x) HttpParser Request)"
      using prefix_waits [OF pl, of "b @ x" "concat pieces"] Cons.prems(3) by simp
    note r = read_waits [OF Cons.prems(1) al Cons.prems(2) x this]
    have ex: "flat_lookup hs ''Expect'' \<noteq> ''100-continue''" using pl by (simp add: plain_request_def)
    have "steady fd c s ?r ?p" by (rule event_steady [OF Cons.prems(1) r(1) [OF ex]])
    then have "conn_at fd c s ?p" "ctx_data c ?p = (b @ x, n, e, ip)" "out_log ?p = out_log w" "cnt_requests ?p = cnt_requests w"
      using r [OF ex] by (simp_all add: quiet_def)
    then show ?thesis using Cons.IH [of ?p "b @ x"] False Cons.prems(3,5) by (simp add: deliver_def)
  qed
qed simp

text \<open>C1: a well-formed request with a fixed-length body, arriving in any pieces on an open connection, is answered exactly
  once: the only bytes written are the response that the middlewares and the routed handler make of the request as it
  was sent, and the connection is left open with an empty buffer, ready for the next request.\<close>

theorem app_serves:
  assumes "conn_at fd c s w" "ctx_data c w = ([], n, e, ip)" "n + 1 < MAX_REQUESTS" "fresh_alloc (fd_alloc a)"
    and "plain_request m path version hs body" "flat_lookup hs ''Connection'' \<noteq> ''close''"
    and "concat pieces = render_head m path version hs @ body" "[] \<notin> set pieces"
    and "rq = set_body body (parsed_head m path hs)" "let_through a rq" "answers a (set_remote_addr ip rq) rq' r'"
    and "w' = deliver a fd pieces w"
  shows "out_log w' = out_log w @ map (\<lambda>x. (s, Gave x)) (o_sent (send_response (http_date a) True (n + 1) rq' r'))
    \<and> ctx_data c w' = ([], n + 1, False, ip) \<and> cnt_requests w' = cnt_requests w + 1 \<and> conn_at fd c s w'"
proof -
  have "pieces \<noteq> []" using assms(7) by (auto simp: render_head_def)
  moreover have "header rq ''Connection'' \<noteq> ''close''" using assms(6,9) by (simp add: header_def parsed_head_def)
  ultimately show ?thesis
    using deliver_answers [OF assms(4,5,9,10,11) _ assms(3), of fd c s w "[]" e pieces] assms(1,2,7,8,12) by simp
qed

text \<open>A configuration with the kernel's rule that a new descriptor is the lowest one free.\<close>

definition lowest_free :: "nat list \<Rightarrow> nat option" where
  "lowest_free used = find (\<lambda>n. n \<notin> set used) [0..<Suc (length used)]"

definition text_handler :: "string \<Rightarrow> app_handler" where
  "text_handler s = Handler (\<lambda>v rq r. (None, set_rbody s r))"

definition small_app :: app where
  "small_app =
     \<lparr> app_router = add_route Get ''/bb'' (Some (text_handler ''B'')) (add_route Get ''/aa'' (Some (text_handler ''A'')) Router),
       run_mw = (\<lambda>i rq r. (True, r)), error_handler = None, ws_routes = [], http_date = ''now'', fd_alloc = lowest_free,
       params_order = (\<lambda>params. []) \<rparr>"

lemma lowest_free_fresh: "fresh_alloc lowest_free"
  by (auto simp: fresh_alloc_def lowest_free_def find_Some_iff)

lemma small_accepts:
  "conn_at 2 0 0 (on_accept small_app ''10.0.0.1'' (listen 0))"
  "ctx_data 0 (on_accept small_app ''10.0.0.1'' (listen 0)) = ([], 0, False, ''10.0.0.1'')"
  "out_log (on_accept small_app ''10.0.0.1'' (listen 0)) = []"
proof -
  let ?w = "listen 0"
  have f: "open_fds ?w = [(1, Listener), (0, EventFile)]" "event_fd ?w = 0" "max_connections ?w = 0" "\<not> draining ?w" "sockets ?w = 0"
    "ctxs ?w = []" "out_log ?w = []" "map_of (fd_callbacks ?w) 2 = None" "timers_by_id ?w = []" "timerfd_to_id ?w = []" "next_timer_id ?w = 1"
    by (simp_all add: listen_def register_event_def update_epoll_def epoll_add_def no_callbacks_def Let_def)
  have wf: "reactor_wf ?w" by (simp add: reactor_wf_def f)
  have a: "fd_alloc small_app (map fst (open_fds ?w)) = Some 2" by (simp add: small_app_def f lowest_free_def)
  have al: "fresh_alloc (fd_alloc small_app)" by (simp add: small_app_def lowest_free_fresh)
  note r = accept_conn [OF wf listen_inv al a, of 0 "''10.0.0.1''"]
  show "conn_at 2 0 0 (on_accept small_app ''10.0.0.1'' (listen 0))" using r(1) f by simp
  show "ctx_data 0 (on_accept small_app ''10.0.0.1'' (listen 0)) = ([], 0, False, ''10.0.0.1'')" using r(2) f by simp
  show "out_log (on_accept small_app ''10.0.0.1'' (listen 0)) = []" using r(3) f by simp
qed

lemma small_answers:
  "answers small_app (set_remote_addr ''10.0.0.1'' (set_body [] (parsed_head ''GET'' ''/aa'' [])))
     (set_remote_addr ''10.0.0.1'' (set_body [] (parsed_head ''GET'' ''/aa'' []))) (set_rbody ''A'' Response)"
proof -
  let ?rq = "set_remote_addr ''10.0.0.1'' (set_body [] (parsed_head ''GET'' ''/aa'' []))"
  have r: "rq_method ?rq = Get" "rq_path ?rq = ''/aa''"
    by (simp_all add: set_remote_addr_def set_body_def parsed_head_def set_path_def set_method_def Request_def string_to_method_def)
  have "match_route Get ''/aa'' Map.empty (app_router small_app) = (Some (text_handler ''A''), Map.empty)"
    by (simp add: small_app_def match_route_def router_eval lower_bound.simps search_recursive.simps)
  then have "route small_app ?rq = (Some (text_handler ''A''), Map.empty, False)" by (simp add: route_def r)
  moreover have "middlewares (app_router small_app) = []" "\<not> has_async_mw (app_router small_app)"
    by (simp_all add: small_app_def add_route_def Router_def)
  moreover have "add_params small_app Map.empty ?rq = ?rq" by (simp add: add_params_def small_app_def)
  ultimately show ?thesis
    unfolding answers_def text_handler_def
    by (intro conjI exI [of _ Response] exI [of _ "\<lambda>rq r. (None, set_rbody ''A'' r)"] exI [of _ Map.empty] exI [of _ False])
      (simp_all add: run_handler_def)
qed

theorem app_serves_witness:
  "out_log (deliver small_app 2 [''GE'', ''T /aa HTTP/1.1'' @ [CR, LF, CR, LF]] (on_accept small_app ''10.0.0.1'' (listen 0))) =
     map (\<lambda>x. (0, Gave x)) (o_sent (send_response ''now'' True 1
       (set_remote_addr ''10.0.0.1'' (set_body [] (parsed_head ''GET'' ''/aa'' []))) (set_rbody ''A'' Response)))"
proof -
  let ?w = "on_accept small_app ''10.0.0.1'' (listen 0)" and ?p = "[''GE'', ''T /aa HTTP/1.1'' @ [CR, LF, CR, LF]]"
  have "plain_request ''GET'' ''/aa'' ''HTTP/1.1'' [] []"
    by (simp add: plain_request_def announces_def clean_head_def render_head_def kMaxInlineHeaders_def MAX_HEADER_SIZE_def)
  moreover have "let_through small_app (set_body [] (parsed_head ''GET'' ''/aa'' []))"
    by (simp add: let_through_def parsed_head_def set_body_def set_path_def set_method_def Request_def header_def small_app_def
        bad_path_def find_npos_def is_websocket_def)
  moreover have "fresh_alloc (fd_alloc small_app)" by (simp add: small_app_def lowest_free_fresh)
  ultimately have "out_log (deliver small_app 2 ?p ?w) = out_log ?w @ map (\<lambda>x. (0, Gave x)) (o_sent (send_response (http_date small_app) True (0 + 1)
       (set_remote_addr ''10.0.0.1'' (set_body [] (parsed_head ''GET'' ''/aa'' []))) (set_rbody ''A'' Response)))"
    using app_serves [OF small_accepts(1,2) _ _ _ _ _ _ refl _ small_answers refl, where pieces = ?p and version = "''HTTP/1.1''"]
    by (simp add: MAX_REQUESTS_def render_head_def)
  then show ?thesis using small_accepts(3) by (simp add: small_app_def)
qed

end
