(* ===== verification/App_Runs.thy ===== *)
theory App_Runs
  imports App_Serves "HOL-Library.Code_Target_Nat"
begin

text \<open>
  Runs of the application, evaluated: one in which the timers are tracked, and three in which a connection or a request is not treated as it should be: a timer that
  outlives its connection, an event that is older than the timer it fires, and a request whose fields are read after the
  buffer they point into has moved.
\<close>

definition get_text :: "string \<Rightarrow> string" where
  "get_text path = ''GET '' @ path @ '' HTTP/1.1'' @ [CR, LF, CR, LF]"

definition ready :: "nat \<Rightarrow> input \<Rightarrow> input event" where
  "ready fd i = (fd, True, False, i)"

definition run_app :: "app \<Rightarrow> input event list list \<Rightarrow> world" where
  "run_app a batches = fold (app_poll a) batches (listen 0)"

fun body_of :: "nat \<times> log_entry \<Rightarrow> string" where
  "body_of (s, Gave (SentV hdr body)) = body"
| "body_of (s, Gave x) = ''?''"
| "body_of (s, Closed) = ''closed''"
| "body_of (s, HandedOver) = ''handed over''"

text \<open>A route for every path, whose handler answers with the path it was given.\<close>

definition echo_app :: app where
  "echo_app = small_app\<lparr>app_router := add_prefix_route Get ''/'' (Some (Handler (\<lambda>v rq r. (None, set_rbody (rq_path rq) r)))) Router\<rparr>"

theorem conn_timers_tracked_witness:
  "timers_tracked (run_app small_app [[ready 1 (Accepted ''10.0.0.1'')], [ready 2 (Bytes ''GET'')]])
   \<and> length (timers_by_id (run_app small_app [[ready 1 (Accepted ''10.0.0.1'')], [ready 2 (Bytes ''GET'')]])) = 2"
proof -
  let ?b = "[[ready 1 (Accepted ''10.0.0.1'')], [ready 2 (Bytes ''GET'')]]"
  have "timers_made (run_app small_app ?b) < 2 ^ 31 - 1 \<and> length (timers_by_id (run_app small_app ?b)) = 2" by code_simp
  then show ?thesis using conn_timers_tracked [of "run_app small_app ?b" small_app ?b 0 0] by (simp add: run_app_def)
qed

text \<open>The read timeout closes a connection without stopping its idle timer. A client that sends part of a request is
  closed at the read timeout (descriptor 3 is its timer); the next client gets its descriptor; when the idle timer of
  the first (descriptor 4) fires, it closes the second client, which has done nothing.\<close>

lemma idle_timer_closes_other:
  "out_log (run_app small_app
     [[ready 1 (Accepted ''10.0.0.1'')], [ready 2 (Bytes ''GET'')], [ready 3 Nothing], [ready 1 (Accepted ''10.0.0.2'')], [ready 4 Nothing]]) =
   [(0, Gave (Sent (serialize timeout_response))), (0, Closed), (1, Closed)]"
  by code_simp

text \<open>An event of a batch may be older than the timer it fires. The idle timer (descriptor 3) expires in the same
  batch in which a request arrives; serving the request stops that timer and starts a new one on the same descriptor,
  and the event left in the batch fires the new timer at once: the connection that has just been answered with
  keep-alive is closed.\<close>

lemma stale_event_fires_new_timer:
  "map body_of (out_log (run_app small_app
     [[ready 1 (Accepted ''10.0.0.1'')], [ready 2 (Bytes (get_text ''/aa'')), ready 3 Nothing]])) = [''A'', ''closed'']"
  by code_simp

text \<open>When a second request is in the buffer, erasing the first moves the second under the views of the first. The
  path guard has looked at the first path; routing and the handler read the second one, which the guard refuses.\<close>

lemma pipelined_path_unguarded:
  "map body_of (out_log (run_app echo_app
     [[ready 1 (Accepted ''10.0.0.1'')], [ready 2 (Bytes (get_text ''/aaaaaa'' @ get_text ''/../etc''))]])) = [''/../etc'']
   \<and> bad_path ''/../etc'' \<and> \<not> bad_path ''/aaaaaa''"
  by code_simp

text \<open>The guard compares with a length that wraps: it refuses every path of two characters, and lets one through that ends
  in two dots when it holds two dots before.\<close>

lemma guard_two_characters: "bad_path [CHR ''/'', c]"
  by (simp add: bad_path_def find_npos_def)

lemma guard_misses_suffix: "\<not> bad_path ''/..a/..''"
  by code_simp

text \<open>A connection on a Unix socket has no guard at all.\<close>

lemma unix_path_unguarded:
  "map body_of (out_log (fold (app_poll echo_app)
     [[ready 2 (Accepted [])], [ready 3 (Bytes (get_text ''/../etc''))]] (listen_unix 2 (listen 0)))) = [''/../etc'']"
  by code_simp

text \<open>The overload answer announces 37 bytes and carries 32.\<close>

lemma overload_short:
  "find_sub [CR, LF, CR, LF] kOverload = Some (length kOverload - 4 - 32 - 4) \<and> find_sub ''Content-Length: 37'' kOverload \<noteq> None"
  by code_simp

end
