(* ===== verification/Circuit_Breaker.thy ===== *)
theory Circuit_Breaker
  imports Prelude
begin

text \<open>
  \<open>CircuitBreaker\<close> and \<open>CircuitBreakerAction\<close> of \<open>include/qbuem/pipeline/circuit_breaker.hpp\<close>. The calls of the state
  change callback are kept in a list. The operations are given twice: as one thread runs them, and cut where the code takes or
  releases its mutex or touches an atomic, as the steps of any number of threads that share a breaker; the pieces compose to
  the operations. Times are nanoseconds of the steady
  clock.
\<close>

section \<open>The breaker\<close>

datatype cb_state = Closed | Open | HalfOpen

record cb_config =
  failure_threshold :: nat
  success_threshold :: nat
  timeout :: int

record breaker =
  cb_state :: cb_state
  failures :: nat
  successes :: nat
  opened_at :: int
  changes :: "(cb_state \<times> cb_state) list"

definition CircuitBreaker :: breaker where
  "CircuitBreaker = \<lparr> cb_state = Closed, failures = 0, successes = 0, opened_at = 0, changes = [] \<rparr>"

definition size_inc :: "nat \<Rightarrow> nat" where
  "size_inc n = (n + 1) mod 2 ^ 64"

definition transition :: "int \<Rightarrow> cb_state \<Rightarrow> breaker \<Rightarrow> breaker" where
  "transition now to b =
     (let b' = b\<lparr>cb_state := to\<rparr>;
          b'' = (case to of
                   Open \<Rightarrow> b'\<lparr>opened_at := now, failures := 0, successes := 0\<rparr>
                 | Closed \<Rightarrow> b'\<lparr>failures := 0, successes := 0\<rparr>
                 | HalfOpen \<Rightarrow> b'\<lparr>successes := 0\<rparr>)
      in b''\<lparr>changes := changes b @ [(cb_state b, to)]\<rparr>)"

definition try_recover :: "cb_config \<Rightarrow> int \<Rightarrow> breaker \<Rightarrow> breaker" where
  "try_recover cfg now b =
     (if cb_state b \<noteq> Open then b
      else if now - opened_at b \<ge> timeout cfg * 1000000 then transition now HalfOpen b else b)"

definition allow_locked :: "cb_config \<Rightarrow> int \<Rightarrow> breaker \<Rightarrow> bool \<times> breaker" where
  "allow_locked cfg now b = (let b' = try_recover cfg now b in (cb_state b' \<noteq> Open, b'))"

definition allow_request :: "cb_config \<Rightarrow> int \<Rightarrow> breaker \<Rightarrow> bool \<times> breaker" where
  "allow_request cfg now b = (if cb_state b \<noteq> Open then (True, b) else allow_locked cfg now b)"

definition clear_failures :: "breaker \<Rightarrow> breaker" where
  "clear_failures b = b\<lparr>failures := 0\<rparr>"

definition success_locked :: "cb_config \<Rightarrow> int \<Rightarrow> breaker \<Rightarrow> breaker" where
  "success_locked cfg now b =
     (case cb_state b of
        Closed \<Rightarrow> clear_failures b
      | HalfOpen \<Rightarrow>
          (let b' = b\<lparr>successes := size_inc (successes b)\<rparr> in
           if successes b' \<ge> success_threshold cfg then transition now Closed b' else b')
      | Open \<Rightarrow> b)"

definition record_success :: "cb_config \<Rightarrow> int \<Rightarrow> breaker \<Rightarrow> breaker" where
  "record_success cfg now b = (if cb_state b = Closed then clear_failures b else success_locked cfg now b)"

definition fetch_add_failures :: "breaker \<Rightarrow> nat \<times> breaker" where
  "fetch_add_failures b = (failures b, b\<lparr>failures := size_inc (failures b)\<rparr>)"

definition open_locked :: "int \<Rightarrow> breaker \<Rightarrow> breaker" where
  "open_locked now b = (if cb_state b = Closed then transition now Open b else b)"

definition failure_locked :: "cb_config \<Rightarrow> int \<Rightarrow> breaker \<Rightarrow> breaker" where
  "failure_locked cfg now b =
     (case cb_state b of
        Closed \<Rightarrow>
          (case fetch_add_failures b of (f, b') \<Rightarrow>
             if size_inc f \<ge> failure_threshold cfg then transition now Open b' else b')
      | HalfOpen \<Rightarrow> transition now Open b
      | Open \<Rightarrow> b)"

definition record_failure :: "cb_config \<Rightarrow> int \<Rightarrow> breaker \<Rightarrow> breaker" where
  "record_failure cfg now b =
     (if cb_state b = Closed then
        (case fetch_add_failures b of (f, b') \<Rightarrow>
           if size_inc f \<ge> failure_threshold cfg then open_locked now b' else b')
      else failure_locked cfg now b)"

definition reset_breaker :: "breaker \<Rightarrow> breaker" where
  "reset_breaker b = b\<lparr>failures := 0, successes := 0, cb_state := Closed, opened_at := 0\<rparr>"

text \<open>An action under the breaker: the result of the inner function, or \<open>None\<close> for the refusal with
  \<open>connection_refused\<close>. The inner function ends at \<open>now'\<close>.\<close>

definition cb_action :: "cb_config \<Rightarrow> ('e + 'o) \<Rightarrow> int \<Rightarrow> int \<Rightarrow> breaker \<Rightarrow> ('e + 'o) option \<times> breaker" where
  "cb_action cfg result now now' b =
     (case allow_request cfg now b of
        (False, b') \<Rightarrow> (None, b')
      | (True, b') \<Rightarrow>
          (Some result, (case result of Inr _ \<Rightarrow> record_success cfg now' b' | Inl _ \<Rightarrow> record_failure cfg now' b')))"

section \<open>Threads\<close>

text \<open>Where a thread stands: outside, before the mutex of an operation, in the inner function of \<open>operator()\<close>, at a lock-free piece of
  \<open>record_success\<close> and \<open>record_failure\<close>, or inside the mutex between two stores that other threads can see: in \<open>transition\<close> before
  the state is stored, before the counters are, and before the callback, and in \<open>reset\<close> before the state is stored and after.\<close>

datatype cb_pc =
    Idle
  | AllowLock
  | Running
  | SuccStore
  | SuccLock
  | FailAdd
  | OpenLock
  | FailLock
  | ResetLock
  | TrState cb_state
  | TrCounters cb_state cb_state
  | TrCall cb_state cb_state
  | RsState
  | RsTime

text \<open>What is remembered of a run: the calls of the callback and the resets, in order.\<close>

datatype cb_event = Moved cb_state cb_state | WasReset

fun wants :: "cb_pc \<Rightarrow> bool" where
  "wants AllowLock = True"
| "wants SuccLock = True"
| "wants OpenLock = True"
| "wants FailLock = True"
| "wants ResetLock = True"
| "wants _ = False"

fun holds :: "cb_pc \<Rightarrow> bool" where
  "holds (TrState to) = True"
| "holds (TrCounters from to) = True"
| "holds (TrCall from to) = True"
| "holds RsState = True"
| "holds RsTime = True"
| "holds _ = False"

text \<open>From taking the mutex to the first store others can see, or to releasing it.\<close>

fun enter :: "cb_config \<Rightarrow> int \<Rightarrow> cb_pc \<Rightarrow> breaker \<Rightarrow> breaker \<times> cb_pc" where
  "enter cfg now AllowLock b =
     (b, if cb_state b \<noteq> Open then Running else if now - opened_at b \<ge> timeout cfg * 1000000 then TrState HalfOpen else Idle)"
| "enter cfg now SuccLock b =
     (case cb_state b of
        Closed \<Rightarrow> (clear_failures b, Idle)
      | HalfOpen \<Rightarrow>
          (let b' = b\<lparr>successes := size_inc (successes b)\<rparr> in
           (b', if successes b' \<ge> success_threshold cfg then TrState Closed else Idle))
      | Open \<Rightarrow> (b, Idle))"
| "enter cfg now OpenLock b = (b, if cb_state b = Closed then TrState Open else Idle)"
| "enter cfg now FailLock b =
     (case cb_state b of
        Closed \<Rightarrow>
          (case fetch_add_failures b of (f, b') \<Rightarrow> (b', if size_inc f \<ge> failure_threshold cfg then TrState Open else Idle))
      | HalfOpen \<Rightarrow> (b, TrState Open)
      | Open \<Rightarrow> (b, Idle))"
| "enter cfg now ResetLock b = (b\<lparr>failures := 0, successes := 0\<rparr>, RsState)"
| "enter cfg now p b = (b, p)"

text \<open>A store under the mutex, or the callback.\<close>

fun under :: "int \<Rightarrow> cb_pc \<Rightarrow> breaker \<Rightarrow> breaker \<times> cb_pc \<times> cb_event list" where
  "under now (TrState to) b = (b\<lparr>cb_state := to\<rparr>, TrCounters (cb_state b) to, [])"
| "under now (TrCounters from to) b =
     ((case to of
         Open \<Rightarrow> b\<lparr>opened_at := now, failures := 0, successes := 0\<rparr>
       | Closed \<Rightarrow> b\<lparr>failures := 0, successes := 0\<rparr>
       | HalfOpen \<Rightarrow> b\<lparr>successes := 0\<rparr>), TrCall from to, [])"
| "under now (TrCall from to) b =
     (b\<lparr>changes := changes b @ [(from, to)]\<rparr>, if to = HalfOpen then Running else Idle, [Moved from to])"
| "under now RsState b = (b\<lparr>cb_state := Closed\<rparr>, RsTime, [WasReset])"
| "under now RsTime b = (b\<lparr>opened_at := 0\<rparr>, Idle, [])"
| "under now p b = (b, p, [])"

text \<open>The breaker, the thread that holds its mutex, the threads, the clock and the events.\<close>

type_synonym cb_conf = "breaker \<times> nat option \<times> (nat \<Rightarrow> cb_pc) \<times> int \<times> cb_event list"

definition owner :: "nat \<Rightarrow> cb_pc \<Rightarrow> nat option" where
  "owner t p = (if holds p then Some t else None)"

inductive cb_step :: "cb_config \<Rightarrow> cb_conf \<Rightarrow> cb_conf \<Rightarrow> bool"
  for cfg where
  tick: "now \<le> now' \<Longrightarrow> cb_step cfg (b, m, pc, now, h) (b, m, pc, now', h)"
| allow_load: "pc t = Idle \<Longrightarrow>
    cb_step cfg (b, m, pc, now, h) (b, m, pc(t := if cb_state b \<noteq> Open then Running else AllowLock), now, h)"
| reset_call: "pc t = Idle \<Longrightarrow> cb_step cfg (b, m, pc, now, h) (b, m, pc(t := ResetLock), now, h)"
| succ_load: "pc t = Running \<Longrightarrow>
    cb_step cfg (b, m, pc, now, h) (b, m, pc(t := if cb_state b = Closed then SuccStore else SuccLock), now, h)"
| succ_store: "pc t = SuccStore \<Longrightarrow> cb_step cfg (b, m, pc, now, h) (clear_failures b, m, pc(t := Idle), now, h)"
| fail_load: "pc t = Running \<Longrightarrow>
    cb_step cfg (b, m, pc, now, h) (b, m, pc(t := if cb_state b = Closed then FailAdd else FailLock), now, h)"
| fail_add: "pc t = FailAdd \<Longrightarrow> fetch_add_failures b = (f, b') \<Longrightarrow>
    cb_step cfg (b, m, pc, now, h) (b', m, pc(t := if size_inc f \<ge> failure_threshold cfg then OpenLock else Idle), now, h)"
| lock: "wants (pc t) \<Longrightarrow> enter cfg now (pc t) b = (b', p) \<Longrightarrow>
    cb_step cfg (b, None, pc, now, h) (b', owner t p, pc(t := p), now, h)"
| locked: "holds (pc t) \<Longrightarrow> under now (pc t) b = (b', p, es) \<Longrightarrow>
    cb_step cfg (b, Some t, pc, now, h) (b', owner t p, pc(t := p), now, h @ es)"

inductive cb_steps :: "cb_config \<Rightarrow> cb_conf \<Rightarrow> cb_conf \<Rightarrow> bool"
  for cfg where
  refl: "cb_steps cfg c c"
| step: "cb_steps cfg c c' \<Longrightarrow> cb_step cfg c' c'' \<Longrightarrow> cb_steps cfg c c''"

inductive_cases cb_stepE: "cb_step cfg (b, m, pc, now, h) (b', m', pc', now', h')"

lemmas cb_pieces = transition_def try_recover_def allow_locked_def clear_failures_def success_locked_def
  fetch_add_failures_def open_locked_def failure_locked_def Let_def

text \<open>A section under the mutex, run to its end at one time, is the operation that one thread runs.\<close>

fun to_end :: "nat \<Rightarrow> int \<Rightarrow> breaker \<times> cb_pc \<Rightarrow> breaker \<times> cb_pc" where
  "to_end 0 now (b, p) = (b, p)"
| "to_end (Suc n) now (b, p) = (case under now p b of (b', p', es) \<Rightarrow> to_end n now (b', p'))"

lemma sections_compose:
  "to_end 3 now (enter cfg now AllowLock b) = (case allow_locked cfg now b of (ok, b') \<Rightarrow> (b', if ok then Running else Idle))"
  "to_end 3 now (enter cfg now SuccLock b) = (success_locked cfg now b, Idle)"
  "to_end 3 now (enter cfg now OpenLock b) = (open_locked now b, Idle)"
  "to_end 3 now (enter cfg now FailLock b) = (failure_locked cfg now b, Idle)"
  "to_end 3 now (enter cfg now ResetLock b) = (reset_breaker b, Idle)"
  by (auto simp: cb_pieces reset_breaker_def eval_nat_numeral split: cb_state.split)

section \<open>Properties\<close>

text \<open>The transitions the state machine has, and the walks of callbacks and resets.\<close>

fun legal_edge :: "cb_state \<times> cb_state \<Rightarrow> bool" where
  "legal_edge (Closed, Open) = True"
| "legal_edge (Open, HalfOpen) = True"
| "legal_edge (HalfOpen, Closed) = True"
| "legal_edge (HalfOpen, Open) = True"
| "legal_edge _ = False"

fun walk :: "cb_state \<Rightarrow> cb_event list \<Rightarrow> cb_state \<Rightarrow> bool" where
  "walk s [] s' \<longleftrightarrow> s = s'"
| "walk s (Moved f t # es) s' \<longleftrightarrow> f = s \<and> legal_edge (f, t) \<and> walk t es s'"
| "walk s (WasReset # es) s' \<longleftrightarrow> walk Closed es s'"

fun moves :: "cb_event list \<Rightarrow> (cb_state \<times> cb_state) list" where
  "moves [] = []"
| "moves (Moved f t # es) = (f, t) # moves es"
| "moves (WasReset # es) = moves es"

lemma walk_append: "walk s es s' \<Longrightarrow> walk s' es' s'' \<Longrightarrow> walk s (es @ es') s''"
  by (induction s es s' rule: walk.induct) auto

lemma moves_append [simp]: "moves (es @ es') = moves es @ moves es'"
  by (induction es rule: moves.induct) auto

text \<open>The state that has been reported: that of the breaker, but for a transition between its store and its callback.\<close>

fun reported_at :: "breaker \<Rightarrow> cb_pc \<Rightarrow> cb_state" where
  "reported_at b (TrCounters from to) = from"
| "reported_at b (TrCall from to) = from"
| "reported_at b p = cb_state b"

definition reported :: "breaker \<Rightarrow> nat option \<Rightarrow> (nat \<Rightarrow> cb_pc) \<Rightarrow> cb_state" where
  "reported b m pc = (case m of None \<Rightarrow> cb_state b | Some t \<Rightarrow> reported_at b (pc t))"

fun pc_legal :: "breaker \<Rightarrow> cb_pc \<Rightarrow> bool" where
  "pc_legal b (TrState to) \<longleftrightarrow> legal_edge (cb_state b, to)"
| "pc_legal b (TrCounters from to) \<longleftrightarrow> cb_state b = to \<and> legal_edge (from, to)"
| "pc_legal b (TrCall from to) \<longleftrightarrow> cb_state b = to \<and> legal_edge (from, to)"
| "pc_legal b p \<longleftrightarrow> True"

definition lock_ok :: "breaker \<Rightarrow> nat option \<Rightarrow> (nat \<Rightarrow> cb_pc) \<Rightarrow> bool" where
  "lock_ok b m pc \<longleftrightarrow> (\<forall>t. holds (pc t) \<longleftrightarrow> m = Some t) \<and> (\<forall>t. pc_legal b (pc t))"

lemma not_holding: "\<not> holds p \<Longrightarrow> pc_legal b p \<and> reported_at b p = cb_state b"
  by (cases p) auto

lemma same_state: "cb_state b' = cb_state b \<Longrightarrow> pc_legal b' p = pc_legal b p \<and> reported_at b' p = reported_at b p"
  by (cases p) auto

lemma wants_not_holding: "wants p \<Longrightarrow> \<not> holds p"
  by (cases p) auto

lemma enter_facts:
  assumes "wants p0" "enter cfg now p0 b = (b', p)"
  shows "cb_state b' = cb_state b \<and> changes b' = changes b \<and> pc_legal b' p \<and> reported_at b' p = cb_state b"
  using assms by (cases p0) (auto simp: clear_failures_def fetch_add_failures_def Let_def split: cb_state.splits if_splits)

lemma under_facts:
  assumes "holds p0" "pc_legal b p0" "under now p0 b = (b', p, es)"
  shows "pc_legal b' p \<and> changes b' = changes b @ moves es \<and> walk (reported_at b p0) es (reported_at b' p)"
  using assms by (cases p0) (auto split: cb_state.splits)

text \<open>A step outside the mutex changes neither the state nor what is reported.\<close>

lemma free_move:
  assumes "lock_ok b m pc" "\<not> holds (pc t)" "\<not> holds p" "cb_state b' = cb_state b"
  shows "lock_ok b' m (pc(t := p)) \<and> reported b' m (pc(t := p)) = reported b m pc"
  using assms not_holding [of p b'] same_state [OF assms(4)] by (auto simp: lock_ok_def reported_def split: option.split)

text \<open>The thread with the mutex, when no other thread has it.\<close>

lemma owned_move:
  assumes "\<forall>u. u \<noteq> t \<longrightarrow> \<not> holds (pc u)" "pc_legal b' p"
  shows "lock_ok b' (owner t p) (pc(t := p)) \<and> reported b' (owner t p) (pc(t := p)) = reported_at b' p"
  using assms not_holding by (auto simp: lock_ok_def reported_def owner_def)

definition tells :: "breaker \<Rightarrow> nat option \<Rightarrow> (nat \<Rightarrow> cb_pc) \<Rightarrow> cb_event list \<Rightarrow> breaker \<Rightarrow> nat option \<Rightarrow> (nat \<Rightarrow> cb_pc) \<Rightarrow> bool" where
  "tells b m pc es b' m' pc' \<longleftrightarrow> changes b' = changes b @ moves es \<and> walk (reported b m pc) es (reported b' m' pc')"

lemma cb_step_tells:
  assumes "cb_step cfg (b, m, pc, now, h) (b', m', pc', now', h')" and ok: "lock_ok b m pc"
  shows "lock_ok b' m' pc' \<and> (\<exists>es. h' = h @ es \<and> tells b m pc es b' m' pc')"
  using assms(1)
proof (cases rule: cb_step.cases)
  case (lock t p)
  then have l: "m = None" "m' = owner t p" "pc' = pc(t := p)" "h' = h" "wants (pc t)" "enter cfg now (pc t) b = (b', p)" by auto
  have "\<forall>u. \<not> holds (pc u)" using ok l(1) by (simp add: lock_ok_def)
  with owned_move [of t pc b' p] enter_facts [OF l(5,6)] show ?thesis unfolding l by (auto simp: tells_def reported_def)
next
  case (locked t p es)
  then have l: "m = Some t" "m' = owner t p" "pc' = pc(t := p)" "h' = h @ es" "holds (pc t)" "under now (pc t) b = (b', p, es)" by auto
  have "\<forall>u. u \<noteq> t \<longrightarrow> \<not> holds (pc u)" "pc_legal b (pc t)" using ok l(1) by (auto simp: lock_ok_def)
  with owned_move [of t pc b' p] under_facts [OF l(5) _ l(6)] show ?thesis unfolding l by (auto simp: tells_def reported_def)
qed (use ok free_move [OF ok, of _ _ b'] in \<open>auto simp: tells_def clear_failures_def fetch_add_failures_def\<close>)

lemma cb_steps_tell:
  "cb_steps cfg c c' \<Longrightarrow> c = (b, m, pc, now, h) \<Longrightarrow> c' = (b', m', pc', now', h') \<Longrightarrow> lock_ok b m pc \<Longrightarrow>
     lock_ok b' m' pc' \<and> (\<exists>es. h' = h @ es \<and> tells b m pc es b' m' pc')"
proof (induction arbitrary: b' m' pc' now' h' rule: cb_steps.induct)
  case (step c c1 c2)
  obtain b1 m1 pc1 n1 h1 where c1: "c1 = (b1, m1, pc1, n1, h1)" by (cases c1)
  then obtain es1 where 1: "lock_ok b1 m1 pc1" "h1 = h @ es1" "tells b m pc es1 b1 m1 pc1" using step by blast
  obtain es2 where 2: "lock_ok b' m' pc'" "h' = h1 @ es2" "tells b1 m1 pc1 es2 b' m' pc'"
    using cb_step_tells [OF step.hyps(2) [unfolded c1 step.prems(2)] 1(1)] by blast
  have "tells b m pc (es1 @ es2) b' m' pc'" using 1(3) 2(3) walk_append by (auto simp: tells_def)
  with 1 2 show ?case by auto
qed (auto simp: tells_def)

text \<open>Threads that are not in the inner function and not about to enter it.\<close>

fun outside :: "cb_pc \<Rightarrow> bool" where
  "outside Idle = True"
| "outside AllowLock = True"
| "outside ResetLock = True"
| "outside RsState = True"
| "outside RsTime = True"
| "outside p = False"

text \<open>Open since a time, with no transition under way.\<close>

definition held_open :: "int \<Rightarrow> breaker \<Rightarrow> (nat \<Rightarrow> cb_pc) \<Rightarrow> bool" where
  "held_open since b pc \<longleftrightarrow> cb_state b = Open \<and> opened_at b = since \<and> (\<forall>t. holds (pc t) \<longrightarrow> pc t = RsState)"

lemma cb_step_holds_open:
  assumes "cb_step cfg (b, m, pc, now, h) (b', m', pc', now', h')" "held_open since b pc"
    and "now' < since + timeout cfg * 1000000" "\<forall>t \<in> T. outside (pc t)"
  shows "now \<le> now' \<and> (\<exists>es. h' = h @ es \<and> (WasReset \<notin> set es \<longrightarrow> held_open since b' pc' \<and> (\<forall>t \<in> T. outside (pc' t))))"
  using assms(1)
proof (cases rule: cb_step.cases)
  case (lock t p)
  then show ?thesis using assms(2-4) by (cases "pc t") (auto simp: held_open_def owner_def)
next
  case (locked t p es)
  then have "pc t = RsState" using assms(2) by (simp add: held_open_def)
  with locked have "es = [WasReset]" by auto
  with locked show ?thesis by auto
qed (use assms(2-4) in \<open>auto simp: held_open_def clear_failures_def fetch_add_failures_def\<close>)

lemma cb_steps_hold_open:
  "cb_steps cfg c c' \<Longrightarrow> c = (b, m, pc, now, h) \<Longrightarrow> c' = (b', m', pc', now', h') \<Longrightarrow> held_open since b pc \<Longrightarrow>
     now' < since + timeout cfg * 1000000 \<Longrightarrow> \<forall>t \<in> T. outside (pc t) \<Longrightarrow>
     \<exists>es. h' = h @ es \<and> (WasReset \<notin> set es \<longrightarrow> held_open since b' pc' \<and> (\<forall>t \<in> T. outside (pc' t)))"
proof (induction arbitrary: b' m' pc' now' h' rule: cb_steps.induct)
  case (step c c1 c2)
  obtain b1 m1 pc1 n1 h1 where c1: "c1 = (b1, m1, pc1, n1, h1)" by (cases c1)
  have st: "cb_step cfg (b1, m1, pc1, n1, h1) (b', m', pc', now', h')" using step.hyps(2) c1 step.prems(2) by simp
  have "n1 \<le> now'" using st by (cases rule: cb_stepE) auto
  then obtain es1 where 1: "h1 = h @ es1" "WasReset \<notin> set es1 \<longrightarrow> held_open since b1 pc1 \<and> (\<forall>t \<in> T. outside (pc1 t))"
    using step.IH [OF step.prems(1) c1 step.prems(3) _ step.prems(5)] step.prems(4) by auto
  show ?case
  proof (cases "WasReset \<in> set es1")
    case True
    obtain es2 where "h' = h1 @ es2" using st by (cases rule: cb_stepE) auto
    then show ?thesis using True 1 by auto
  next
    case False
    then obtain es2 where "h' = h1 @ es2" "WasReset \<notin> set es2 \<longrightarrow> held_open since b' pc' \<and> (\<forall>t \<in> T. outside (pc' t))"
      using cb_step_holds_open [OF st _ step.prems(4), of T] 1 by auto
    then show ?thesis using False 1 by auto
  qed
qed auto

text \<open>C9: Threads sharing a breaker. They call the action, and \<open>reset\<close>, in any interleaving of their accesses to the atomics and of their
  sections under the mutex. The calls of the state change callback and the resets, in order, are a walk of the state machine from
  the state at the start to the current one, or, between the store and the callback of a transition, to the one it leaves: one
  call for each change but those made by a reset, and no change reported twice. And while an open breaker is not reset and its timeout has
  not passed, it stays open and no thread that was outside the inner function gets into it.\<close>

theorem breaker_threads:
  assumes "cb_steps cfg (b, None, pc, now, h) (b', m', pc', now', h')" "\<forall>t. \<not> holds (pc t)"
  shows "\<exists>es. h' = h @ es \<and> changes b' = changes b @ moves es \<and> walk (cb_state b) es (reported b' m' pc') \<and>
    (cb_state b = Open \<and> now' < opened_at b + timeout cfg * 1000000 \<and> WasReset \<notin> set es \<longrightarrow>
      cb_state b' = Open \<and> (\<forall>t. outside (pc t) \<longrightarrow> outside (pc' t)))"
proof -
  have ok: "lock_ok b None pc" using assms(2) not_holding by (simp add: lock_ok_def)
  obtain es where es: "h' = h @ es" "tells b None pc es b' m' pc'" using cb_steps_tell [OF assms(1) HOL.refl HOL.refl ok] by blast
  have "cb_state b' = Open \<and> (\<forall>t. outside (pc t) \<longrightarrow> outside (pc' t))"
    if "cb_state b = Open" "now' < opened_at b + timeout cfg * 1000000" "WasReset \<notin> set es"
    using cb_steps_hold_open [OF assms(1) HOL.refl HOL.refl, of "opened_at b" "{t. outside (pc t)}"] assms(2) that es(1)
    by (auto simp: held_open_def)
  with es show ?thesis by (intro exI [of _ es]) (simp add: tells_def reported_def)
qed

theorem breaker_threads_witness:
  "\<exists>b' pc' es. cb_steps \<lparr>failure_threshold = 1, success_threshold = 1, timeout = 1\<rparr>
       (CircuitBreaker\<lparr>cb_state := Open, opened_at := 5\<rparr>, None, (\<lambda>_. Idle), 6, []) (b', Some 0, pc', 6, es)
     \<and> WasReset \<notin> set es \<and> cb_state b' = Open \<and> outside (pc' 1)"
proof -
  let ?cfg = "\<lparr>failure_threshold = 1, success_threshold = 1, timeout = 1\<rparr>"
  let ?b = "CircuitBreaker\<lparr>cb_state := Open, opened_at := 5\<rparr>" and ?p = "(\<lambda>_. Idle)(0 := ResetLock)"
  have 1: "cb_steps ?cfg (?b, None, (\<lambda>_. Idle), 6, []) (?b, None, ?p, 6, [])"
    by (rule cb_steps.step [OF cb_steps.refl]) (rule cb_step.reset_call, simp)
  have "cb_step ?cfg (?b, None, ?p, 6, []) (?b, owner 0 RsState, ?p(0 := RsState), 6, [])"
    by (rule cb_step.lock) (simp_all add: CircuitBreaker_def)
  with 1 have st: "cb_steps ?cfg (?b, None, (\<lambda>_. Idle), 6, []) (?b, Some 0, ?p(0 := RsState), 6, [])"
    by (auto simp: owner_def intro: cb_steps.step)
  have "6 < opened_at ?b + timeout ?cfg * 1000000" "cb_state ?b = Open" by simp_all
  with breaker_threads [OF st] have "cb_state ?b = Open \<and> outside ((?p(0 := RsState)) 1)" by simp
  with st show ?thesis by (intro exI [of _ ?b] exI [of _ "?p(0 := RsState)"] exI [of _ "[]"]) simp
qed

text \<open>Calls one after another: the outcome of the inner function, the time of the call and the time it ends.\<close>

fun run_actions :: "cb_config \<Rightarrow> (bool \<times> int \<times> int) list \<Rightarrow> breaker \<Rightarrow> bool list \<times> breaker" where
  "run_actions cfg [] b = ([], b)"
| "run_actions cfg ((ok, now, now') # cs) b =
     (case cb_action cfg (if ok then Inr () else Inl ()) now now' b of (r, b') \<Rightarrow>
        (case run_actions cfg cs b' of (rs, b'') \<Rightarrow> ((r \<noteq> None) # rs, b'')))"

lemma run_actions_snoc:
  "run_actions cfg (cs @ [(ok, now, now')]) b =
     (case run_actions cfg cs b of (rs, b') \<Rightarrow>
        (case cb_action cfg (if ok then Inr () else Inl ()) now now' b' of (r, b'') \<Rightarrow> (rs @ [r \<noteq> None], b'')))"
  by (induction cfg cs b rule: run_actions.induct) (auto split: prod.splits)

definition streak :: "bool list \<Rightarrow> nat" where
  "streak oks = length (takeWhile Not (rev oks))"

lemma streak_simps [simp]: "streak [] = 0" "streak (oks @ [True]) = 0" "streak (oks @ [False]) = Suc (streak oks)"
  by (simp_all add: streak_def)

lemmas cb_ops = cb_pieces cb_action_def allow_request_def record_success_def record_failure_def

lemma closed_run:
  assumes "failure_threshold cfg < 2 ^ 64"
    and "\<forall>k \<le> length cs. streak (map fst (take k cs)) < failure_threshold cfg"
  shows "\<exists>b. run_actions cfg cs CircuitBreaker = (replicate (length cs) True, b) \<and> cb_state b = Closed \<and> failures b = streak (map fst cs)"
  using assms(2)
proof (induction cs rule: rev_induct)
  case Nil
  then show ?case by (simp add: CircuitBreaker_def)
next
  case (snoc c cs)
  obtain ok now now' where c: "c = (ok, now, now')" by (cases c)
  have "\<forall>k \<le> length cs. streak (map fst (take k cs)) < failure_threshold cfg"
    using snoc.prems by (metis append_eq_conv_conj le_SucI length_append_singleton min.absorb1 take_append take_take)
  then obtain b where b: "run_actions cfg cs CircuitBreaker = (replicate (length cs) True, b)" "cb_state b = Closed"
    "failures b = streak (map fst cs)" using snoc.IH by auto
  have "streak (map fst (cs @ [c])) < failure_threshold cfg" using snoc.prems by (metis order_refl take_all)
  then show ?case using b assms(1)
    by (cases ok) (auto simp: c run_actions_snoc cb_ops size_inc_def simp flip: replicate_append_same)
qed

text \<open>C32: Tripping. As long as no failure_threshold calls in a row have failed every call is let through and the breaker
  is closed with the current streak as its counter; the failure that completes a streak of that length
  opens it at the time it is recorded, and until the timeout has passed every request is refused.\<close>

theorem breaker_trips:
  assumes "failure_threshold cfg < 2 ^ 64"
    and "\<forall>k \<le> length cs. streak (map fst (take k cs)) < failure_threshold cfg"
  shows "\<exists>b. run_actions cfg cs CircuitBreaker = (replicate (length cs) True, b) \<and> cb_state b = Closed \<and>
    failures b = streak (map fst cs) \<and>
    (Suc (streak (map fst cs)) = failure_threshold cfg \<longrightarrow>
      (\<exists>b'. cb_action cfg (Inl e :: 'e + 'o) now now' b = (Some (Inl e), b') \<and> cb_state b' = Open \<and> opened_at b' = now' \<and>
        (\<forall>later < now' + timeout cfg * 1000000. allow_request cfg later b' = (False, b'))))"
proof -
  obtain b where "run_actions cfg cs CircuitBreaker = (replicate (length cs) True, b)" "cb_state b = Closed"
    "failures b = streak (map fst cs)" using closed_run [OF assms] by auto
  then show ?thesis using assms(1) by (intro exI [of _ b]) (auto simp: cb_ops size_inc_def)
qed

definition cb_default :: cb_config where
  "cb_default = \<lparr>failure_threshold = 5, success_threshold = 2, timeout = 30000\<rparr>"

theorem breaker_trips_witness:
  "\<exists>b b'. run_actions cb_default [(False, 1, 2), (True, 3, 4), (False, 5, 6), (False, 7, 8), (False, 9, 10), (False, 11, 12)] CircuitBreaker
      = (replicate 6 True, b) \<and> cb_action cb_default (Inl () :: unit + unit) 13 14 b = (Some (Inl ()), b') \<and> cb_state b' = Open"
proof -
  let ?cs = "[(False, 1, 2), (True, 3, 4), (False, 5, 6), (False, 7, 8), (False, 9, 10), (False, 11, 12)] :: (bool \<times> int \<times> int) list"
  have "\<forall>k \<le> length ?cs. streak (map fst (take k ?cs)) < failure_threshold cb_default"
    unfolding less_Suc_eq_le [symmetric] by (simp add: All_less_Suc streak_def cb_default_def)
  moreover have "failure_threshold cb_default < 2 ^ 64" "Suc (streak (map fst ?cs)) = failure_threshold cb_default" "length ?cs = 6"
    by (simp_all add: cb_default_def streak_def)
  ultimately show ?thesis
    using breaker_trips [of cb_default ?cs "() :: unit" 13 14] by (metis (no_types, lifting))
qed

lemma half_open_run:
  "\<lbrakk>cb_state b = HalfOpen; \<forall>c \<in> set cs. fst c; success_threshold cfg < 2 ^ 64; cs \<noteq> [];
    successes b + length cs = max (success_threshold cfg) (Suc (successes b)); Suc (successes b) < 2 ^ 64\<rbrakk>
   \<Longrightarrow> \<exists>b'. run_actions cfg cs b = (replicate (length cs) True, b') \<and> cb_state b' = Closed \<and> failures b' = 0"
proof (induction cs arbitrary: b)
  case (Cons c cs)
  obtain now now' where c: "c = (True, now, now')" using Cons.prems(2) by (cases c) auto
  let ?b = "b\<lparr>successes := Suc (successes b)\<rparr>"
  show ?case
  proof (cases "Suc (successes b) \<ge> success_threshold cfg")
    case True
    then have "cs = []" using Cons.prems(5) by (cases cs) auto
    then show ?thesis using True Cons.prems by (simp add: c cb_ops size_inc_def)
  next
    case False
    then have "run_actions cfg (c # cs) b = (case run_actions cfg cs ?b of (rs, b'') \<Rightarrow> (True # rs, b''))"
      using Cons.prems by (simp add: c cb_ops size_inc_def split: prod.splits)
    moreover have "cs \<noteq> []" using False Cons.prems(5) by auto
    moreover have "successes ?b + length cs = max (success_threshold cfg) (Suc (successes ?b))"
      using False Cons.prems(5) by auto
    ultimately show ?thesis using Cons.IH [of ?b] Cons.prems False by auto
  qed
qed simp

text \<open>C31: Recovery. Once the timeout of an open breaker has passed, success_threshold successful calls, at least one, are
  all let through and close it again, with its failure counter at zero.\<close>

theorem breaker_recovers:
  assumes "cb_state b = Open" "success_threshold cfg < 2 ^ 64"
    and "\<forall>(ok, now, now') \<in> set cs. ok \<and> opened_at b + timeout cfg * 1000000 \<le> now"
    and "length cs = max 1 (success_threshold cfg)"
  shows "\<exists>b'. run_actions cfg cs b = (replicate (length cs) True, b') \<and> cb_state b' = Closed \<and> failures b' = 0"
proof -
  obtain now now' cs' where cs: "cs = (True, now, now') # cs'" using assms(3,4) by (cases cs) auto
  let ?b = "transition now HalfOpen b"
  have "run_actions cfg cs b = run_actions cfg cs ?b"
    using assms(1,3) by (simp add: cs cb_ops)
  moreover have "cb_state ?b = HalfOpen" "successes ?b = 0" by (simp_all add: transition_def)
  moreover have "\<forall>c \<in> set cs. fst c" using assms(3) by auto
  moreover have "successes ?b + length cs = max (success_threshold cfg) (Suc (successes ?b))"
    using assms(4) by (simp add: transition_def max.commute)
  ultimately show ?thesis using half_open_run [of ?b cs cfg] assms(2) by (simp only: cs) simp
qed

theorem breaker_recovers_witness:
  "\<exists>b'. run_actions cb_default [(True, 30000000001, 30000000002), (True, 30000000003, 30000000004)]
     (CircuitBreaker\<lparr>cb_state := Open, opened_at := 1\<rparr>) = ([True, True], b') \<and> cb_state b' = Closed"
  using breaker_recovers [of "CircuitBreaker\<lparr>cb_state := Open, opened_at := 1\<rparr>" cb_default
    "[(True, 30000000001, 30000000002), (True, 30000000003, 30000000004)]"]
  by (auto simp: cb_default_def)

end
