(* ===== verification/Retry_Policy.thy ===== *)
theory Retry_Policy
  imports Prelude
begin

text \<open>
  \<open>RetryAction\<close> of \<open>include/qbuem/pipeline/retry_policy.hpp\<close>. The inner function, the stop token and the wait are arguments that act
  on a state of the caller's; \<open>long long\<close> products wrap at 64 bits. The product with the constant 0.1 and the draw of the
  random generator are arguments of \<open>compute_delay\<close>.
\<close>

datatype errc = operation_canceled | operation_not_permitted | other_error nat

datatype BackoffStrategy = Fixed | Exponential | Jitter

record RetryConfig =
  max_attempts :: nat
  base_delay :: int
  max_delay :: int
  strategy :: BackoffStrategy
  is_retriable :: "errc \<Rightarrow> bool"

definition default_config :: RetryConfig where
  "default_config =
     \<lparr>max_attempts = 3, base_delay = 100, max_delay = 30000, strategy = Exponential, is_retriable = (\<lambda>_. True)\<rparr>"

definition long_long :: "int \<Rightarrow> int" where
  "long_long i = signed_take_bit 63 i"

definition backoff_factor :: "nat \<Rightarrow> int" where
  "backoff_factor attempt = push_bit (min attempt 62) 1"

definition compute_delay :: "(int \<Rightarrow> int) \<Rightarrow> (int \<Rightarrow> int) \<Rightarrow> RetryConfig \<Rightarrow> nat \<Rightarrow> int" where
  "compute_delay tenth draw cfg attempt =
     (let delay =
        (case strategy cfg of
           Fixed \<Rightarrow> base_delay cfg
         | Exponential \<Rightarrow> long_long (base_delay cfg * backoff_factor attempt)
         | Jitter \<Rightarrow>
             (let base_val = long_long (base_delay cfg * backoff_factor attempt);
                  jitter_range = tenth base_val;
                  jitter = (if jitter_range > 0 then draw jitter_range else 0)
              in long_long (base_val + jitter)))
      in if delay > max_delay cfg then max_delay cfg else delay)"

function retry_loop :: "('s \<Rightarrow> bool) \<Rightarrow> (int \<Rightarrow> 's \<Rightarrow> 's) \<Rightarrow> ('i \<Rightarrow> 's \<Rightarrow> (errc + 'o) \<times> 's) \<Rightarrow> (nat \<Rightarrow> int) \<Rightarrow> RetryConfig \<Rightarrow>
    'i \<Rightarrow> nat \<Rightarrow> errc + 'o \<Rightarrow> 's \<Rightarrow> (errc + 'o) \<times> 's" where
  "retry_loop stop_requested sleep fn delay_of cfg item attempt last_result s =
     (if attempt < max_attempts cfg then
        (if stop_requested s then (Inl operation_canceled, s)
         else
           (let s1 = (if attempt > 0 then sleep (delay_of (attempt - 1)) s else s) in
            if attempt > 0 \<and> stop_requested s1 then (Inl operation_canceled, s1)
            else
              (case fn item s1 of
                 (Inr v, s2) \<Rightarrow> (Inr v, s2)
               | (Inl e, s2) \<Rightarrow>
                   if \<not> is_retriable cfg e then (Inl e, s2)
                   else retry_loop stop_requested sleep fn delay_of cfg item (attempt + 1) (Inl e) s2)))
      else (last_result, s))"
  by pat_completeness auto
termination
  by (relation "measure (\<lambda>(_, _, _, _, cfg, _, attempt, _, _). max_attempts cfg - attempt)") auto

declare retry_loop.simps [simp del]

definition retry_action :: "('s \<Rightarrow> bool) \<Rightarrow> (int \<Rightarrow> 's \<Rightarrow> 's) \<Rightarrow> ('i \<Rightarrow> 's \<Rightarrow> (errc + 'o) \<times> 's) \<Rightarrow> (int \<Rightarrow> int) \<Rightarrow> (nat \<Rightarrow> int \<Rightarrow> int) \<Rightarrow>
    RetryConfig \<Rightarrow> 'i \<Rightarrow> 's \<Rightarrow> (errc + 'o) \<times> 's" where
  "retry_action stop_requested sleep fn tenth draw cfg item s =
     retry_loop stop_requested sleep fn (\<lambda>k. compute_delay tenth (draw k) cfg k) cfg item 0 (Inl operation_not_permitted) s"

section \<open>Termination and outcome\<close>

text \<open>An inner function whose \<open>n\<close>-th call has the outcome \<open>res n\<close>, with the number of calls made and the waits as the
  state. A stop is requested once \<open>limit\<close> calls have been made.\<close>

definition scripted :: "(nat \<Rightarrow> errc + 'o) \<Rightarrow> 'i \<Rightarrow> nat \<times> int list \<Rightarrow> (errc + 'o) \<times> (nat \<times> int list)" where
  "scripted res item s = (res (fst s), Suc (fst s), snd s)"

definition waits :: "int \<Rightarrow> nat \<times> int list \<Rightarrow> nat \<times> int list" where
  "waits d s = (fst s, snd s @ [d])"

definition stop_after :: "nat \<Rightarrow> nat \<times> int list \<Rightarrow> bool" where
  "stop_after limit s \<longleftrightarrow> limit \<le> fst s"

fun ends_retry :: "RetryConfig \<Rightarrow> errc + 'o \<Rightarrow> bool" where
  "ends_retry cfg (Inr v) = True"
| "ends_retry cfg (Inl e) = (\<not> is_retriable cfg e)"

lemma retry_loop_scripted:
  assumes "length ds = attempt - 1" "M = min (max_attempts cfg) limit" "attempt \<le> M"
  shows "retry_loop (stop_after limit) waits (scripted res) delay_of cfg item attempt last_result (attempt, ds) =
    (case find (\<lambda>k. ends_retry cfg (res k)) [attempt..<M] of
       Some k \<Rightarrow> (res k, Suc k, ds @ map delay_of [attempt - 1..<k])
     | None \<Rightarrow> (if limit < max_attempts cfg then Inl operation_canceled
                else if attempt < M then res (M - 1) else last_result,
                M, ds @ map delay_of [attempt - 1..<M - 1]))"
  using assms(1,3)
proof (induction "M - attempt" arbitrary: attempt last_result ds)
  case 0
  then have "attempt = M" by simp
  then show ?case using assms(2) 0 by (subst retry_loop.simps) (auto simp: stop_after_def)
next
  case (Suc n)
  let ?ds = "if attempt > 0 then ds @ [delay_of (attempt - 1)] else ds"
  have lt: "attempt < M" and n: "n = M - Suc attempt" using Suc.hyps(2) by auto
  have run: "attempt < max_attempts cfg" "attempt < limit" using lt assms(2) by auto
  have len: "length ?ds = Suc attempt - 1" using Suc.prems by auto
  have ds: "?ds @ map delay_of [attempt..<m] = ds @ map delay_of [attempt - 1..<m]" if "attempt \<le> m" for m
    using that by (cases attempt) (simp_all add: upt_conv_Cons)
  show ?case
  proof (cases "ends_retry cfg (res attempt)")
    case True
    then show ?thesis using run ds [of attempt] upt_conv_Cons [OF lt]
      by (subst retry_loop.simps)
        (auto simp: stop_after_def waits_def scripted_def Let_def split: sum.splits)
  next
    case False
    then obtain e where e: "res attempt = Inl e" "is_retriable cfg e" by (cases "res attempt") auto
    then have step: "retry_loop (stop_after limit) waits (scripted res) delay_of cfg item attempt last_result (attempt, ds) =
      retry_loop (stop_after limit) waits (scripted res) delay_of cfg item (Suc attempt) (Inl e) (Suc attempt, ?ds)"
      using run by (subst retry_loop.simps) (auto simp: stop_after_def waits_def scripted_def Let_def)
    note IH = Suc.hyps(1) [OF n len Suc_leI [OF lt], of "Inl e"]
    have first: "find (\<lambda>k. ends_retry cfg (res k)) [attempt..<M] = find (\<lambda>k. ends_retry cfg (res k)) [Suc attempt..<M]"
      using False by (simp add: upt_conv_Cons [OF lt])
    show ?thesis
    proof (cases "find (\<lambda>k. ends_retry cfg (res k)) [Suc attempt..<M]")
      case None
      have "(if Suc attempt < M then res (M - 1) else Inl e) = res (M - 1)"
        using lt e(1) by (metis Suc_lessI diff_Suc_1)
      then show ?thesis unfolding step IH first None
        using lt ds [of "M - 1"] by (simp only: option.case diff_Suc_1) simp
    next
      case (Some k)
      have "k \<in> set [Suc attempt..<M]" using Some by (auto simp: find_Some_iff)
      then show ?thesis unfolding step IH first Some
        using ds [of k] by (simp only: option.case diff_Suc_1) simp
    qed
  qed
qed

text \<open>C33: Termination. Retrying ends after at most max_attempts calls of the inner function and makes no call once a stop
  has been requested: with the outcome of the first call that succeeds or fails with an error that is not
  retriable, else with operation_canceled when the stop came first, else with the last error, else, for
  max_attempts zero, with operation_not_permitted; before each call but the first it has waited once, the
  computed delay of that retry.\<close>

theorem retry_ends:
  "retry_action (stop_after limit) waits (scripted res) tenth draw cfg item (0, []) =
     (let M = min (max_attempts cfg) limit; delay_of = (\<lambda>j. compute_delay tenth (draw j) cfg j) in
      case find (\<lambda>k. ends_retry cfg (res k)) [0..<M] of
        Some k \<Rightarrow> (res k, Suc k, map delay_of [0..<k])
      | None \<Rightarrow> (if limit < max_attempts cfg then Inl operation_canceled
                 else if max_attempts cfg = 0 then Inl operation_not_permitted else res (max_attempts cfg - 1),
                 M, map delay_of [0..<M - 1]))"
  unfolding retry_action_def Let_def
  by (subst retry_loop_scripted [OF _ refl]) (auto simp: min_def split: option.splits)

section \<open>Delays\<close>

lemma long_long_id: "\<lbrakk>- (2 ^ 63) \<le> i; i < 2 ^ 63\<rbrakk> \<Longrightarrow> long_long i = i"
  by (simp add: long_long_def signed_take_bit_int_eq_self)

text \<open>Backoff. The delay never exceeds max_delay. As long as base_delay times two to the attempt fits 63 bits the
  exponential delay is that product, capped, and doubling stops at attempt 62; with the default base of
  100 ms the product no longer fits at attempt 57, where the delay is negative, and from attempt 62 on it
  is zero, so that the retries follow each other without a wait.\<close>

theorem backoff_delay:
  "compute_delay tenth draw cfg attempt \<le> max_delay cfg \<and>
   (strategy cfg = Exponential \<and> 0 \<le> base_delay cfg \<and> base_delay cfg * 2 ^ min attempt 62 < 2 ^ 63 \<longrightarrow>
      compute_delay tenth draw cfg attempt = min (base_delay cfg * 2 ^ min attempt 62) (max_delay cfg)) \<and>
   (attempt \<ge> 62 \<longrightarrow> compute_delay tenth draw default_config attempt = 0) \<and>
   compute_delay tenth draw default_config 57 < 0"
proof (intro conjI impI)
  show "compute_delay tenth draw cfg attempt \<le> max_delay cfg" by (simp add: compute_delay_def Let_def)
  assume e: "strategy cfg = Exponential \<and> 0 \<le> base_delay cfg \<and> base_delay cfg * 2 ^ min attempt 62 < 2 ^ 63"
  then have "0 \<le> base_delay cfg * 2 ^ min attempt 62" by simp
  then have "long_long (base_delay cfg * 2 ^ min attempt 62) = base_delay cfg * 2 ^ min attempt 62"
    using e by (intro long_long_id) (auto intro: order_trans [of _ 0])
  then have "long_long (base_delay cfg * backoff_factor attempt) = base_delay cfg * 2 ^ min attempt 62"
    by (simp add: backoff_factor_def push_bit_eq_mult)
  with e show "compute_delay tenth draw cfg attempt = min (base_delay cfg * 2 ^ min attempt 62) (max_delay cfg)"
    by (simp add: compute_delay_def Let_def min_def)
next
  assume "attempt \<ge> 62"
  then show "compute_delay tenth draw default_config attempt = 0"
    by (simp add: compute_delay_def default_config_def backoff_factor_def long_long_def push_bit_eq_mult
        signed_take_bit_def take_bit_eq_mod bit_iff_odd)
next
  show "compute_delay tenth draw default_config 57 < 0"
    by (simp add: compute_delay_def default_config_def backoff_factor_def long_long_def push_bit_eq_mult
        signed_take_bit_eq_take_bit_minus take_bit_eq_mod bit_iff_odd)
qed

theorem backoff_delay_witness:
  "compute_delay (\<lambda>_. 0) (\<lambda>_. 0) default_config 5 = 3200 \<and> compute_delay (\<lambda>_. 0) (\<lambda>_. 0) default_config 70 = 0"
  using backoff_delay [of "\<lambda>_. 0" "\<lambda>_. 0" default_config 5] backoff_delay [of "\<lambda>_. 0" "\<lambda>_. 0" default_config 70]
  by (simp add: default_config_def)

end
