(* ===== verification/Spsc_Channel.thy ===== *)
theory Spsc_Channel
  imports Prelude
begin

text \<open>
  \<open>SpscChannel\<close> of \<open>include/qbuem/pipeline/spsc_channel.hpp\<close>. The producer, the consumer and a closing thread are
  programs over the shared state, cut at their accesses to it: a store or an exchange of a shared variable is a step
  of its own, and so is each load another thread can interfere with; the loads of one condition are one step. A
  run is any sequence of these steps. The counters are 64-bit words and wrap. \<open>sent\<close> and \<open>received\<close> collect the
  items as they enter and leave the ring, and \<open>broken\<close> records that a coroutine was resumed that was not suspended.
\<close>

section \<open>State\<close>

datatype who = Producer | Consumer

datatype wake_pc = WLoad | WXchg | WReactor who

datatype 'a p_pc = PIdle | PSend 'a | PTry bool 'a | PHead bool 'a | PWrite bool 'a | PPub bool 'a | PWake wake_pc
  | PAwait 'a | PReg 'a | PRegReactor 'a | PRecheck 'a | PUnreg 'a | PUnregReactor 'a | PSuspended 'a | PAfter 'a

datatype 'a c_pc = CIdle | CTail bool | CRead bool | CPub 'a | CWake 'a wake_pc
  | CClosed | CAwait | CReg | CRegReactor | CRecheck | CUnreg | CUnregReactor | CSuspended

datatype send_ret = Accepted | Refused | BrokenPipe

record 'a spsc =
  buffer :: "'a list"
  ring_mask :: u64
  ring_head :: u64
  ring_tail :: u64
  chan_closed :: bool
  waiter :: "who option"
  waiter_reactor :: "nat option"
  posted :: "who list"
  producer :: "'a p_pc"
  consumer :: "'a c_pc"
  closer :: "wake_pc option"
  send_rets :: "send_ret list"
  recv_rets :: "'a option list"
  sent :: "'a list"
  received :: "'a list"
  broken :: bool

partial_function (option) pow2_loop :: "u64 \<Rightarrow> u64 \<Rightarrow> u64 option" where
  "pow2_loop n p = (if p < n then pow2_loop n (push_bit 1 p) else Some p)"

definition next_pow2 :: "u64 \<Rightarrow> u64 option" where
  "next_pow2 n = (if n = 0 then Some 1 else pow2_loop n 1)"

definition ring :: "u64 \<Rightarrow> 'a \<Rightarrow> 'a spsc" where
  "ring cap d =
     \<lparr> buffer = replicate (unat cap) d, ring_mask = cap - 1, ring_head = 0, ring_tail = 0, chan_closed = False, waiter = None,
       waiter_reactor = None, posted = [], producer = PIdle, consumer = CIdle, closer = None, send_rets = [],
       recv_rets = [], sent = [], received = [], broken = False \<rparr>"

definition SpscChannel :: "u64 \<Rightarrow> 'a \<Rightarrow> 'a spsc option" where
  "SpscChannel cap d = map_option (\<lambda>c. ring c d) (next_pow2 (max cap 2))"

definition capacity :: "'a spsc \<Rightarrow> u64" where
  "capacity s = ring_mask s + 1"

definition size_approx :: "'a spsc \<Rightarrow> u64" where
  "size_approx s = (if ring_tail s \<ge> ring_head s then ring_tail s - ring_head s else 0)"

section \<open>Waking\<close>

text \<open>Resuming a coroutine, which goes on after its \<open>co_await\<close>.\<close>

definition resume :: "who \<Rightarrow> 'a spsc \<Rightarrow> 'a spsc" where
  "resume h s =
     (case h of
        Producer \<Rightarrow> (case producer s of PSuspended x \<Rightarrow> s\<lparr>producer := PAfter x\<rparr> | _ \<Rightarrow> s\<lparr>broken := True\<rparr>)
      | Consumer \<Rightarrow> (case consumer s of CSuspended \<Rightarrow> s\<lparr>consumer := CTail True\<rparr> | _ \<Rightarrow> s\<lparr>broken := True\<rparr>))"

fun wake_waiter :: "wake_pc \<Rightarrow> 'a spsc \<Rightarrow> 'a spsc \<times> wake_pc option" where
  "wake_waiter WLoad s = (s, if waiter s = None then None else Some WXchg)"
| "wake_waiter WXchg s =
     (case waiter s of None \<Rightarrow> (s, None) | Some h \<Rightarrow> (s\<lparr>waiter := None\<rparr>, Some (WReactor h)))"
| "wake_waiter (WReactor h) s =
     ((case waiter_reactor s of
         Some _ \<Rightarrow> s\<lparr>waiter_reactor := None, posted := posted s @ [h]\<rparr>
       | None \<Rightarrow> resume h s), None)"

section \<open>The producer\<close>

definition full :: "'a spsc \<Rightarrow> bool" where
  "full s \<longleftrightarrow> ring_tail s - ring_head s \<ge> capacity s"

text \<open>\<open>try_send_impl\<close> has returned false, to \<open>send\<close> or to the caller of \<open>try_send\<close>.\<close>

definition send_fails :: "bool \<Rightarrow> 'a \<Rightarrow> 'a spsc \<Rightarrow> 'a spsc" where
  "send_fails blocking x s =
     (if blocking then s\<lparr>producer := PAwait x\<rparr> else s\<lparr>producer := PIdle, send_rets := send_rets s @ [Refused]\<rparr>)"

definition send_step :: "'a p_pc \<Rightarrow> 'a spsc \<Rightarrow> 'a spsc" where
  "send_step p s =
     (case p of
        PSend x \<Rightarrow>
          if chan_closed s then s\<lparr>producer := PIdle, send_rets := send_rets s @ [BrokenPipe]\<rparr> else s\<lparr>producer := PTry True x\<rparr>
      | PAfter x \<Rightarrow>
          if chan_closed s then s\<lparr>producer := PIdle, send_rets := send_rets s @ [BrokenPipe]\<rparr> else s\<lparr>producer := PSend x\<rparr>
      | _ \<Rightarrow> s)"

definition try_send_impl :: "'a p_pc \<Rightarrow> 'a spsc \<Rightarrow> 'a spsc" where
  "try_send_impl p s =
     (case p of
        PTry b x \<Rightarrow> if chan_closed s then send_fails b x s else s\<lparr>producer := PHead b x\<rparr>
      | PHead b x \<Rightarrow> if full s then send_fails b x s else s\<lparr>producer := PWrite b x\<rparr>
      | PWrite b x \<Rightarrow> s\<lparr>buffer := (buffer s)[unat (ring_tail s AND ring_mask s) := x], producer := PPub b x\<rparr>
      | PPub b x \<Rightarrow> s\<lparr>ring_tail := ring_tail s + 1, sent := sent s @ [x], producer := PWake WLoad\<rparr>
      | PWake w \<Rightarrow>
          (case wake_waiter w s of
             (s', Some w') \<Rightarrow> s'\<lparr>producer := PWake w'\<rparr>
           | (s', None) \<Rightarrow> s'\<lparr>producer := PIdle, send_rets := send_rets s @ [Accepted]\<rparr>)
      | _ \<Rightarrow> s)"

definition SendAwaiter :: "nat option \<Rightarrow> 'a p_pc \<Rightarrow> 'a spsc \<Rightarrow> 'a spsc" where
  "SendAwaiter reactor p s =
     (case p of
        PAwait x \<Rightarrow> if chan_closed s \<or> \<not> full s then s\<lparr>producer := PAfter x\<rparr> else s\<lparr>producer := PReg x\<rparr>
      | PReg x \<Rightarrow> s\<lparr>waiter := Some Producer, producer := PRegReactor x\<rparr>
      | PRegReactor x \<Rightarrow> s\<lparr>waiter_reactor := reactor, producer := PRecheck x\<rparr>
      | PRecheck x \<Rightarrow> if \<not> full s \<or> chan_closed s then s\<lparr>producer := PUnreg x\<rparr> else s\<lparr>producer := PSuspended x\<rparr>
      | PUnreg x \<Rightarrow> s\<lparr>waiter := None, producer := PUnregReactor x\<rparr>
      | PUnregReactor x \<Rightarrow> s\<lparr>waiter_reactor := None, producer := PAfter x\<rparr>
      | _ \<Rightarrow> s)"

definition p_step :: "nat option \<Rightarrow> 'a spsc \<Rightarrow> 'a spsc" where
  "p_step reactor s =
     (case producer s of
        PIdle \<Rightarrow> s
      | PSuspended x \<Rightarrow> s
      | PSend x \<Rightarrow> send_step (PSend x) s
      | PAfter x \<Rightarrow> send_step (PAfter x) s
      | PTry b x \<Rightarrow> try_send_impl (PTry b x) s
      | PHead b x \<Rightarrow> try_send_impl (PHead b x) s
      | PWrite b x \<Rightarrow> try_send_impl (PWrite b x) s
      | PPub b x \<Rightarrow> try_send_impl (PPub b x) s
      | PWake w \<Rightarrow> try_send_impl (PWake w) s
      | p \<Rightarrow> SendAwaiter reactor p s)"

lemmas p_steps = p_step_def send_step_def try_send_impl_def SendAwaiter_def

section \<open>The consumer\<close>

definition recv_ends :: "'a option \<Rightarrow> 'a spsc \<Rightarrow> 'a spsc" where
  "recv_ends r s = s\<lparr>consumer := CIdle, recv_rets := recv_rets s @ [r]\<rparr>"

definition recv_step :: "'a spsc \<Rightarrow> 'a spsc" where
  "recv_step s = (if chan_closed s then recv_ends None s else s\<lparr>consumer := CAwait\<rparr>)"

definition try_recv :: "'a c_pc \<Rightarrow> 'a spsc \<Rightarrow> 'a spsc" where
  "try_recv c s =
     (case c of
        CTail b \<Rightarrow>
          if ring_head s = ring_tail s then (if b then s\<lparr>consumer := CClosed\<rparr> else recv_ends None s)
          else s\<lparr>consumer := CRead b\<rparr>
      | CRead b \<Rightarrow> s\<lparr>consumer := CPub (buffer s ! unat (ring_head s AND ring_mask s))\<rparr>
      | CPub x \<Rightarrow> s\<lparr>ring_head := ring_head s + 1, received := received s @ [x], consumer := CWake x WLoad\<rparr>
      | CWake x w \<Rightarrow>
          (case wake_waiter w s of (s', Some w') \<Rightarrow> s'\<lparr>consumer := CWake x w'\<rparr> | (s', None) \<Rightarrow> recv_ends (Some x) s')
      | _ \<Rightarrow> s)"

definition RecvAwaiter :: "nat option \<Rightarrow> 'a c_pc \<Rightarrow> 'a spsc \<Rightarrow> 'a spsc" where
  "RecvAwaiter reactor c s =
     (case c of
        CAwait \<Rightarrow> if chan_closed s \<or> ring_head s \<noteq> ring_tail s then s\<lparr>consumer := CTail True\<rparr> else s\<lparr>consumer := CReg\<rparr>
      | CReg \<Rightarrow> s\<lparr>waiter := Some Consumer, consumer := CRegReactor\<rparr>
      | CRegReactor \<Rightarrow> s\<lparr>waiter_reactor := reactor, consumer := CRecheck\<rparr>
      | CRecheck \<Rightarrow> if ring_head s \<noteq> ring_tail s \<or> chan_closed s then s\<lparr>consumer := CUnreg\<rparr> else s\<lparr>consumer := CSuspended\<rparr>
      | CUnreg \<Rightarrow> s\<lparr>waiter := None, consumer := CUnregReactor\<rparr>
      | CUnregReactor \<Rightarrow> s\<lparr>waiter_reactor := None, consumer := CTail True\<rparr>
      | _ \<Rightarrow> s)"

definition c_step :: "nat option \<Rightarrow> 'a spsc \<Rightarrow> 'a spsc" where
  "c_step reactor s =
     (case consumer s of
        CIdle \<Rightarrow> s
      | CSuspended \<Rightarrow> s
      | CClosed \<Rightarrow> recv_step s
      | CTail b \<Rightarrow> try_recv (CTail b) s
      | CRead b \<Rightarrow> try_recv (CRead b) s
      | CPub x \<Rightarrow> try_recv (CPub x) s
      | CWake x w \<Rightarrow> try_recv (CWake x w) s
      | c \<Rightarrow> RecvAwaiter reactor c s)"

lemmas c_steps = c_step_def recv_step_def try_recv_def RecvAwaiter_def

definition k_step :: "'a spsc \<Rightarrow> 'a spsc" where
  "k_step s = (case closer s of None \<Rightarrow> s | Some w \<Rightarrow> (case wake_waiter w s of (s', w') \<Rightarrow> s'\<lparr>closer := w'\<rparr>))"

section \<open>Runs\<close>

text \<open>A call of an operation by a thread that is between calls, a step of a thread, or the reactor running a
  posted resumption. The reactor of a coroutine is its own thread: it runs a posted function when the coroutine is suspended or
  between calls.\<close>

definition at_rest :: "who \<Rightarrow> 'a spsc \<Rightarrow> bool" where
  "at_rest h s =
     (case h of
        Producer \<Rightarrow> (case producer s of PIdle \<Rightarrow> True | PSuspended x \<Rightarrow> True | _ \<Rightarrow> False)
      | Consumer \<Rightarrow> (case consumer s of CIdle \<Rightarrow> True | CSuspended \<Rightarrow> True | _ \<Rightarrow> False))"

datatype 'a spsc_act = Send 'a | TrySend 'a | Recv | TryRecv | CloseCall | P | C | K | RunPosted who

fun spsc_do :: "nat option \<Rightarrow> nat option \<Rightarrow> 'a spsc_act \<Rightarrow> 'a spsc \<Rightarrow> 'a spsc" where
  "spsc_do rp rc (Send x) s = (if producer s = PIdle then s\<lparr>producer := PSend x\<rparr> else s)"
| "spsc_do rp rc (TrySend x) s = (if producer s = PIdle then s\<lparr>producer := PTry False x\<rparr> else s)"
| "spsc_do rp rc Recv s = (if consumer s = CIdle then s\<lparr>consumer := CTail True\<rparr> else s)"
| "spsc_do rp rc TryRecv s = (if consumer s = CIdle then s\<lparr>consumer := CTail False\<rparr> else s)"
| "spsc_do rp rc CloseCall s = (if closer s = None then s\<lparr>chan_closed := True, closer := Some WLoad\<rparr> else s)"
| "spsc_do rp rc P s = p_step rp s"
| "spsc_do rp rc C s = c_step rc s"
| "spsc_do rp rc K s = k_step s"
| "spsc_do rp rc (RunPosted h) s =
     (if h \<in> set (posted s) \<and> at_rest h s then resume h (s\<lparr>posted := remove1 h (posted s)\<rparr>) else s)"

definition spsc_run :: "nat option \<Rightarrow> nat option \<Rightarrow> 'a spsc_act list \<Rightarrow> 'a spsc \<Rightarrow> 'a spsc" where
  "spsc_run rp rc acts s = fold (spsc_do rp rc) acts s"

end
