(* ===== verification/Spsc_Spec.thy ===== *)
theory Spsc_Spec
  imports Spsc_Channel
begin

text \<open>
  What the channel promises under every interleaving: the ring is a bounded first-in first-out queue, through the
  wrap-around of its counters; when its constructor returns; and what its single waiter slot costs.
\<close>

section \<open>The ring\<close>

definition slot :: "'a spsc \<Rightarrow> nat \<Rightarrow> nat" where
  "slot s i = unat ((ring_head s + of_nat i) AND ring_mask s)"

definition pending :: "'a spsc \<Rightarrow> 'a list" where
  "pending s = drop (length (received s)) (sent s)"

definition ring_ok :: "nat \<Rightarrow> 'a spsc \<Rightarrow> bool" where
  "ring_ok k s \<longleftrightarrow> k \<le> 63 \<and> ring_mask s = mask k \<and> length (buffer s) = 2 ^ k \<and>
     sent s = received s @ pending s \<and> length (pending s) \<le> 2 ^ k \<and>
     ring_tail s = ring_head s + of_nat (length (pending s)) \<and>
     (\<forall>i < length (pending s). buffer s ! slot s i = pending s ! i)"

definition p_ok :: "nat \<Rightarrow> 'a spsc \<Rightarrow> 'a p_pc \<Rightarrow> bool" where
  "p_ok k s p = (case p of
     PWrite _ _ \<Rightarrow> length (pending s) < 2 ^ k
   | PPub _ x \<Rightarrow> length (pending s) < 2 ^ k \<and> buffer s ! slot s (length (pending s)) = x
   | _ \<Rightarrow> True)"

definition c_ok :: "'a spsc \<Rightarrow> 'a c_pc \<Rightarrow> bool" where
  "c_ok s c = (case c of CRead _ \<Rightarrow> pending s \<noteq> [] | CPub x \<Rightarrow> pending s \<noteq> [] \<and> hd (pending s) = x | _ \<Rightarrow> True)"

definition spsc_inv :: "nat \<Rightarrow> 'a spsc \<Rightarrow> bool" where
  "spsc_inv k s \<longleftrightarrow> ring_ok k s \<and> p_ok k s (producer s) \<and> c_ok s (consumer s)"

lemma mod_add_inj: "\<lbrakk>i < n; j < n; (a + i) mod n = (a + j) mod (n :: nat)\<rbrakk> \<Longrightarrow> i = j"
proof (induction i j rule: linorder_wlog)
  case (le i j)
  then have "n dvd (a + j) - (a + i)" using mod_eq_dvd_iff_nat [of "a + i" "a + j" n] by simp
  then show ?case using le by (auto dest!: dvd_imp_le)
qed auto

lemma slot_mod:
  assumes "k \<le> 63" "ring_mask s = mask k"
  shows "slot s i = (unat (ring_head s) + i) mod 2 ^ k"
proof -
  have dvd: "(2 :: nat) ^ k dvd 2 ^ 64" using assms(1) by (intro le_imp_power_dvd) simp
  have "slot s i = take_bit k (unat (ring_head s + of_nat i))"
    unfolding slot_def assms(2) take_bit_eq_mask [symmetric] by (simp add: unsigned_take_bit_eq)
  also have "\<dots> = ((unat (ring_head s) + i) mod 2 ^ 64) mod 2 ^ k"
    by (simp add: take_bit_eq_mod unat_word_ariths unat_of_nat mod_add_right_eq)
  also have "\<dots> = (unat (ring_head s) + i) mod 2 ^ k" using dvd by (rule mod_mod_cancel)
  finally show ?thesis .
qed

lemma slot_inj:
  assumes "k \<le> 63" "ring_mask s = mask k" "i < 2 ^ k" "j < 2 ^ k" "slot s i = slot s j"
  shows "i = j"
  using assms mod_add_inj [of i "2 ^ k" j "unat (ring_head s)"] by (simp add: slot_mod)

text \<open>What the ring consists of; waking touches none of it.\<close>

definition core :: "'a spsc \<Rightarrow> 'a list \<times> u64 \<times> u64 \<times> u64 \<times> 'a list \<times> 'a list" where
  "core s = (buffer s, ring_mask s, ring_head s, ring_tail s, sent s, received s)"

lemma core_inv:
  assumes "core s' = core s"
  shows "ring_ok k s' = ring_ok k s" "p_ok k s' p = p_ok k s p" "c_ok s' c = c_ok s c"
  using assms by (simp_all add: core_def ring_ok_def p_ok_def c_ok_def pending_def slot_def split: p_pc.splits c_pc.splits)

text \<open>Positions of a thread that constrain nothing.\<close>

definition p_calm :: "'a p_pc \<Rightarrow> bool" where
  "p_calm p \<longleftrightarrow> (case p of PWrite _ _ \<Rightarrow> False | PPub _ _ \<Rightarrow> False | _ \<Rightarrow> True)"

definition c_calm :: "'a c_pc \<Rightarrow> bool" where
  "c_calm c \<longleftrightarrow> (case c of CRead _ \<Rightarrow> False | CPub _ \<Rightarrow> False | _ \<Rightarrow> True)"

lemma calm_ok: "p_calm p \<Longrightarrow> p_ok k s p" "c_calm c \<Longrightarrow> c_ok s c"
  by (auto simp: p_calm_def p_ok_def c_calm_def c_ok_def split: p_pc.splits c_pc.splits)

lemma resume_frame:
  "core (resume h s) = core s \<and> (producer (resume h s) = producer s \<or> p_calm (producer (resume h s))) \<and>
   (consumer (resume h s) = consumer s \<or> c_calm (consumer (resume h s)))"
proof (cases h)
  case Producer
  then show ?thesis by (cases "producer s") (simp_all add: resume_def core_def p_calm_def)
next
  case Consumer
  then show ?thesis by (cases "consumer s") (simp_all add: resume_def core_def c_calm_def)
qed

lemma wake_frame:
  assumes "wake_waiter w s = (s', w')"
  shows "core s' = core s" "producer s' = producer s \<or> p_calm (producer s')" "consumer s' = consumer s \<or> c_calm (consumer s')"
proof -
  have "core s' = core s \<and> (producer s' = producer s \<or> p_calm (producer s')) \<and> (consumer s' = consumer s \<or> c_calm (consumer s'))"
  proof (cases w)
    case (WReactor h)
    then show ?thesis using assms resume_frame [of h s] by (cases "waiter_reactor s") (auto simp: core_def)
  qed (use assms in \<open>auto simp: core_def split: option.splits\<close>)
  then show "core s' = core s" "producer s' = producer s \<or> p_calm (producer s')" "consumer s' = consumer s \<or> c_calm (consumer s')"
    by auto
qed

lemma spsc_inv_frame:
  assumes "spsc_inv k s" "core s' = core s" "producer s' = producer s \<or> p_calm (producer s')"
    "consumer s' = consumer s \<or> c_calm (consumer s')"
  shows "spsc_inv k s'"
  using assms(1,3,4) calm_ok unfolding spsc_inv_def core_inv [OF assms(2)] by metis

section \<open>Every step keeps the ring\<close>

lemma ring_full_iff:
  assumes "ring_ok k s"
  shows "full s \<longleftrightarrow> length (pending s) = 2 ^ k"
proof -
  have k: "k \<le> 63" and m: "ring_mask s = mask k" and len: "length (pending s) \<le> 2 ^ k"
    and tl: "ring_tail s - ring_head s = of_nat (length (pending s))"
    using assms by (auto simp: ring_ok_def)
  have p: "(2 :: nat) ^ k \<le> 2 ^ 63" using k by (intro power_increasing) auto
  have "capacity s = of_nat (2 ^ k)" by (simp add: capacity_def m mask_eq_exp_minus_1)
  then have "unat (capacity s) = 2 ^ k" using p unat_of_nat_small [of "2 ^ k", where 'a = 64] by simp
  moreover have "unat (ring_tail s - ring_head s) = length (pending s)"
    unfolding tl using len p by (intro unat_of_nat_small) simp
  ultimately show ?thesis using len by (auto simp: full_def word_le_nat_alt)
qed

lemma unat_zero: "unat w = n \<Longrightarrow> w = 0 \<longleftrightarrow> n = 0"
  by (auto simp: unsigned_eq_0_iff)

lemma ring_empty_iff:
  assumes "ring_ok k s"
  shows "ring_head s = ring_tail s \<longleftrightarrow> pending s = []"
proof -
  have k: "k \<le> 63" and len: "length (pending s) \<le> 2 ^ k"
    and tl: "ring_tail s = ring_head s + of_nat (length (pending s))"
    using assms by (auto simp: ring_ok_def)
  have p: "(2 :: nat) ^ k \<le> 2 ^ 63" using k by (intro power_increasing) auto
  have "(of_nat (length (pending s)) :: u64) = 0 \<longleftrightarrow> length (pending s) = 0"
    using len p by (intro unat_zero unat_of_nat_small) simp
  then show ?thesis by (simp add: tl)
qed

lemma p_write_inv:
  assumes "spsc_inv k s" "producer s = PWrite b x"
  shows "spsc_inv k (s\<lparr>buffer := (buffer s)[unat (ring_tail s AND ring_mask s) := x], producer := PPub b x\<rparr>)"
proof -
  let ?n = "length (pending s)"
  have r: "k \<le> 63" "ring_mask s = mask k" "length (buffer s) = 2 ^ k" "ring_tail s = ring_head s + of_nat ?n"
    and lt: "?n < 2 ^ k" and ok: "ring_ok k s" "c_ok s (consumer s)"
    using assms by (auto simp: spsc_inv_def ring_ok_def p_ok_def)
  have at: "unat (ring_tail s AND ring_mask s) = slot s ?n" by (simp add: slot_def r(4))
  have low: "slot s ?n < 2 ^ k" by (simp add: slot_mod [OF r(1,2)])
  define s' where "s' = s\<lparr>buffer := (buffer s)[slot s ?n := x], producer := PPub b x\<rparr>"
  have same: "slot s' i = slot s i" "pending s' = pending s" "ring_mask s' = ring_mask s" "ring_head s' = ring_head s"
    "ring_tail s' = ring_tail s" "sent s' = sent s" "received s' = received s" "consumer s' = consumer s"
    "producer s' = PPub b x" "buffer s' = (buffer s)[slot s ?n := x]" for i
    by (simp_all add: s'_def slot_def pending_def)
  have "slot s ?n \<noteq> slot s i" if "i < ?n" for i using slot_inj [OF r(1,2), of i ?n] that lt by auto
  then have "ring_ok k s'" using ok(1) by (simp add: ring_ok_def same)
  moreover have "p_ok k s' (producer s')" using low lt r(3) by (simp add: p_ok_def same)
  moreover have "c_ok s' (consumer s')" using ok(2) by (simp add: c_ok_def same split: c_pc.splits)
  ultimately show ?thesis unfolding at s'_def [symmetric] by (simp add: spsc_inv_def)
qed

lemma p_pub_inv:
  assumes "spsc_inv k s" "producer s = PPub b x"
  shows "spsc_inv k (s\<lparr>ring_tail := ring_tail s + 1, sent := sent s @ [x], producer := PWake WLoad\<rparr>)"
proof -
  have r: "ring_ok k s" "length (pending s) < 2 ^ k" "buffer s ! slot s (length (pending s)) = x" "c_ok s (consumer s)"
    using assms by (auto simp: spsc_inv_def p_ok_def)
  have le: "length (received s) \<le> length (sent s)" using r(1) unfolding ring_ok_def by (metis le_add1 length_append)
  define s' where "s' = s\<lparr>ring_tail := ring_tail s + 1, sent := sent s @ [x], producer := PWake WLoad\<rparr>"
  have s': "slot s' i = slot s i" "pending s' = pending s @ [x]" "ring_mask s' = ring_mask s" "ring_head s' = ring_head s"
    "ring_tail s' = ring_tail s + 1" "sent s' = sent s @ [x]" "received s' = received s" "consumer s' = consumer s"
    "producer s' = PWake WLoad" "buffer s' = buffer s" for i
    using le by (simp_all add: s'_def slot_def pending_def)
  have "ring_ok k s'" using r(1-3) by (auto simp: ring_ok_def s' nth_append less_Suc_eq algebra_simps)
  moreover have "c_ok s' (consumer s')" using r(4) by (auto simp: c_ok_def s' split: c_pc.splits)
  ultimately show ?thesis unfolding s'_def [symmetric] by (simp add: spsc_inv_def p_ok_def s')
qed

lemma c_pub_inv:
  assumes "spsc_inv k s" "consumer s = CPub x"
  shows "spsc_inv k (s\<lparr>ring_head := ring_head s + 1, received := received s @ [x], consumer := CWake x WLoad\<rparr>)"
proof -
  have r: "ring_ok k s" "p_ok k s (producer s)" using assms by (auto simp: spsc_inv_def)
  obtain q where q: "pending s = x # q" using assms by (cases "pending s") (auto simp: spsc_inv_def c_ok_def)
  have tl: "drop (Suc (length (received s))) (sent s) = q"
    using q by (simp add: pending_def drop_Suc) (metis drop_Suc list.sel(3) tl_drop)
  define s' where "s' = s\<lparr>ring_head := ring_head s + 1, received := received s @ [x], consumer := CWake x WLoad\<rparr>"
  have s': "slot s' i = slot s (Suc i)" "pending s' = q" "ring_mask s' = ring_mask s" "ring_head s' = ring_head s + 1"
    "ring_tail s' = ring_tail s" "sent s' = sent s" "received s' = received s @ [x]" "producer s' = producer s"
    "consumer s' = CWake x WLoad" "buffer s' = buffer s" for i
    using tl by (simp_all add: s'_def slot_def pending_def algebra_simps)
  have "ring_ok k s'" using r(1) by (auto simp: ring_ok_def s' q)
  moreover have "p_ok k s' (producer s')" using r(2) by (auto simp: p_ok_def s' q split: p_pc.splits)
  ultimately show ?thesis unfolding s'_def [symmetric] by (simp add: spsc_inv_def c_ok_def s')
qed

lemma send_fails_frame:
  "core (send_fails b x s) = core s" "p_calm (producer (send_fails b x s))" "consumer (send_fails b x s) = consumer s"
  by (simp_all add: send_fails_def core_def p_calm_def)

lemma send_fails_inv: "spsc_inv k s \<Longrightarrow> spsc_inv k (send_fails b x s)"
  by (erule spsc_inv_frame) (simp_all add: send_fails_frame)

lemma p_step_inv:
  assumes "spsc_inv k s"
  shows "spsc_inv k (p_step rp s)"
proof -
  have ok: "ring_ok k s" using assms by (simp add: spsc_inv_def)
  show ?thesis
  proof (cases "producer s")
    case (PHead b x)
    have "length (pending s) \<le> 2 ^ k" using ok by (simp add: ring_ok_def)
    then have "spsc_inv k (s\<lparr>producer := PWrite b x\<rparr>)" if "\<not> full s"
      using assms that ring_full_iff [OF ok] core_inv [of "s\<lparr>producer := PWrite b x\<rparr>" s]
      by (auto simp: spsc_inv_def core_def) (auto simp: p_ok_def)
    then show ?thesis using PHead send_fails_inv [OF assms] by (simp add: p_steps)
  next
    case (PWrite b x)
    then show ?thesis using p_write_inv [OF assms PWrite] by (simp add: p_steps)
  next
    case (PPub b x)
    then show ?thesis using p_pub_inv [OF assms PPub] by (simp add: p_steps)
  next
    case (PWake w)
    obtain s' w' where w: "wake_waiter w s = (s', w')" by (cases "wake_waiter w s")
    from wake_frame [OF this] show ?thesis using PWake
      by (intro spsc_inv_frame [OF assms]) (auto simp: p_steps w core_def p_calm_def split: option.splits)
  next
    case (PTry b x)
    have "spsc_inv k (s\<lparr>producer := PHead b x\<rparr>)"
      by (rule spsc_inv_frame [OF assms]) (simp_all add: core_def p_calm_def)
    then show ?thesis using PTry send_fails_inv [OF assms] by (simp add: p_steps)
  qed (use assms in \<open>auto simp: p_steps core_def p_calm_def intro!: spsc_inv_frame [OF assms]\<close>)
qed

lemma c_step_inv:
  assumes "spsc_inv k s"
  shows "spsc_inv k (c_step rc s)"
proof -
  have ok: "ring_ok k s" using assms by (simp add: spsc_inv_def)
  show ?thesis
  proof (cases "consumer s")
    case (CTail b)
    have "spsc_inv k (s\<lparr>consumer := CRead b\<rparr>)" if "ring_head s \<noteq> ring_tail s"
      using assms that ring_empty_iff [OF ok] core_inv [of "s\<lparr>consumer := CRead b\<rparr>" s]
      by (auto simp: spsc_inv_def core_def) (auto simp: c_ok_def)
    then show ?thesis using CTail
      by (auto simp: c_steps recv_ends_def core_def c_calm_def intro!: spsc_inv_frame [OF assms])
  next
    case (CRead b)
    have "pending s \<noteq> []" using assms CRead by (simp add: spsc_inv_def c_ok_def)
    then have "buffer s ! unat (ring_head s AND ring_mask s) = hd (pending s)"
      using ok by (auto simp: ring_ok_def slot_def hd_conv_nth)
    then show ?thesis using CRead \<open>pending s \<noteq> []\<close> assms
        core_inv [of "s\<lparr>consumer := CPub (buffer s ! unat (ring_head s AND ring_mask s))\<rparr>" s]
      by (auto simp: c_steps spsc_inv_def core_def) (auto simp: c_ok_def)
  next
    case (CPub x)
    then show ?thesis using c_pub_inv [OF assms CPub] by (simp add: c_steps)
  next
    case (CWake x w)
    obtain s' w' where w: "wake_waiter w s = (s', w')" by (cases "wake_waiter w s")
    from wake_frame [OF this] show ?thesis using CWake
      by (intro spsc_inv_frame [OF assms]) (auto simp: c_steps w recv_ends_def core_def c_calm_def split: option.splits)
  qed (use assms in \<open>auto simp: c_steps recv_ends_def core_def c_calm_def intro!: spsc_inv_frame [OF assms]\<close>)
qed

lemma spsc_do_inv:
  assumes "spsc_inv k s"
  shows "spsc_inv k (spsc_do rp rc a s)"
proof (cases a)
  case K
  show ?thesis
  proof (cases "closer s")
    case (Some w)
    obtain s' w' where w: "wake_waiter w s = (s', w')" by (cases "wake_waiter w s")
    from wake_frame [OF this] show ?thesis using K Some
      by (intro spsc_inv_frame [OF assms]) (auto simp: k_step_def w core_def)
  qed (use K assms in \<open>simp add: k_step_def\<close>)
next
  case (RunPosted h)
  have "core (resume h t) = core s \<and> (producer (resume h t) = producer s \<or> p_calm (producer (resume h t)))
    \<and> (consumer (resume h t) = consumer s \<or> c_calm (consumer (resume h t)))" if "t = s\<lparr>posted := remove1 h (posted s)\<rparr>" for t
    using resume_frame [of h t] that by (auto simp: core_def)
  then show ?thesis using RunPosted assms by (auto intro!: spsc_inv_frame [OF assms])
next
  case P
  then show ?thesis using p_step_inv [OF assms] by simp
next
  case C
  then show ?thesis using c_step_inv [OF assms] by simp
qed (use assms in \<open>auto simp: core_def p_calm_def c_calm_def intro!: spsc_inv_frame [OF assms]\<close>)

lemma spsc_run_inv: "spsc_inv k s \<Longrightarrow> spsc_inv k (spsc_run rp rc acts s)"
  unfolding spsc_run_def by (induction acts arbitrary: s) (auto intro: spsc_do_inv)

section \<open>The constructor\<close>

lemma pow2_loop_ends:
  assumes "n \<le> 2 ^ 63" "j \<le> 63"
  shows "\<exists>k \<le> 63. j \<le> k \<and> pow2_loop n (2 ^ j) = Some (2 ^ k) \<and> n \<le> 2 ^ k \<and> (j < k \<longrightarrow> 2 ^ (k - 1) < n)"
  using assms(2)
proof (induction "63 - j" arbitrary: j)
  case 0
  then have "j = 63" by simp
  moreover have "\<not> (2 :: u64) ^ 63 < n" using assms(1) by simp
  ultimately show ?case using assms(1) by (subst pow2_loop.simps) auto
next
  case (Suc d)
  then have j: "j < 63" "d = 63 - Suc j" by auto
  have double: "push_bit 1 (2 ^ j :: u64) = 2 ^ Suc j" by (simp add: push_bit_eq_mult)
  show ?case
  proof (cases "2 ^ j < n")
    case True
    obtain k where k: "k \<le> 63" "Suc j \<le> k" "pow2_loop n (2 ^ Suc j) = Some (2 ^ k)" "n \<le> 2 ^ k" "Suc j < k \<longrightarrow> 2 ^ (k - 1) < n"
      using Suc.hyps(1) [of "Suc j"] j by auto
    have "pow2_loop n (2 ^ j) = Some (2 ^ k)" using True k(3) by (subst pow2_loop.simps) (simp only: double if_True)
    moreover have "2 ^ (k - 1) < n" using k(2,5) True by (cases "Suc j = k") auto
    ultimately show ?thesis using k by auto
  next
    case False
    then have "pow2_loop n (2 ^ j) = Some (2 ^ j)" by (subst pow2_loop.simps) simp
    then show ?thesis using j False by (intro exI [of _ j]) (auto simp: not_less)
  qed
qed

definition pow2_or_0 :: "u64 \<Rightarrow> bool" where
  "pow2_or_0 p \<longleftrightarrow> p = 0 \<or> (\<exists>j < 64. p = 2 ^ j)"

lemma pow2_or_0_double:
  assumes "pow2_or_0 p"
  shows "pow2_or_0 (push_bit 1 p)"
proof (cases "p = 0")
  case True
  then show ?thesis by (simp add: pow2_or_0_def)
next
  case False
  then obtain j where j: "j < 64" "p = 2 ^ j" using assms by (auto simp: pow2_or_0_def)
  then have p: "push_bit 1 p = 2 ^ Suc j" by (simp add: push_bit_eq_mult)
  show ?thesis
  proof (cases "Suc j = 64")
    case True
    then show ?thesis by (simp only: p True) (simp add: pow2_or_0_def)
  next
    case False
    then show ?thesis unfolding p pow2_or_0_def using j by (intro disjI2 exI [of _ "Suc j"]) simp
  qed
qed

lemma pow2_loop_value:
  assumes "pow2_loop n p = Some y"
  shows "n \<le> y \<and> (pow2_or_0 p \<longrightarrow> pow2_or_0 y)"
proof (rule pow2_loop.raw_induct [OF _ assms])
  fix loop n p y
  assume "\<And>n p y. loop n p = Some y \<Longrightarrow> n \<le> y \<and> (pow2_or_0 p \<longrightarrow> pow2_or_0 y)"
    and "(if p < n then loop n (push_bit 1 p) else Some p) = Some y"
  then show "n \<le> y \<and> (pow2_or_0 p \<longrightarrow> pow2_or_0 y)"
    using pow2_or_0_double [of p] by (simp only: not_less split: if_splits) auto
qed

lemma pow2_or_0_bound: "pow2_or_0 y \<Longrightarrow> y \<le> 2 ^ 63"
proof -
  have "(2 :: u64) ^ j \<le> 2 ^ 63" if "j < 64" for j
    using that power_increasing [of j 63 "2 :: nat"] by (simp add: word_le_nat_alt unat_pow2)
  then show "pow2_or_0 y \<Longrightarrow> y \<le> 2 ^ 63" by (auto simp: pow2_or_0_def)
qed

lemma next_pow2_ends:
  assumes "n \<le> 2 ^ 63" "2 \<le> n"
  shows "\<exists>k \<le> 63. next_pow2 n = Some (2 ^ k) \<and> n \<le> 2 ^ k \<and> 2 ^ (k - 1) < n"
proof -
  from pow2_loop_ends [OF assms(1), of 0] obtain k where
    k: "k \<le> 63" "pow2_loop n 1 = Some (2 ^ k)" "n \<le> 2 ^ k" "0 < k \<longrightarrow> 2 ^ (k - 1) < n" by auto
  have "n \<noteq> 0" using assms(2) by auto
  moreover have "\<not> n \<le> 1" using assms(2) by (auto simp: word_le_nat_alt)
  then have "k \<noteq> 0" using k(3) by (intro notI) simp
  ultimately show ?thesis using k by (intro exI [of _ k]) (simp add: next_pow2_def)
qed

lemma next_pow2_diverges:
  assumes "2 ^ 63 < n"
  shows "next_pow2 n = None"
proof -
  have "pow2_loop n 1 \<noteq> Some y" for y
  proof
    assume "pow2_loop n 1 = Some y"
    moreover have "pow2_or_0 1" unfolding pow2_or_0_def by (intro disjI2 exI [of _ 0]) simp
    ultimately have "n \<le> y" "y \<le> 2 ^ 63" using pow2_loop_value pow2_or_0_bound by blast+
    then show False using assms by simp
  qed
  moreover have "n \<noteq> 0" using assms by auto
  ultimately show ?thesis by (cases "pow2_loop n 1") (auto simp: next_pow2_def)
qed

lemma max_2_bounds: "2 ^ 63 < cap \<longleftrightarrow> 2 ^ 63 < max cap (2 :: u64)" "2 \<le> max cap (2 :: u64)"
  using less_trans [of 2 "2 ^ 63" cap] by (auto simp: max_def)

text \<open>The constructor. A capacity of at most two to the 63 is rounded up to the least power of two that is not below it
  nor below two; for every larger capacity the rounding loop, whose variable is shifted to zero, does not end.\<close>

theorem spsc_capacity:
  "(cap \<le> 2 ^ 63 \<longrightarrow> (\<exists>k \<le> 63. SpscChannel cap d = Some (ring (2 ^ k) d) \<and> max cap 2 \<le> 2 ^ k \<and> 2 ^ (k - 1) < max cap 2)) \<and>
   (2 ^ 63 < cap \<longrightarrow> SpscChannel cap d = None)"
  using next_pow2_ends [of "max cap 2"] next_pow2_diverges [of "max cap 2"] max_2_bounds [of cap]
  by (fastforce simp: SpscChannel_def not_less)

theorem spsc_capacity_witness:
  "(\<exists>k \<le> 63. SpscChannel 5 (0 :: nat) = Some (ring (2 ^ k) 0)) \<and> SpscChannel (2 ^ 63 + 1) (0 :: nat) = None"
  using spsc_capacity [of 5 "0 :: nat"] spsc_capacity [of "2 ^ 63 + 1" "0 :: nat"] by auto

lemma ring_inv:
  assumes "k \<le> 63"
  shows "spsc_inv k (ring (2 ^ k) d)"
proof -
  have "k < 64" using assms by simp
  then have "unat (2 ^ k :: u64) = 2 ^ k" using unat_pow2 [of k, where 'a = 64] by simp
  then show ?thesis using assms
    by (simp add: spsc_inv_def ring_ok_def p_ok_def c_ok_def ring_def pending_def mask_eq_exp_minus_1)
qed

section \<open>First in, first out\<close>

text \<open>The items \<open>recv\<close> and \<open>try_recv\<close> have returned, with the one about to be returned, and the number of accepted ones.\<close>

definition delivered :: "'a spsc \<Rightarrow> 'a list" where
  "delivered s = List.map_filter (\<lambda>r. r) (recv_rets s) @ (case consumer s of CWake x _ \<Rightarrow> [x] | _ \<Rightarrow> [])"

definition accepted :: "'a spsc \<Rightarrow> nat" where
  "accepted s = count_list (send_rets s) Accepted + (case producer s of PWake _ \<Rightarrow> 1 | _ \<Rightarrow> 0)"

definition rets_ok :: "'a spsc \<Rightarrow> bool" where
  "rets_ok s \<longleftrightarrow> delivered s = received s \<and> accepted s = length (sent s)"

lemma map_filter_append: "List.map_filter f (xs @ ys) = List.map_filter f xs @ List.map_filter f ys"
  by (induction xs) (auto simp: map_filter_simps split: option.splits)

lemma resume_rets:
  "recv_rets (resume h s) = recv_rets s \<and> send_rets (resume h s) = send_rets s \<and> received (resume h s) = received s \<and>
   sent (resume h s) = sent s \<and> delivered (resume h s) = delivered s \<and> accepted (resume h s) = accepted s"
proof (cases h)
  case Producer
  then show ?thesis by (cases "producer s") (simp_all add: resume_def delivered_def accepted_def)
next
  case Consumer
  then show ?thesis by (cases "consumer s") (simp_all add: resume_def delivered_def accepted_def)
qed

lemma wake_rets:
  assumes "wake_waiter w s = (s', w')"
  shows "recv_rets s' = recv_rets s \<and> send_rets s' = send_rets s \<and> received s' = received s \<and> sent s' = sent s \<and>
    delivered s' = delivered s \<and> accepted s' = accepted s"
proof (cases w)
  case (WReactor h)
  then show ?thesis using assms resume_rets [of h s]
    by (cases "waiter_reactor s") (auto simp: delivered_def accepted_def)
qed (use assms in \<open>auto simp: delivered_def accepted_def split: option.splits\<close>)

lemma spsc_do_rets: "rets_ok s \<Longrightarrow> rets_ok (spsc_do rp rc a s)"
proof (cases a)
  case P
  assume ok: "rets_ok s"
  show ?thesis
  proof (cases "producer s")
    case (PWake w)
    obtain s' w' where w: "wake_waiter w s = (s', w')" by (cases "wake_waiter w s")
    from wake_rets [OF this] show ?thesis using ok P PWake
      by (auto simp: rets_ok_def p_steps w delivered_def accepted_def split: option.splits)
  qed (use ok P in \<open>auto simp: rets_ok_def p_steps send_fails_def delivered_def accepted_def\<close>)
next
  case C
  assume ok: "rets_ok s"
  show ?thesis
  proof (cases "consumer s")
    case (CWake x w)
    obtain s' w' where w: "wake_waiter w s = (s', w')" by (cases "wake_waiter w s")
    from wake_rets [OF this] show ?thesis using ok C CWake
      by (auto simp: rets_ok_def c_steps w recv_ends_def delivered_def accepted_def map_filter_append map_filter_simps split: option.splits)
  qed (use ok C in \<open>auto simp: rets_ok_def c_steps recv_ends_def delivered_def accepted_def map_filter_append map_filter_simps\<close>)
next
  case K
  assume ok: "rets_ok s"
  show ?thesis
  proof (cases "closer s")
    case (Some w)
    obtain s' w' where w: "wake_waiter w s = (s', w')" by (cases "wake_waiter w s")
    from wake_rets [OF this] show ?thesis using ok K Some
      by (auto simp: rets_ok_def k_step_def w delivered_def accepted_def)
  qed (use ok K in \<open>simp add: k_step_def\<close>)
next
  case (RunPosted h)
  assume "rets_ok s"
  then have "rets_ok (s\<lparr>posted := remove1 h (posted s)\<rparr>)" by (simp add: rets_ok_def delivered_def accepted_def)
  then show ?thesis using RunPosted \<open>rets_ok s\<close> by (simp add: rets_ok_def resume_rets)
qed (auto simp: rets_ok_def delivered_def accepted_def)

lemma spsc_run_rets: "rets_ok s \<Longrightarrow> rets_ok (spsc_run rp rc acts s)"
  unfolding spsc_run_def by (induction acts arbitrary: s) (auto intro: spsc_do_rets)

lemma SpscChannel_ring: "SpscChannel cap d = Some s \<Longrightarrow> \<exists>k \<le> 63. s = ring (2 ^ k) d \<and> cap \<le> 2 ^ k"
  using next_pow2_ends [of "max cap 2"] next_pow2_diverges [of "max cap 2"] max_2_bounds(2) [of cap]
  by (cases "2 ^ 63 < max cap 2") (auto simp: SpscChannel_def not_less)

text \<open>C10: First in, first out. In every state of every run of a constructed channel, whatever the interleaving of the
  producer, the consumer and a close, the items delivered to the consumer are a prefix of the items accepted from
  the producer, in their order, none lost, repeated or invented; at most the capacity are on their way, and
  size_approx, while the counters have not wrapped apart, is their number.\<close>

theorem spsc_fifo:
  assumes "SpscChannel cap d = Some s0" and "s = spsc_run rp rc acts s0"
  shows "\<exists>q. sent s = delivered s @ q \<and> length (sent s) = accepted s \<and> length q \<le> unat (capacity s) \<and> cap \<le> capacity s \<and>
    (ring_head s \<le> ring_tail s \<longrightarrow> size_approx s = of_nat (length q))"
proof -
  obtain k where k: "k \<le> 63" "s0 = ring (2 ^ k) d" "cap \<le> 2 ^ k" using SpscChannel_ring [OF assms(1)] by auto
  have inv: "ring_ok k s"
    using spsc_run_inv [OF ring_inv [OF k(1)], of rp rc acts d] by (simp add: assms(2) k(2) spsc_inv_def)
  have "rets_ok s0" by (simp add: k(2) rets_ok_def ring_def delivered_def accepted_def map_filter_simps)
  then have rets: "rets_ok s" using spsc_run_rets assms(2) by blast
  have cap: "capacity s = 2 ^ k" using inv by (simp add: ring_ok_def capacity_def mask_eq_exp_minus_1)
  moreover have "unat (capacity s) = 2 ^ k" unfolding cap using k(1) unat_pow2 [of k, where 'a = 64] by simp
  ultimately show ?thesis using inv rets k(3)
    by (intro exI [of _ "pending s"]) (auto simp: ring_ok_def rets_ok_def size_approx_def)
qed

lemma ring_2: "SpscChannel 2 d = Some (ring 2 d)"
proof -
  have "pow2_loop 2 2 = Some 2" by (subst pow2_loop.simps) simp
  then have "pow2_loop 2 1 = Some 2" by (subst pow2_loop.simps) (simp add: push_bit_eq_mult)
  then show ?thesis by (simp add: SpscChannel_def next_pow2_def)
qed

definition two_items :: "nat spsc_act list" where
  "two_items = [TrySend 1] @ replicate 5 P @ [TryRecv, TrySend 2, C, P, C, P, P]"

theorem spsc_fifo_witness:
  "\<exists>q. sent (spsc_run None None two_items (ring 2 0)) = delivered (spsc_run None None two_items (ring 2 0)) @ q \<and> length q \<le> 2"
proof -
  define s where "s = spsc_run None None two_items (ring 2 0)"
  obtain q where "sent s = delivered s @ q" "length q \<le> unat (capacity s)" using spsc_fifo [OF ring_2 s_def] by auto
  moreover have "unat (capacity s) = 2" unfolding s_def by code_simp
  ultimately show ?thesis unfolding s_def by auto
qed

end
