(* ===== verification/Spsc_Waiter.thy ===== *)
theory Spsc_Waiter
  imports Spsc_Spec
begin

text \<open>
  The waiter slot of the channel, which the producer and the consumer share: with a waiting producer a wake-up can be lost for
  ever, and a consumer can be resumed that has not been suspended.
\<close>

section \<open>A lost wake-up\<close>

text \<open>Somebody has taken the consumer out of the slot and will resume it.\<close>

definition taken :: "'a spsc \<Rightarrow> bool" where
  "taken s \<longleftrightarrow> Consumer \<in> set (posted s) \<or> producer s = PWake (WReactor Consumer) \<or> closer s = Some (WReactor Consumer)"

text \<open>The consumer is suspended and nobody will resume it.\<close>

definition abandoned :: "'a spsc \<Rightarrow> bool" where
  "abandoned s \<longleftrightarrow> consumer s = CSuspended \<and> waiter s \<noteq> Some Consumer \<and> \<not> taken s"

lemma abandoned_wake:
  assumes "wake_waiter w s = (s', w')" "consumer s = CSuspended" "waiter s \<noteq> Some Consumer" "Consumer \<notin> set (posted s)" "w \<noteq> WReactor Consumer"
  shows "consumer s' = CSuspended \<and> waiter s' \<noteq> Some Consumer \<and> Consumer \<notin> set (posted s') \<and> w' \<noteq> Some (WReactor Consumer) \<and>
    closer s' = closer s \<and> (producer s' = producer s \<or> (\<exists>x. producer s' = PAfter x))"
proof (cases w)
  case (WReactor h)
  then have "h = Producer" using assms(5) by (cases h) auto
  have "wake_waiter w s = (case waiter_reactor s of Some _ \<Rightarrow> (s\<lparr>waiter_reactor := None, posted := posted s @ [Producer]\<rparr>, None)
      | None \<Rightarrow> (resume Producer s, None))"
    using WReactor \<open>h = Producer\<close> by (cases "waiter_reactor s") simp_all
  moreover have "consumer (resume Producer s) = consumer s" "waiter (resume Producer s) = waiter s" "posted (resume Producer s) = posted s"
    "closer (resume Producer s) = closer s" "producer (resume Producer s) = producer s \<or> (\<exists>x. producer (resume Producer s) = PAfter x)"
    by (cases "producer s"; simp add: resume_def)+
  ultimately show ?thesis using assms(1-4) by (cases "waiter_reactor s") auto
qed (use assms in \<open>auto split: option.splits if_splits\<close>)

lemma abandoned_do:
  assumes "abandoned s"
  shows "abandoned (spsc_do rp rc a s)"
proof -
  have s: "consumer s = CSuspended" "waiter s \<noteq> Some Consumer" "Consumer \<notin> set (posted s)"
    "producer s \<noteq> PWake (WReactor Consumer)" "closer s \<noteq> Some (WReactor Consumer)"
    using assms by (auto simp: abandoned_def taken_def)
  show ?thesis
  proof (cases a)
    case P
    show ?thesis
    proof (cases "producer s")
      case (PWake w)
      obtain s' w' where w: "wake_waiter w s = (s', w')" by (cases "wake_waiter w s")
      show ?thesis using abandoned_wake [OF w s(1,2,3)] s PWake P
        by (auto simp: p_steps w abandoned_def taken_def split: option.splits)
    qed (use s P in \<open>auto simp: p_steps send_fails_def abandoned_def taken_def\<close>)
  next
    case C
    then show ?thesis using s assms by (simp add: c_steps)
  next
    case K
    show ?thesis
    proof (cases "closer s")
      case (Some w)
      obtain s' w' where w: "wake_waiter w s = (s', w')" by (cases "wake_waiter w s")
      show ?thesis using abandoned_wake [OF w s(1,2,3)] s Some K
        by (auto simp: k_step_def w abandoned_def taken_def)
    qed (use s K in \<open>auto simp: k_step_def abandoned_def taken_def\<close>)
  next
    case (RunPosted h)
    then show ?thesis using s assms
      by (cases h; cases "producer s") (auto simp: abandoned_def taken_def resume_def dest: in_set_remove1)
  qed (use s in \<open>auto simp: abandoned_def taken_def\<close>)
qed

lemma abandoned_run: "abandoned s \<Longrightarrow> consumer (spsc_run rp rc acts s) = CSuspended"
proof -
  assume "abandoned s"
  then have "abandoned (spsc_run rp rc acts s)"
    unfolding spsc_run_def by (induction acts arbitrary: s) (auto intro: abandoned_do)
  then show ?thesis by (simp add: abandoned_def)
qed

text \<open>The producer finds the ring of two full and is about to register; the consumer takes both items, registers and
  suspends; the producer registers over it, finds room, clears the slot, and its item wakes nobody.\<close>

definition lost_wakeup :: "nat spsc_act list" where
  "lost_wakeup = [Send 1] @ replicate 6 P @ [Send 2] @ replicate 6 P @ [Send 3] @ replicate 4 P
     @ [Recv] @ replicate 4 C @ [Recv] @ replicate 4 C @ [Recv] @ replicate 6 C @ replicate 12 P"

text \<open>The consumer registers; an item arrives and its wake-up is posted; the consumer sees the item, does not suspend and returns.\<close>

definition double_resume :: "nat spsc_act list" where
  "double_resume = [Recv] @ replicate 5 C @ [TrySend 1] @ replicate 7 P @ replicate 8 C @ [RunPosted Consumer]"

text \<open>C34: The shared waiter slot. A channel of capacity two has a run after which an item is in the ring, the producer has
  returned and the consumer is suspended for ever: no further steps of any thread, sends and close included,
  resume it. And it has a run, with a producer that never waits, in which a coroutine that is not suspended is resumed: the wake-up
  was posted while the consumer was registering, the consumer found the item and returned with it, and then the reactor ran the
  wake-up.\<close>

theorem spsc_waiter_races:
  "(let s = spsc_run (Some 1) (Some 2) lost_wakeup (ring 2 0) in
     ring_head s \<noteq> ring_tail s \<and> producer s = PIdle \<and> (\<forall>more. consumer (spsc_run (Some 1) (Some 2) more s) = CSuspended)) \<and>
   broken (spsc_run (Some 1) (Some 2) double_resume (ring 2 0))"
proof -
  let ?s = "spsc_run (Some 1) (Some 2) lost_wakeup (ring 2 0)"
  have "abandoned ?s" "ring_head ?s \<noteq> ring_tail ?s" "producer ?s = PIdle"
    by code_simp+
  moreover have "broken (spsc_run (Some 1) (Some 2) double_resume (ring 2 0))"
    by code_simp
  ultimately show ?thesis by (simp add: Let_def abandoned_run)
qed

end
