(* ===== verification/Generation_Pool.thy ===== *)
theory Generation_Pool
  imports Prelude "HOL-Library.Multiset"
begin

unbundle bit_operations_syntax

text \<open>
  \<open>GenerationPool\<close> of \<open>include/qbuem/buf/generation_pool.hpp\<close>: a pool of slots whose free list is a stack with a tagged head,
  shared by threads. \<open>acquire\<close> and \<open>release\<close> are steps between their accesses to shared memory, interleaved in any order; a
  weak exchange may fail without reason. The storage of the objects is not part of the model: a slot is its index.
\<close>

section \<open>Handles and heads\<close>

type_synonym handle = u64

definition kNull :: handle where
  "kNull = - 1"

definition GenerationHandle :: "u32 \<Rightarrow> u32 \<Rightarrow> handle" where
  "GenerationHandle i g = push_bit 32 (ucast g) OR ucast i"

definition h_index :: "handle \<Rightarrow> u32" where
  "h_index h = ucast h"

definition h_gen :: "handle \<Rightarrow> u32" where
  "h_gen h = ucast (drop_bit 32 h)"

definition h_valid :: "handle \<Rightarrow> bool" where
  "h_valid h \<longleftrightarrow> h \<noteq> kNull"

definition kNilIdx :: u32 where
  "kNilIdx = - 1"

definition make_head :: "u32 \<Rightarrow> u32 \<Rightarrow> u64" where
  "make_head idx tag = push_bit 32 (ucast tag) OR ucast idx"

definition head_idx :: "u64 \<Rightarrow> u32" where
  "head_idx h = ucast h"

definition head_tag :: "u64 \<Rightarrow> u32" where
  "head_tag h = ucast (drop_bit 32 h)"

section \<open>The pool\<close>

record gp_slot =
  generation :: u32
  next_free :: u32

record gp_pool =
  slots :: "gp_slot list"
  gp_head :: u64

definition GenerationPool :: "nat \<Rightarrow> gp_pool" where
  "GenerationPool capacity =
     \<lparr> slots = map (\<lambda>i. \<lparr> generation = 1, next_free = (if i + 1 < capacity then of_nat (i + 1) else kNilIdx) \<rparr>) [0..<capacity],
       gp_head = make_head 0 0 \<rparr>"

definition set_generation :: "u32 \<Rightarrow> u32 \<Rightarrow> gp_pool \<Rightarrow> gp_pool" where
  "set_generation i g p = p\<lparr>slots := (slots p)[unat i := (slots p ! unat i)\<lparr>generation := g\<rparr>]\<rparr>"

definition set_next_free :: "u32 \<Rightarrow> u32 \<Rightarrow> gp_pool \<Rightarrow> gp_pool" where
  "set_next_free i n p = p\<lparr>slots := (slots p)[unat i := (slots p ! unat i)\<lparr>next_free := n\<rparr>]\<rparr>"

definition resolve :: "gp_pool \<Rightarrow> handle \<Rightarrow> u32 option" where
  "resolve p h =
     (if \<not> h_valid h then None
      else if unat (h_index h) \<ge> length (slots p) then None
      else
        (let cur_gen = generation (slots p ! unat (h_index h)) in
         if cur_gen = h_gen h \<and> cur_gen AND 1 = 0 then Some (h_index h) else None))"

definition for_each_live :: "gp_pool \<Rightarrow> handle list" where
  "for_each_live p =
     map (\<lambda>i. GenerationHandle (of_nat i) (generation (slots p ! i)))
       (filter (\<lambda>i. generation (slots p ! i) AND 1 = 0) [0..<length (slots p)])"

text \<open>Where a thread stands: before its next access, with what its local variables hold. For \<open>release\<close> it is also noted whether the caller
  still held the handle, which the code does not look at.\<close>

datatype gp_pc =
    Idle
  | AcqLoad
  | AcqTop u64
  | AcqCas u64 u32
  | AcqGen u32
  | AcqStore u32 u32
  | RelCheck handle bool
  | RelInc handle
  | RelLoad u32
  | RelNext u32 u64
  | RelCas u32 u64

datatype gp_result = Acquired handle | Exhausted | Stale | Invalidated handle

text \<open>\<open>compare_exchange_weak\<close>: success, and the value in \<open>old_head\<close> afterwards.\<close>

definition cas_head :: "bool \<Rightarrow> u64 \<Rightarrow> u64 \<Rightarrow> gp_pool \<Rightarrow> bool \<times> u64 \<times> gp_pool" where
  "cas_head spurious old new p =
     (if gp_head p = old \<and> \<not> spurious then (True, old, p\<lparr>gp_head := new\<rparr>) else (False, gp_head p, p))"

fun acquire_step :: "bool \<Rightarrow> gp_pc \<Rightarrow> gp_pool \<Rightarrow> gp_pc \<times> gp_pool \<times> gp_result option" where
  "acquire_step sp AcqLoad p = (AcqTop (gp_head p), p, None)"
| "acquire_step sp (AcqTop old) p =
     (if head_idx old = kNilIdx then (Idle, p, Some Exhausted)
      else (AcqCas old (next_free (slots p ! unat (head_idx old))), p, None))"
| "acquire_step sp (AcqCas old nx) p =
     (case cas_head sp old (make_head nx (head_tag old + 1)) p of
        (True, h, p) \<Rightarrow> (AcqGen (head_idx old), p, None)
      | (False, h, p) \<Rightarrow> (AcqTop h, p, None))"
| "acquire_step sp (AcqGen i) p = (AcqStore i ((generation (slots p ! unat i) + 1) AND NOT 1), p, None)"
| "acquire_step sp (AcqStore i g) p = (Idle, set_generation i g p, Some (Acquired (GenerationHandle i g)))"
| "acquire_step sp pc p = (pc, p, None)"

fun release_step :: "bool \<Rightarrow> gp_pc \<Rightarrow> gp_pool \<Rightarrow> gp_pc \<times> gp_pool \<times> gp_result option" where
  "release_step sp (RelCheck h held) p =
     (if \<not> h_valid h then (Idle, p, Some Stale)
      else if generation (slots p ! unat (h_index h)) \<noteq> h_gen h then (Idle, p, Some Stale)
      else (RelInc h, p, None))"
| "release_step sp (RelInc h) p =
     (RelLoad (h_index h), set_generation (h_index h) (generation (slots p ! unat (h_index h)) + 1) p, Some (Invalidated h))"
| "release_step sp (RelLoad i) p = (RelNext i (gp_head p), p, None)"
| "release_step sp (RelNext i old) p = (RelCas i old, set_next_free i (head_idx old) p, None)"
| "release_step sp (RelCas i old) p =
     (case cas_head sp old (make_head i (head_tag old + 1)) p of
        (True, h, p) \<Rightarrow> (Idle, p, None)
      | (False, h, p) \<Rightarrow> (RelNext i h, p, None))"
| "release_step sp pc p = (pc, p, None)"

fun in_acquire :: "gp_pc \<Rightarrow> bool" where
  "in_acquire AcqLoad = True"
| "in_acquire (AcqTop old) = True"
| "in_acquire (AcqCas old nx) = True"
| "in_acquire (AcqGen i) = True"
| "in_acquire (AcqStore i g) = True"
| "in_acquire pc = False"

section \<open>Threads\<close>

text \<open>The threads that share a pool, the handles that have been given out and not yet been passed to \<open>release\<close>, and those a
  release has invalidated. A client may release a handle it holds, and again, or one that is null, once a release has
  invalidated it; it does not release a handle a second time while the first release is still before its increment.\<close>

record gp_state =
  gp_of :: gp_pool
  pcs :: "gp_pc list"
  holding :: "handle list"
  retired :: "handle list"

datatype gp_action = StartAcquire nat | StartRelease nat handle | Step nat bool

definition gp_init :: "nat \<Rightarrow> nat \<Rightarrow> gp_state" where
  "gp_init capacity threads = \<lparr> gp_of = GenerationPool capacity, pcs = replicate threads Idle, holding = [], retired = [] \<rparr>"

definition gp_step :: "nat \<Rightarrow> bool \<Rightarrow> gp_state \<Rightarrow> gp_state" where
  "gp_step t sp s =
     (let pc = pcs s ! t in
      case (if in_acquire pc then acquire_step sp pc (gp_of s) else release_step sp pc (gp_of s)) of
        (pc', p', r) \<Rightarrow>
          (let s = s\<lparr>gp_of := p', pcs := (pcs s)[t := pc']\<rparr> in
           case r of
             Some (Acquired h) \<Rightarrow> s\<lparr>holding := h # holding s\<rparr>
           | Some (Invalidated h) \<Rightarrow> s\<lparr>retired := h # retired s\<rparr>
           | _ \<Rightarrow> s))"

fun gp_do :: "gp_action \<Rightarrow> gp_state \<Rightarrow> gp_state" where
  "gp_do (StartAcquire t) s = (if t < length (pcs s) \<and> pcs s ! t = Idle then s\<lparr>pcs := (pcs s)[t := AcqLoad]\<rparr> else s)"
| "gp_do (StartRelease t h) s =
     (if t < length (pcs s) \<and> pcs s ! t = Idle \<and> (h \<in> set (holding s) \<or> h \<in> set (retired s) \<or> \<not> h_valid h)
      then s\<lparr>pcs := (pcs s)[t := RelCheck h (h \<in> set (holding s))], holding := remove1 h (holding s)\<rparr> else s)"
| "gp_do (Step t sp) s = (if t < length (pcs s) then gp_step t sp s else s)"

definition gp_run :: "gp_action list \<Rightarrow> gp_state \<Rightarrow> gp_state" where
  "gp_run as s = fold gp_do as s"

end
