(* ===== verification/Generation_Pool_Spec.thy ===== *)
theory Generation_Pool_Spec
  imports Generation_Pool
begin

unbundle bit_operations_syntax

text \<open>
  The pool under every interleaving: each slot is always in exactly one place (the free list, a handle, or the hands of one
  thread), so a slot is never given out twice; a handle resolves until its release and never afterwards. The tag of the head
  is what makes the exchange safe: it counts the changes of the head, so an exchange succeeds only on the very head the
  thread has read.
\<close>

section \<open>Words\<close>

lemma make_head_parts [simp]: "head_idx (make_head i t) = i" "head_tag (make_head i t) = t"
  by (rule bit_word_eqI; auto simp: make_head_def head_idx_def head_tag_def bit_simps dest: bit_imp_le_length)+

lemma handle_parts [simp]: "h_index (GenerationHandle i g) = i" "h_gen (GenerationHandle i g) = g"
  by (rule bit_word_eqI; auto simp: GenerationHandle_def h_index_def h_gen_def bit_simps dest: bit_imp_le_length)+

lemma and_1_even: "(g :: u32) AND 1 = 0 \<longleftrightarrow> even g"
  by (simp add: and_one_eq even_iff_mod_2_eq_zero)

lemma next_even: "odd (g :: u32) \<Longrightarrow> (g + 1) AND NOT 1 = g + 1"
proof (rule bit_word_eqI)
  fix n
  assume "odd g"
  then have "\<not> bit (g + 1) 0" by (simp add: bit_0)
  then show "bit ((g + 1) AND NOT 1) n = bit (g + 1) n" if "n < LENGTH(32)"
    using that by (cases "n = 0") (auto simp: bit_simps bit_1_iff)
qed

lemma h_index_null: "h_index kNull = - 1"
  by (rule bit_word_eqI) (simp add: h_index_def kNull_def bit_simps)

lemma valid_handle: "i \<noteq> - 1 \<Longrightarrow> h_valid (GenerationHandle i g)"
  unfolding h_valid_def by (metis h_index_null handle_parts(1))

section \<open>The invariant\<close>

text \<open>The free list from an index on.\<close>

fun linked :: "gp_slot list \<Rightarrow> u32 \<Rightarrow> nat list \<Rightarrow> bool" where
  "linked ss i [] \<longleftrightarrow> i = kNilIdx"
| "linked ss i (n # ns) \<longleftrightarrow> unat i = n \<and> n < length ss \<and> linked ss (next_free (ss ! n)) ns"

text \<open>The slot in the hands of a thread.\<close>

fun transit :: "gp_pc \<Rightarrow> nat list" where
  "transit (AcqGen i) = [unat i]"
| "transit (AcqStore i g) = [unat i]"
| "transit (RelCheck h held) = (if held then [unat (h_index h)] else [])"
| "transit (RelInc h) = [unat (h_index h)]"
| "transit (RelLoad i) = [unat i]"
| "transit (RelNext i old) = [unat i]"
| "transit (RelCas i old) = [unat i]"
| "transit pc = []"

definition gen_at :: "gp_pool \<Rightarrow> nat \<Rightarrow> u32" where
  "gen_at p i = generation (slots p ! i)"

definition live_at :: "gp_pool \<Rightarrow> handle \<Rightarrow> bool" where
  "live_at p h \<longleftrightarrow> gen_at p (unat (h_index h)) = h_gen h \<and> even (h_gen h) \<and> h_valid h"

definition stale_at :: "gp_pool \<Rightarrow> handle \<Rightarrow> bool" where
  "stale_at p h \<longleftrightarrow> unat (h_gen h) < unat (gen_at p (unat (h_index h)))"

text \<open>What a thread has read is the current head, or the head has changed since.\<close>

definition read_head :: "gp_pool \<Rightarrow> nat \<Rightarrow> u64 \<Rightarrow> bool \<Rightarrow> bool" where
  "read_head p ch old q \<longleftrightarrow>
     (head_idx old = kNilIdx \<or> unat (head_idx old) < length (slots p))
     \<and> (\<exists>v \<le> ch. head_tag old = of_nat v \<and> (v = ch \<longrightarrow> old = gp_head p \<and> q))"

fun pc_ok :: "gp_pool \<Rightarrow> nat \<Rightarrow> gp_pc \<Rightarrow> bool" where
  "pc_ok p ch (AcqTop old) \<longleftrightarrow> read_head p ch old True"
| "pc_ok p ch (AcqCas old nx) \<longleftrightarrow> head_idx old \<noteq> kNilIdx \<and> read_head p ch old (nx = next_free (slots p ! unat (head_idx old)))"
| "pc_ok p ch (AcqGen i) \<longleftrightarrow> odd (gen_at p (unat i))"
| "pc_ok p ch (AcqStore i g) \<longleftrightarrow> odd (gen_at p (unat i)) \<and> g = gen_at p (unat i) + 1"
| "pc_ok p ch (RelCheck h held) \<longleftrightarrow> (if held then live_at p h else \<not> h_valid h \<or> stale_at p h)"
| "pc_ok p ch (RelInc h) \<longleftrightarrow> live_at p h"
| "pc_ok p ch (RelLoad i) \<longleftrightarrow> odd (gen_at p (unat i))"
| "pc_ok p ch (RelNext i old) \<longleftrightarrow> odd (gen_at p (unat i))"
| "pc_ok p ch (RelCas i old) \<longleftrightarrow> odd (gen_at p (unat i)) \<and> next_free (slots p ! unat i) = head_idx old"
| "pc_ok p ch pc \<longleftrightarrow> True"

definition places :: "nat list \<Rightarrow> gp_state \<Rightarrow> nat list" where
  "places L s = L @ map (\<lambda>h. unat (h_index h)) (holding s) @ concat (map transit (pcs s))"

definition pool_ok :: "nat \<Rightarrow> gp_state \<Rightarrow> bool" where
  "pool_ok cap s \<longleftrightarrow>
     length (slots (gp_of s)) = cap \<and> cap < 2 ^ 32 - 1 \<and> (\<forall>h \<in> set (holding s). live_at (gp_of s) h)
     \<and> (\<forall>h \<in> set (retired s). unat (h_index h) < cap \<and> stale_at (gp_of s) h)"

definition gp_inv :: "nat \<Rightarrow> nat \<Rightarrow> nat list \<Rightarrow> nat \<Rightarrow> gp_state \<Rightarrow> bool" where
  "gp_inv cap n L ch s \<longleftrightarrow>
     pool_ok cap s \<and> ch \<le> n \<and> head_tag (gp_head (gp_of s)) = of_nat ch
     \<and> linked (slots (gp_of s)) (head_idx (gp_head (gp_of s))) L \<and> mset (places L s) = mset [0..<cap]
     \<and> (\<forall>i \<in> set L. odd (gen_at (gp_of s) i)) \<and> (\<forall>pc \<in> set (pcs s). pc_ok (gp_of s) ch pc)
     \<and> (\<forall>i < cap. unat (gen_at (gp_of s) i) \<le> n + 1)"

lemma concat_update:
  assumes "t < length xss"
  shows "mset (concat (xss[t := ys])) + mset (xss ! t) = mset (concat xss) + mset ys"
  using assms
proof (induction xss arbitrary: t)
  case (Cons xs xss)
  show ?case
  proof (cases t)
    case (Suc t')
    then have "mset (concat (xss[t' := ys])) + mset (xss ! t') = mset (concat xss) + mset ys" using Cons by simp
    then show ?thesis using Suc by (simp add: add.assoc)
  qed (simp add: ac_simps)
qed simp

lemma mset_swap:
  fixes A :: "'a multiset"
  assumes "C + X = C0 + X'" "A + B + X' = A0 + B0 + X"
  shows "A + (B + C) = A0 + (B0 + C0)"
proof -
  have "A + (B + C) + X = A + B + (C + X)" by (simp add: ac_simps)
  also have "\<dots> = A + B + X' + C0" unfolding assms(1) by (simp add: ac_simps)
  also have "\<dots> = A0 + (B0 + C0) + X" unfolding assms(2) by (simp add: ac_simps)
  finally show ?thesis by simp
qed

lemma places_step:
  assumes "t < length (pcs s)" "mset (places L s) = mset [0..<cap]"
    and "mset L' + mset (map (\<lambda>h. unat (h_index h)) hs') + mset (transit pc') =
      mset L + mset (map (\<lambda>h. unat (h_index h)) (holding s)) + mset (transit (pcs s ! t))"
  shows "mset (places L' (s\<lparr>pcs := (pcs s)[t := pc'], holding := hs'\<rparr>)) = mset [0..<cap]"
proof -
  have "mset (concat (map transit ((pcs s)[t := pc']))) + mset (transit (pcs s ! t)) = mset (concat (map transit (pcs s))) + mset (transit pc')"
    using concat_update [of t "map transit (pcs s)" "transit pc'"] assms(1) by (simp add: map_update)
  from mset_swap [OF this assms(3)] have "mset (places L' (s\<lparr>pcs := (pcs s)[t := pc'], holding := hs'\<rparr>)) = mset (places L s)"
    by (simp add: places_def)
  with assms(2) show ?thesis by simp
qed

lemma places_distinct:
  assumes "mset (places L s) = mset [0..<cap]"
  shows "distinct (places L s)" "set (places L s) = {0..<cap}"
  using assms mset_eq_imp_distinct_iff mset_eq_setD by fastforce+

lemma distinct_concat_nth:
  "distinct (concat xss) \<Longrightarrow> i < length xss \<Longrightarrow> j < length xss \<Longrightarrow> i \<noteq> j \<Longrightarrow> set (xss ! i) \<inter> set (xss ! j) = {}"
proof (induction xss arbitrary: i j)
  case (Cons xs xss)
  then show ?case by (cases i; cases j) (fastforce simp: nth_mem)+
qed simp

text \<open>A slot in the hands of a thread is nowhere else.\<close>

lemma alone:
  assumes "mset (places L s) = mset [0..<cap]" "t < length (pcs s)" "transit (pcs s ! t) = [i]"
  shows "i < cap" "i \<notin> set L" "\<And>h. h \<in> set (holding s) \<Longrightarrow> unat (h_index h) \<noteq> i"
    "\<And>t'. t' < length (pcs s) \<Longrightarrow> t' \<noteq> t \<Longrightarrow> i \<notin> set (transit (pcs s ! t'))"
proof -
  note d = places_distinct [OF assms(1)]
  have m: "i \<in> set (concat (map transit (pcs s)))" using assms(2,3) by (force simp: in_set_conv_nth)
  show "i < cap" using m d(2) by (auto simp: places_def)
  show "i \<notin> set L" using m d(1) by (auto simp: places_def)
  show "unat (h_index h) \<noteq> i" if "h \<in> set (holding s)" for h using m d(1) that by (auto simp: places_def)
  show "i \<notin> set (transit (pcs s ! t'))" if "t' < length (pcs s)" "t' \<noteq> t" for t'
    using distinct_concat_nth [of "map transit (pcs s)" t t'] d(1) assms(2,3) that by (auto simp: places_def)
qed

section \<open>Steps\<close>

abbreviation moved :: "nat \<Rightarrow> gp_pc \<Rightarrow> gp_pool \<Rightarrow> handle list \<Rightarrow> handle list \<Rightarrow> gp_state \<Rightarrow> gp_state" where
  "moved t pc p hs rs s \<equiv> s\<lparr>gp_of := p, pcs := (pcs s)[t := pc], holding := hs, retired := rs\<rparr>"

lemma places_moved:
  assumes "t < length (pcs s)" "mset (places L s) = mset [0..<cap]"
    and "mset L' + mset (map (\<lambda>h. unat (h_index h)) hs) + mset (transit pc) =
      mset L + mset (map (\<lambda>h. unat (h_index h)) (holding s)) + mset (transit (pcs s ! t))"
  shows "mset (places L' (moved t pc p hs rs s)) = mset [0..<cap]"
  using places_step [OF assms] by (simp add: places_def)

lemma pcs_moved:
  assumes "\<forall>q \<in> set (pcs s). pc_ok p ch q" "t < length (pcs s)" "pc_ok p' ch' pc"
    and "\<And>t'. t' < length (pcs s) \<Longrightarrow> t' \<noteq> t \<Longrightarrow> pc_ok p ch (pcs s ! t') \<Longrightarrow> pc_ok p' ch' (pcs s ! t')"
  shows "\<forall>q \<in> set (pcs (moved t pc p' hs rs s)). pc_ok p' ch' q"
proof
  fix q
  assume "q \<in> set (pcs (moved t pc p' hs rs s))"
  then obtain t' where "t' < length (pcs s)" "q = (pcs s)[t := pc] ! t'" by (auto simp: in_set_conv_nth)
  then show "pc_ok p' ch' q" using assms by (cases "t' = t") auto
qed

text \<open>A step that changes nothing but the place of its thread.\<close>

lemma local_step:
  assumes inv: "gp_inv cap n L ch s" and t: "t < length (pcs s)" and "transit pc = transit (pcs s ! t)" and "pc_ok (gp_of s) ch pc"
  shows "gp_inv cap n L ch (s\<lparr>pcs := (pcs s)[t := pc]\<rparr>)"
proof -
  have "mset (places L (moved t pc (gp_of s) (holding s) (retired s) s)) = mset [0..<cap]"
    by (rule places_moved) (use inv t assms(3) in \<open>auto simp: gp_inv_def\<close>)
  moreover have "\<forall>q \<in> set (pcs (moved t pc (gp_of s) (holding s) (retired s) s)). pc_ok (gp_of s) ch q"
    by (rule pcs_moved [of s "gp_of s" ch]) (use inv t assms(4) in \<open>auto simp: gp_inv_def\<close>)
  ultimately show ?thesis using inv by (auto simp: gp_inv_def pool_ok_def places_def le_Suc_eq)
qed

definition near :: "nat \<Rightarrow> gp_pool \<Rightarrow> gp_pool \<Rightarrow> bool" where
  "near i p p' \<longleftrightarrow> gp_head p' = gp_head p \<and> length (slots p') = length (slots p) \<and> (\<forall>j. j \<noteq> i \<longrightarrow> slots p' ! j = slots p ! j)"

lemma near_set [simp]: "near (unat i) p (set_generation i g p)" "near (unat i) p (set_next_free i m p)"
  by (simp_all add: near_def set_generation_def set_next_free_def)

lemma live_near: "near i p p' \<Longrightarrow> unat (h_index h) \<noteq> i \<Longrightarrow> live_at p' h = live_at p h"
  by (simp add: near_def live_at_def gen_at_def)

lemma pc_near:
  assumes "near i p p'" "i \<notin> set (transit pc)" "pc_ok p ch pc"
    and "unat (gen_at p i) \<le> unat (gen_at p' i)" and "unat (head_idx (gp_head p)) \<noteq> i \<or> next_free (slots p' ! i) = next_free (slots p ! i)"
  shows "pc_ok p' ch pc"
proof (cases pc)
  case (AcqCas old nx)
  have "unat (head_idx old) = i \<Longrightarrow> old = gp_head p \<Longrightarrow> next_free (slots p' ! i) = next_free (slots p ! i)" using assms(5) by auto
  with AcqCas assms(1,3) show ?thesis
    by (cases "unat (head_idx old) = i") (auto simp: near_def read_head_def)
next
  case (RelCheck h held)
  have "stale_at p h \<Longrightarrow> stale_at p' h"
    using assms(1,4) by (cases "unat (h_index h) = i") (auto simp: near_def stale_at_def gen_at_def)
  with RelCheck assms(1-3) show ?thesis by (auto simp: live_near)
qed (use assms in \<open>auto simp: near_def live_at_def gen_at_def read_head_def\<close>)

lemma linked_cong:
  "length ss' = length ss \<Longrightarrow> (\<And>m. m \<in> set L \<Longrightarrow> next_free (ss' ! m) = next_free (ss ! m)) \<Longrightarrow> linked ss' i L = linked ss i L"
  by (induction L arbitrary: i) simp_all

lemma linked_head: "linked ss i L \<Longrightarrow> L = [] \<and> i = kNilIdx \<or> (\<exists>ns. L = unat i # ns \<and> unat i < length ss)"
  by (cases L) auto

lemma nil_big: "unat kNilIdx = 2 ^ 32 - 1"
  by (simp add: kNilIdx_def unsigned_minus_1_eq_mask mask_eq_exp_minus_1)

text \<open>A step that changes the slot in the hands of its thread.\<close>

lemma slot_step:
  assumes inv: "gp_inv cap n L ch s" and t: "t < length (pcs s)" and i: "transit (pcs s ! t) = [i]" and nr: "near i (gp_of s) p'"
    and pc: "pc_ok p' ch pc"
    and ms: "mset (map (\<lambda>h. unat (h_index h)) hs) + mset (transit pc) = mset (map (\<lambda>h. unat (h_index h)) (holding s)) + {#i#}"
    and hs: "\<And>h. h \<in> set hs \<Longrightarrow> h \<in> set (holding s) \<or> live_at p' h"
    and up: "unat (gen_at (gp_of s) i) \<le> unat (gen_at p' i)" "unat (gen_at p' i) \<le> n' + 1" "n \<le> n'"
    and rs: "\<And>h. h \<in> set rs \<Longrightarrow> h \<in> set (retired s) \<or> unat (h_index h) = i \<and> stale_at p' h"
  shows "gp_inv cap n' L ch (moved t pc p' hs rs s)"
proof -
  have m: "mset (places L s) = mset [0..<cap]" and pk: "pool_ok cap s" using inv by (simp_all add: gp_inv_def)
  note al = alone [OF m t i]
  have hd: "unat (head_idx (gp_head (gp_of s))) \<noteq> i"
  proof -
    have "linked (slots (gp_of s)) (head_idx (gp_head (gp_of s))) L" using inv by (simp add: gp_inv_def)
    from linked_head [OF this] show ?thesis using al(1,2) pk nil_big by (auto simp: pool_ok_def)
  qed
  have gen: "j \<noteq> i \<Longrightarrow> gen_at p' j = gen_at (gp_of s) j" for j using nr by (simp add: near_def gen_at_def)
  have 1: "mset (places L (moved t pc p' hs rs s)) = mset [0..<cap]"
    by (rule places_moved [OF t m]) (use ms i in \<open>simp add: add.assoc\<close>)
  have 2: "\<forall>q \<in> set (pcs (moved t pc p' hs rs s)). pc_ok p' ch q"
    by (rule pcs_moved [of s "gp_of s" ch]) (use inv t pc al(4) pc_near [OF nr] up(1) hd in \<open>auto simp: gp_inv_def\<close>)
  have 3: "linked (slots p') (head_idx (gp_head p')) L"
  proof -
    have "next_free (slots p' ! k) = next_free (slots (gp_of s) ! k)" if "k \<in> set L" for k using nr al(2) that by (auto simp: near_def)
    then show ?thesis using inv nr linked_cong [of "slots p'" "slots (gp_of s)" L] by (simp add: gp_inv_def near_def)
  qed
  have 4: "\<forall>k \<in> set L. odd (gen_at p' k)" using inv gen al(2) by (metis gp_inv_def)
  have 5: "live_at p' h" if "h \<in> set hs" for h
    using hs [OF that] pk al(3) live_near [OF nr] by (auto simp: pool_ok_def)
  have 6: "unat (h_index h) < cap \<and> stale_at p' h" if "h \<in> set rs" for h
    using rs [OF that] pk gen up(1) al(1) by (cases "unat (h_index h) = i") (auto simp: pool_ok_def stale_at_def)
  have 7: "unat (gen_at p' j) \<le> n' + 1" if "j < cap" for j
    using inv that gen up(2,3) by (cases "j = i") (auto simp: gp_inv_def dest!: spec [of _ j])
  show ?thesis using inv 1 2 3 4 5 6 7 nr pk up(3) by (auto simp: gp_inv_def pool_ok_def near_def)
qed

lemma gen_head [simp]: "gen_at (p\<lparr>gp_head := h\<rparr>) i = gen_at p i" "live_at (p\<lparr>gp_head := h\<rparr>) x = live_at p x"
  "stale_at (p\<lparr>gp_head := h\<rparr>) x = stale_at p x"
  by (simp_all add: gen_at_def live_at_def stale_at_def)

lemma pc_head: "pc_ok p ch pc \<Longrightarrow> pc_ok (p\<lparr>gp_head := h\<rparr>) (ch + 1) pc"
  by (cases pc) (auto simp: read_head_def intro: le_SucI)

text \<open>A step that exchanges the head.\<close>

lemma head_step:
  assumes inv: "gp_inv cap n L ch s" and t: "t < length (pcs s)"
    and h: "h = make_head i (head_tag (gp_head (gp_of s)) + 1)" "linked (slots (gp_of s)) i L'"
    and ms: "mset L' + mset (transit pc) = mset L + mset (transit (pcs s ! t))"
    and odd: "\<And>k. k \<in> set L' \<Longrightarrow> odd (gen_at (gp_of s) k)" and pc: "pc_ok (gp_of s) (ch + 1) pc"
    and noread: "\<And>p p'. slots p = slots p' \<Longrightarrow> pc_ok p (ch + 1) pc = pc_ok p' (ch + 1) pc"
  shows "gp_inv cap (n + 1) L' (ch + 1) (s\<lparr>gp_of := (gp_of s)\<lparr>gp_head := h\<rparr>, pcs := (pcs s)[t := pc]\<rparr>)"
proof -
  let ?p = "(gp_of s)\<lparr>gp_head := h\<rparr>"
  have "mset (places L' (moved t pc ?p (holding s) (retired s) s)) = mset [0..<cap]"
    by (rule places_moved [OF t]) (use inv ms in \<open>auto simp: gp_inv_def ac_simps\<close>)
  moreover have "\<forall>q \<in> set (pcs (moved t pc ?p (holding s) (retired s) s)). pc_ok ?p (ch + 1) q"
    by (rule pcs_moved [of s "gp_of s" ch]) (use inv t pc noread [of ?p "gp_of s"] pc_head in \<open>auto simp: gp_inv_def\<close>)
  ultimately show ?thesis using inv h odd by (auto simp: gp_inv_def pool_ok_def places_def le_Suc_eq)
qed

lemma read_current:
  assumes "read_head p ch old q" "gp_head p = old" "head_tag (gp_head p) = of_nat ch" "ch < 2 ^ 32"
  shows q
proof -
  obtain v where v: "v \<le> ch" "head_tag old = of_nat v" "v = ch \<longrightarrow> q" using assms(1) by (auto simp: read_head_def)
  have "(of_nat v :: u32) = of_nat ch" using v(2) assms(2,3) by simp
  then have "unat (of_nat v :: u32) = unat (of_nat ch :: u32)" by simp
  then have "v = ch" using v(1) assms(4) by (simp add: unat_of_nat_small)
  with v(3) show ?thesis by simp
qed

lemma pop_step:
  assumes inv: "gp_inv cap n L ch s" and t: "t < length (pcs s)" "pcs s ! t = AcqCas old nx" and "gp_head (gp_of s) = old" and n: "n < 2 ^ 32"
  shows "\<exists>L'. gp_inv cap (n + 1) L' (ch + 1)
    (s\<lparr>gp_of := (gp_of s)\<lparr>gp_head := make_head nx (head_tag old + 1)\<rparr>, pcs := (pcs s)[t := AcqGen (head_idx old)]\<rparr>)"
proof -
  let ?p = "gp_of s"
  have "pc_ok ?p ch (AcqCas old nx)" using inv nth_mem [OF t(1)] unfolding gp_inv_def t(2) by blast
  then have rd: "read_head ?p ch old (nx = next_free (slots ?p ! unat (head_idx old)))" and ne: "head_idx old \<noteq> kNilIdx" by simp_all
  have nx: "nx = next_free (slots ?p ! unat (head_idx old))"
    by (rule read_current [OF rd]) (use inv n assms(4) in \<open>auto simp: gp_inv_def\<close>)
  have "linked (slots ?p) (head_idx old) L" using inv assms(4) by (simp add: gp_inv_def)
  then obtain ns where L: "L = unat (head_idx old) # ns" and lk: "linked (slots ?p) nx ns"
    using ne nx by (cases L) auto
  have o: "odd (gen_at ?p k)" if "k \<in> set L" for k using inv that by (simp add: gp_inv_def)
  have "gp_inv cap (n + 1) ns (ch + 1)
      (s\<lparr>gp_of := ?p\<lparr>gp_head := make_head nx (head_tag old + 1)\<rparr>, pcs := (pcs s)[t := AcqGen (head_idx old)]\<rparr>)"
    by (rule head_step [OF inv t(1) _ lk]) (use L o t(2) assms(4) in \<open>auto simp: gen_at_def\<close>)
  then show ?thesis by blast
qed

lemma push_step:
  assumes inv: "gp_inv cap n L ch s" and t: "t < length (pcs s)" "pcs s ! t = RelCas i old" and "gp_head (gp_of s) = old"
  shows "gp_inv cap (n + 1) (unat i # L) (ch + 1)
    (s\<lparr>gp_of := (gp_of s)\<lparr>gp_head := make_head i (head_tag old + 1)\<rparr>, pcs := (pcs s)[t := Idle]\<rparr>)"
proof -
  let ?p = "gp_of s"
  have pc: "pc_ok ?p ch (RelCas i old)" using inv nth_mem [OF t(1)] unfolding gp_inv_def t(2) by blast
  have "mset (places L s) = mset [0..<cap]" using inv by (simp add: gp_inv_def)
  from alone(1) [OF this t(1)] have "unat i < length (slots ?p)" using t(2) inv by (simp add: gp_inv_def pool_ok_def)
  with pc have "linked (slots ?p) i (unat i # L)" using inv assms(4) by (simp add: gp_inv_def)
  then show ?thesis by (rule head_step [OF inv t(1), rotated]) (use pc inv t(2) assms(4) in \<open>auto simp: gp_inv_def\<close>)
qed

lemma same_pool [simp]: "s\<lparr>gp_of := gp_of s, pcs := x\<rparr> = s\<lparr>pcs := x\<rparr>"
  by (cases s) simp

lemma moved_forms:
  "moved t pc p hs (retired s) s = s\<lparr>gp_of := p, pcs := (pcs s)[t := pc], holding := hs\<rparr>"
  "moved t pc p (holding s) rs s = s\<lparr>gp_of := p, pcs := (pcs s)[t := pc], retired := rs\<rparr>"
  "moved t pc p (holding s) (retired s) s = s\<lparr>gp_of := p, pcs := (pcs s)[t := pc]\<rparr>"
  by (cases s; simp)+

lemma gen_set_generation [simp]: "unat i < length (slots p) \<Longrightarrow> gen_at (set_generation i g p) (unat i) = g"
  by (simp add: gen_at_def set_generation_def)

lemma gen_set_next [simp]: "gen_at (set_next_free i m p) (unat i) = gen_at p (unat i)"
  by (cases "unat i < length (slots p)") (simp_all add: gen_at_def set_next_free_def list_update_beyond)

lemma unat_inc: "unat (g :: u32) + 1 < 2 ^ 32 \<Longrightarrow> unat (g + 1) = unat g + 1"
  by (simp add: unat_word_ariths)

lemma gen_bound: "gp_inv cap n L ch s \<Longrightarrow> i < cap \<Longrightarrow> unat (gen_at (gp_of s) i) \<le> n + 1"
  unfolding gp_inv_def by blast

lemma gen_Suc:
  assumes "gp_inv cap n L ch s" "i < cap" "n + 2 < 2 ^ 32"
  shows "unat (gen_at (gp_of s) i + 1) = unat (gen_at (gp_of s) i) + 1"
proof -
  have "unat (gen_at (gp_of s) i) \<le> n + 1" using gen_bound [OF assms(1,2)] .
  then show ?thesis using assms(3) by (intro unat_inc) linarith
qed

lemma store_step:
  assumes inv: "gp_inv cap n L ch s" and t: "t < length (pcs s)" "pcs s ! t = AcqStore i g" and n: "n + 2 < 2 ^ 32"
  shows "gp_inv cap (n + 1) L ch
    (s\<lparr>gp_of := set_generation i g (gp_of s), pcs := (pcs s)[t := Idle], holding := GenerationHandle i g # holding s\<rparr>)"
proof -
  let ?p = "set_generation i g (gp_of s)"
  have m: "mset (places L s) = mset [0..<cap]" and ok: "pc_ok (gp_of s) ch (AcqStore i g)" and len: "length (slots (gp_of s)) = cap"
    and cap: "cap < 2 ^ 32 - 1"
    using inv nth_mem [OF t(1)] unfolding gp_inv_def pool_ok_def t(2) by blast+
  have i: "unat i < cap" by (rule alone(1) [OF m t(1)]) (simp add: t(2))
  have g: "g = gen_at (gp_of s) (unat i) + 1" "even g" using ok by simp_all
  have u: "unat g = unat (gen_at (gp_of s) (unat i)) + 1" unfolding g(1) by (rule gen_Suc [OF inv i n])
  have "i \<noteq> - 1" using i cap nil_big by (auto simp: kNilIdx_def)
  then have live: "live_at ?p (GenerationHandle i g)" using g(2) i len by (simp add: live_at_def valid_handle)
  have "gp_inv cap (n + 1) L ch (moved t Idle ?p (GenerationHandle i g # holding s) (retired s) s)"
    by (rule slot_step [OF inv t(1), of "unat i"]) (use t(2) live i len u gen_bound [OF inv i] in auto)
  then show ?thesis by (simp only: moved_forms(1))
qed

lemma inc_step:
  assumes inv: "gp_inv cap n L ch s" and t: "t < length (pcs s)" "pcs s ! t = RelInc h" and n: "n + 2 < 2 ^ 32"
  shows "gp_inv cap (n + 1) L ch
    (s\<lparr>gp_of := set_generation (h_index h) (gen_at (gp_of s) (unat (h_index h)) + 1) (gp_of s),
       pcs := (pcs s)[t := RelLoad (h_index h)], retired := h # retired s\<rparr>)"
proof -
  let ?i = "h_index h" and ?g = "gen_at (gp_of s) (unat (h_index h)) + 1"
  let ?p = "set_generation ?i ?g (gp_of s)"
  have m: "mset (places L s) = mset [0..<cap]" and ok: "pc_ok (gp_of s) ch (RelInc h)" and len: "length (slots (gp_of s)) = cap"
    using inv nth_mem [OF t(1)] unfolding gp_inv_def pool_ok_def t(2) by blast+
  have i: "unat ?i < cap" by (rule alone(1) [OF m t(1)]) (simp add: t(2))
  have u: "unat ?g = unat (gen_at (gp_of s) (unat ?i)) + 1" by (rule gen_Suc [OF inv i n])
  have h: "h_gen h = gen_at (gp_of s) (unat ?i)" "even (h_gen h)" using ok by (simp_all add: live_at_def)
  have "gp_inv cap (n + 1) L ch (moved t (RelLoad ?i) ?p (holding s) (h # retired s) s)"
    by (rule slot_step [OF inv t(1), of "unat ?i"]) (use t(2) h i len u gen_bound [OF inv i] in \<open>auto simp: stale_at_def\<close>)
  then show ?thesis by (simp only: moved_forms(2))
qed

lemma next_step:
  assumes inv: "gp_inv cap n L ch s" and t: "t < length (pcs s)" "pcs s ! t = RelNext i old"
  shows "gp_inv cap n L ch (s\<lparr>gp_of := set_next_free i (head_idx old) (gp_of s), pcs := (pcs s)[t := RelCas i old]\<rparr>)"
proof -
  let ?p = "set_next_free i (head_idx old) (gp_of s)"
  have m: "mset (places L s) = mset [0..<cap]" and ok: "pc_ok (gp_of s) ch (RelNext i old)" and len: "length (slots (gp_of s)) = cap"
    using inv nth_mem [OF t(1)] unfolding gp_inv_def pool_ok_def t(2) by blast+
  have i: "unat i < cap" by (rule alone(1) [OF m t(1)]) (simp add: t(2))
  have g: "unat (gen_at (gp_of s) (unat i)) \<le> n + 1" using inv i by (simp add: gp_inv_def)
  have "next_free (slots ?p ! unat i) = head_idx old" using i len by (simp add: set_next_free_def)
  then have "gp_inv cap n L ch (moved t (RelCas i old) ?p (holding s) (retired s) s)"
    by (intro slot_step [OF inv t(1), of "unat i"]) (use t(2) ok g in auto)
  then show ?thesis by (simp only: moved_forms(3))
qed

text \<open>The changes of the head and of generations that a thread is still to make in its call.\<close>

fun todo :: "gp_pc \<Rightarrow> nat" where
  "todo Idle = 0"
| "todo AcqLoad = 2"
| "todo (AcqTop old) = 2"
| "todo (AcqCas old nx) = 2"
| "todo (AcqGen i) = 1"
| "todo (AcqStore i g) = 1"
| "todo (RelCheck h held) = 2"
| "todo (RelInc h) = 2"
| "todo (RelLoad i) = 1"
| "todo (RelNext i old) = 1"
| "todo (RelCas i old) = 1"

definition stepped :: "nat \<Rightarrow> nat \<Rightarrow> nat \<Rightarrow> gp_state \<Rightarrow> gp_state \<Rightarrow> bool" where
  "stepped cap n t s s' \<longleftrightarrow>
     (\<exists>L' ch' k pc'. gp_inv cap (n + k) L' ch' s' \<and> pcs s' = (pcs s)[t := pc'] \<and> k + todo pc' \<le> todo (pcs s ! t))"

lemma step_inv:
  assumes inv: "gp_inv cap n L ch s" and t: "t < length (pcs s)" and n: "n + 2 < 2 ^ 32"
  shows "stepped cap n t s (gp_step t sp s)"
proof -
  have ok: "pc_ok (gp_of s) ch (pcs s ! t)" using inv nth_mem [OF t] by (simp add: gp_inv_def)
  have hd: "read_head (gp_of s) ch (gp_head (gp_of s)) True"
    using inv linked_head [of "slots (gp_of s)" "head_idx (gp_head (gp_of s))" L] by (auto simp: gp_inv_def read_head_def)
  have by_k: "stepped cap n t s (gp_step t sp s)"
    if "gp_inv cap (n + k) L' ch' (gp_step t sp s)" "pcs (gp_step t sp s) = (pcs s)[t := pc]" "k + todo pc \<le> todo (pcs s ! t)" for k L' ch' pc
    using that unfolding stepped_def by blast
  have loc: ?thesis
    if "gp_step t sp s = s\<lparr>pcs := (pcs s)[t := pc]\<rparr>" "transit pc = transit (pcs s ! t)" "pc_ok (gp_of s) ch pc" "todo pc \<le> todo (pcs s ! t)" for pc
    using local_step [OF inv t that(2,3)] that(1,4) by (intro by_k [of 0 L ch pc]) simp_all
  show ?thesis
  proof (cases "pcs s ! t")
    case Idle
    then show ?thesis by (intro loc [of Idle]) (simp_all add: gp_step_def)
  next
    case AcqLoad
    then show ?thesis using hd by (intro loc [of "AcqTop (gp_head (gp_of s))"]) (simp_all add: gp_step_def)
  next
    case (AcqTop old)
    show ?thesis
    proof (cases "head_idx old = kNilIdx")
      case True
      with AcqTop show ?thesis by (intro loc [of Idle]) (simp_all add: gp_step_def)
    next
      case False
      with AcqTop ok show ?thesis
        by (intro loc [of "AcqCas old (next_free (slots (gp_of s) ! unat (head_idx old)))"]) (auto simp: gp_step_def read_head_def)
    qed
  next
    case (AcqCas old nx)
    show ?thesis
    proof (cases "gp_head (gp_of s) = old \<and> \<not> sp")
      case True
      with pop_step [OF inv t AcqCas] n obtain L' where "gp_inv cap (n + 1) L' (ch + 1) (gp_step t sp s)"
        using AcqCas by (auto simp: gp_step_def cas_head_def)
      then show ?thesis by (rule by_k [where pc = "AcqGen (head_idx old)"]) (use AcqCas True in \<open>simp_all add: gp_step_def cas_head_def\<close>)
    next
      case False
      with AcqCas hd show ?thesis by (intro loc [of "AcqTop (gp_head (gp_of s))"]) (auto simp: gp_step_def cas_head_def)
    qed
  next
    case (AcqGen i)
    with ok show ?thesis
      by (intro loc [of "AcqStore i (gen_at (gp_of s) (unat i) + 1)"]) (auto simp: gp_step_def gen_at_def next_even [simplified])
  next
    case (AcqStore i g)
    with store_step [OF inv t AcqStore n] show ?thesis by (intro by_k [of 1 L ch Idle]) (simp_all add: gp_step_def)
  next
    case (RelCheck h held)
    show ?thesis
    proof (cases held)
      case True
      with RelCheck ok show ?thesis by (intro loc [of "RelInc h"]) (auto simp: gp_step_def live_at_def gen_at_def)
    next
      case False
      with RelCheck ok show ?thesis by (intro loc [of Idle]) (auto simp: gp_step_def stale_at_def gen_at_def)
    qed
  next
    case (RelInc h)
    with inc_step [OF inv t RelInc n] show ?thesis by (intro by_k [of 1 L ch "RelLoad (h_index h)"]) (simp_all add: gp_step_def gen_at_def)
  next
    case (RelLoad i)
    with ok show ?thesis by (intro loc [of "RelNext i (gp_head (gp_of s))"]) (auto simp: gp_step_def)
  next
    case (RelNext i old)
    with next_step [OF inv t RelNext] show ?thesis by (intro by_k [of 0 L ch "RelCas i old"]) (simp_all add: gp_step_def)
  next
    case (RelCas i old)
    show ?thesis
    proof (cases "gp_head (gp_of s) = old \<and> \<not> sp")
      case True
      with RelCas push_step [OF inv t RelCas] show ?thesis
        by (intro by_k [of 1 "unat i # L" "ch + 1" Idle]) (simp_all add: gp_step_def cas_head_def)
    next
      case False
      with RelCas ok show ?thesis by (intro loc [of "RelNext i (gp_head (gp_of s))"]) (auto simp: gp_step_def cas_head_def)
    qed
  qed
qed

lemma remove1_map: "x \<in> set xs \<Longrightarrow> mset (map f xs) = mset (map f (remove1 x xs)) + {#f x#}"
  by (induction xs) auto

lemma start_release_inv:
  assumes inv: "gp_inv cap n L ch s" and t: "t < length (pcs s)" "pcs s ! t = Idle" and h: "h \<in> set (holding s)"
  shows "gp_inv cap n L ch (s\<lparr>pcs := (pcs s)[t := RelCheck h True], holding := remove1 h (holding s)\<rparr>)"
proof -
  let ?f = "\<lambda>h. unat (h_index h)"
  have ms: "mset (map ?f (holding s)) = mset (map ?f (remove1 h (holding s))) + {#?f h#}"
    using remove1_map [OF h, of ?f] .
  have sub: "x \<in> set (remove1 h (holding s)) \<Longrightarrow> x \<in> set (holding s)" for x by (rule subsetD [OF set_remove1_subset])
  have "mset (places L (moved t (RelCheck h True) (gp_of s) (remove1 h (holding s)) (retired s) s)) = mset [0..<cap]"
  proof (rule places_moved [OF t(1)])
    show "mset (places L s) = mset [0..<cap]" using inv by (simp add: gp_inv_def)
    show "mset L + mset (map ?f (remove1 h (holding s))) + mset (transit (RelCheck h True)) =
      mset L + mset (map ?f (holding s)) + mset (transit (pcs s ! t))" unfolding ms t(2) by simp
  qed
  moreover have "\<forall>q \<in> set (pcs (moved t (RelCheck h True) (gp_of s) (remove1 h (holding s)) (retired s) s)). pc_ok (gp_of s) ch q"
    by (rule pcs_moved [of s "gp_of s" ch]) (use inv t h in \<open>auto simp: gp_inv_def pool_ok_def\<close>)
  ultimately show ?thesis
    using inv sub by (auto simp: gp_inv_def pool_ok_def places_def le_Suc_eq)
qed

lemma start_again_inv:
  assumes inv: "gp_inv cap n L ch s" and t: "t < length (pcs s)" "pcs s ! t = Idle" and h: "h \<in> set (retired s) \<or> \<not> h_valid h"
  shows "gp_inv cap n L ch (s\<lparr>pcs := (pcs s)[t := RelCheck h False]\<rparr>)"
  by (rule local_step [OF inv t(1)]) (use inv t(2) h in \<open>auto simp: gp_inv_def pool_ok_def\<close>)

definition pend :: "gp_state \<Rightarrow> nat" where
  "pend s = sum_list (map todo (pcs s))"

lemma pend_update:
  "t < length (pcs s) \<Longrightarrow> pcs s' = (pcs s)[t := pc] \<Longrightarrow> pend s' + todo (pcs s ! t) = pend s + todo pc"
proof -
  have "t < length xs \<Longrightarrow> sum_list (map todo (xs[t := pc])) + todo (xs ! t) = sum_list (map todo xs) + todo pc" for xs
    by (induction xs arbitrary: t) (auto split: nat.split simp: nth_Cons)
  then show "t < length (pcs s) \<Longrightarrow> pcs s' = (pcs s)[t := pc] \<Longrightarrow> ?thesis" by (simp add: pend_def)
qed

text \<open>The calls that a run starts.\<close>

fun is_call :: "gp_action \<Rightarrow> bool" where
  "is_call (StartAcquire t) = True"
| "is_call (StartRelease t h) = True"
| "is_call (Step t sp) = False"

definition calls :: "gp_action list \<Rightarrow> nat" where
  "calls as = length (filter is_call as)"

definition budget_inv :: "nat \<Rightarrow> nat \<Rightarrow> gp_state \<Rightarrow> bool" where
  "budget_inv cap N s \<longleftrightarrow> (\<exists>n L ch. gp_inv cap n L ch s \<and> n + pend s \<le> N)"

lemma budgetI: "gp_inv cap n L ch s \<Longrightarrow> n + pend s \<le> N \<Longrightarrow> budget_inv cap N s"
  unfolding budget_inv_def by blast

lemma budget_start:
  assumes "gp_inv cap n L ch s'" "n + pend s \<le> N" "t < length (pcs s)" "pcs s ! t = Idle" "pcs s' = (pcs s)[t := pc]" "todo pc = 2"
  shows "budget_inv cap (N + 2) s'"
  by (rule budgetI [OF assms(1)]) (use assms pend_update [OF assms(3,5)] in simp)

lemma gp_do_inv:
  assumes "budget_inv cap N s" and N: "N + 2 < 2 ^ 32"
  shows "budget_inv cap (N + (if is_call a then 2 else 0)) (gp_do a s)"
proof -
  obtain n L ch where inv: "gp_inv cap n L ch s" and b: "n + pend s \<le> N" using assms(1) by (auto simp: budget_inv_def)
  have keep: "budget_inv cap (N + k) s" for k by (rule budgetI [OF inv]) (use b in simp)
  show ?thesis
  proof (cases a)
    case (StartAcquire t)
    show ?thesis
    proof (cases "t < length (pcs s) \<and> pcs s ! t = Idle")
      case True
      then have "gp_inv cap n L ch (s\<lparr>pcs := (pcs s)[t := AcqLoad]\<rparr>)" using local_step [OF inv, of t AcqLoad] by simp
      from budget_start [OF this b, of t AcqLoad] show ?thesis using True StartAcquire by simp
    qed (use StartAcquire keep [of 2] in auto)
  next
    case (StartRelease t h)
    show ?thesis
    proof (cases "t < length (pcs s) \<and> pcs s ! t = Idle \<and> (h \<in> set (holding s) \<or> h \<in> set (retired s) \<or> \<not> h_valid h)")
      case True
      let ?s = "s\<lparr>pcs := (pcs s)[t := RelCheck h (h \<in> set (holding s))], holding := remove1 h (holding s)\<rparr>"
      have "gp_inv cap n L ch ?s"
        using True start_release_inv [OF inv, of t h] start_again_inv [OF inv, of t h]
        by (cases "h \<in> set (holding s)") (simp_all add: remove1_idem)
      from budget_start [OF this b, of t "RelCheck h (h \<in> set (holding s))"] show ?thesis using True StartRelease by simp
    qed (use StartRelease keep [of 2] in auto)
  next
    case (Step t sp)
    show ?thesis
    proof (cases "t < length (pcs s)")
      case True
      have "n + 2 < 2 ^ 32" using b N by linarith
      from step_inv [OF inv True this, of sp] obtain L' ch' k pc' where k: "gp_inv cap (n + k) L' ch' (gp_step t sp s)"
        "pcs (gp_step t sp s) = (pcs s)[t := pc']" "k + todo pc' \<le> todo (pcs s ! t)" by (auto simp: stepped_def)
      have "n + k + pend (gp_step t sp s) \<le> N" using pend_update [OF True k(2)] k(3) b by linarith
      with budgetI [OF k(1)] show ?thesis using True Step by simp
    qed (use Step keep [of 0] in auto)
  qed
qed

lemma gp_run_inv:
  "budget_inv cap N s \<Longrightarrow> N + 2 * calls as + 2 < 2 ^ 32 \<Longrightarrow> budget_inv cap (N + 2 * calls as) (gp_run as s)"
proof (induction as arbitrary: N s)
  case (Cons a as)
  have "budget_inv cap (N + (if is_call a then 2 else 0)) (gp_do a s)"
    using Cons.prems by (intro gp_do_inv) (auto simp: calls_def split: if_splits)
  from Cons.IH [OF this] Cons.prems(2) show ?case by (auto simp: gp_run_def calls_def split: if_splits)
qed (auto simp: gp_run_def calls_def)

lemma linked_init:
  assumes "k < cap" "cap < 2 ^ 32 - 1"
  shows "linked (slots (GenerationPool cap)) (of_nat k) [k..<cap]"
  using assms(1)
proof (induction "cap - k" arbitrary: k)
  case (Suc d)
  have k: "unat (of_nat k :: u32) = k" using Suc.prems assms(2) by (intro unat_of_nat_small) simp
  have nx: "next_free (slots (GenerationPool cap) ! k) = (if k + 1 < cap then of_nat (k + 1) else kNilIdx)"
    using Suc.prems by (simp add: GenerationPool_def)
  have l: "length (slots (GenerationPool cap)) = cap" by (simp add: GenerationPool_def)
  show ?case
  proof (cases "k + 1 < cap")
    case True
    then have "linked (slots (GenerationPool cap)) (of_nat (k + 1)) [k + 1..<cap]" using Suc by (intro Suc.hyps) auto
    then show ?thesis using True Suc.prems k nx l by (simp add: upt_conv_Cons)
  next
    case False
    then have "[k..<cap] = [k]" using Suc.prems by (simp add: upt_conv_Cons)
    then show ?thesis using False Suc.prems k nx l by simp
  qed
qed simp

lemma gp_init_inv:
  assumes "1 \<le> cap" "cap < 2 ^ 32 - 1"
  shows "gp_inv cap 0 [0..<cap] 0 (gp_init cap threads)"
proof -
  have g: "gen_at (GenerationPool cap) i = 1" if "i < cap" for i using that by (simp add: gen_at_def GenerationPool_def)
  have "concat (map transit (replicate threads Idle)) = []" by simp
  then show ?thesis
    using assms linked_init [of 0 cap] g
    by (auto simp: gp_inv_def gp_init_def pool_ok_def places_def) (auto simp: GenerationPool_def)
qed

lemma live_resolves: "live_at p h \<Longrightarrow> unat (h_index h) < length (slots p) \<Longrightarrow> resolve p h = Some (h_index h)"
  by (simp add: live_at_def resolve_def gen_at_def and_1_even)

text \<open>C11: threads sharing a pool. In every interleaving of the accesses of fewer than two to the 31 calls, each of any number of steps, the
  handles given out are for distinct slots and each resolves to its slot, and a handle whose release has taken effect resolves to
  nothing although its slot is reused. The calls are \<open>acquire\<close> and \<open>release\<close>, of a handle that is held, or of one that is null or
  that an earlier release has invalidated, which changes nothing; a second release while the first is still before its increment is
  excluded. The bound is what the 32-bit tags and generations can count.\<close>

theorem pool_exclusive:
  assumes "1 \<le> cap" "cap < 2 ^ 32 - 1" "calls as + 1 < 2 ^ 31" "s = gp_run as (gp_init cap threads)"
  shows "distinct (map h_index (holding s)) \<and> (\<forall>h \<in> set (holding s). resolve (gp_of s) h = Some (h_index h))
    \<and> (\<forall>h \<in> set (retired s). resolve (gp_of s) h = None)"
proof -
  have "pend (gp_init cap threads) = 0" by (simp add: pend_def gp_init_def sum_list_replicate)
  then have "budget_inv cap 0 (gp_init cap threads)" using gp_init_inv [OF assms(1,2)] by (auto simp: budget_inv_def)
  from gp_run_inv [OF this, of as] obtain n L ch where inv: "gp_inv cap n L ch s" using assms(3,4) by (auto simp: budget_inv_def)
  have m: "mset (places L s) = mset [0..<cap]" and pk: "pool_ok cap s" using inv by (simp_all add: gp_inv_def)
  note d = places_distinct [OF m]
  have "distinct (map (\<lambda>h. unat (h_index h)) (holding s))" using d(1) by (simp add: places_def)
  then have "distinct (map h_index (holding s))" by (auto simp: distinct_map inj_on_def)
  moreover have "resolve (gp_of s) h = Some (h_index h)" if "h \<in> set (holding s)" for h
  proof (rule live_resolves)
    show "live_at (gp_of s) h" using pk that by (simp add: pool_ok_def)
    have "unat (h_index h) \<in> set (places L s)" using that by (simp add: places_def)
    then show "unat (h_index h) < length (slots (gp_of s))" using d(2) pk by (simp add: pool_ok_def)
  qed
  moreover have "resolve (gp_of s) h = None" if "h \<in> set (retired s)" for h
    using pk that by (auto simp: pool_ok_def stale_at_def resolve_def gen_at_def Let_def)
  ultimately show ?thesis by blast
qed

theorem pool_exclusive_witness:
  "let go = StartAcquire 0 # replicate 5 (Step 0 False); h = GenerationHandle 0 2;
     s = gp_run (go @ [StartRelease 1 h] @ replicate 5 (Step 1 False) @ go @ [StartRelease 1 h, Step 1 False]) (gp_init 2 2)
   in holding s = [GenerationHandle 0 4] \<and> retired s = [h]
     \<and> resolve (gp_of s) (GenerationHandle 0 4) = Some (h_index (GenerationHandle 0 4)) \<and> resolve (gp_of s) h = None"
proof -
  define as where "as = (StartAcquire 0 # replicate 5 (Step 0 False)) @ [StartRelease 1 (GenerationHandle 0 2)]
    @ replicate 5 (Step 1 False) @ (StartAcquire 0 # replicate 5 (Step 0 False)) @ [StartRelease 1 (GenerationHandle 0 2), Step 1 False]"
  define s where "s = gp_run as (gp_init 2 2)"
  have "holding s = [GenerationHandle 0 4] \<and> retired s = [GenerationHandle 0 2]" unfolding s_def as_def by code_simp
  moreover have "calls as = 4" by (simp add: as_def calls_def)
  ultimately show ?thesis using pool_exclusive [of 2 as s 2] by (simp add: s_def as_def Let_def)
qed

section \<open>Releasing twice\<close>

text \<open>The check of the generation and its increment are two accesses. Two threads that release one handle at the same time
  can both pass the check; the slot is then pushed twice, and two later calls of \<open>acquire\<close> give it out twice.\<close>

lemma double_release_race:
  "let h = GenerationHandle 0 2;
     p = gp_of (gp_run (StartAcquire 0 # replicate 5 (Step 0 False)) (gp_init 2 2));
     s = \<lparr> gp_of = p, pcs = [RelCheck h True, RelCheck h True], holding = [], retired = [] \<rparr>;
     s = gp_run ([Step 0 False, Step 1 False] @ replicate 4 (Step 0 False) @ replicate 4 (Step 1 False)) s;
     s = gp_run (StartAcquire 0 # replicate 5 (Step 0 False) @ StartAcquire 1 # replicate 5 (Step 1 False)) s
   in map h_index (holding s) = [0, 0]"
  by code_simp

lemma zero_handle_valid: "h_valid 0 \<and> \<not> h_valid kNull"
  by (simp add: h_valid_def kNull_def)

end
