(* ===== verification/Spec2Isabelle.thy ===== *)
theory Spec2Isabelle
  imports Prelude Url Timer_Wheel_Spec Base64 Codecs Http_Parser_Spec Http2_Requests WebSocket_Spec Router_Spec Response_Spec
    Send_Response_Spec App_Routes App_Runs Circuit_Breaker Retry_Policy Spsc_Waiter Generation_Pool_Spec
begin

text \<open>
  A verification of qbuem-stack, a C++ server library: HTTP/1.1, HTTP/2 and WebSocket protocol code, the router, the
  codecs, the timer wheel and the memory pools below them, the epoll reactor and the application on it that put them
  together, and the channel and resilience parts of its pipelines.

  \<^bold>\<open>The program and its models.\<close> A connection delivers bytes in pieces. The HTTP/1.1 parser turns them into a request, the
  router chooses the handler, and the response goes back; HTTP/2 and WebSocket handlers do the same from frames. The epoll
  reactor runs the callbacks of connections and of their timers; the timer wheel, for callers with many timers, takes its
  entries from the fixed pool.

  \<^item> \<open>Prelude\<close>: types of the model (\<open>u8\<close> to \<open>u64\<close> words, \<open>bytes\<close>), searches in lists and bit facts all theories share.
  \<^item> \<open>Url\<close>: \<open>include/qbuem/url.hpp\<close>; decoding inverts encoding.
  \<^item> \<open>Slot_Pool\<close> and \<open>Fixed_Pool\<close>: \<open>FixedPoolResource\<close> of \<open>core/arena.hpp\<close>, its free list threaded through the
    slots of a byte-addressed store; \<open>Slot_Pool\<close> is the interface, interpreted on the pool.
  \<^item> \<open>Timer_Wheel\<close>, \<open>Timer_Wheel_Invariant\<close>, \<open>Timer_Wheel_Timing\<close>, \<open>Timer_Wheel_Spec\<close>: \<open>core/timer_wheel.hpp\<close>, the four
    levels with their slots, cascading and the cached minimum, refining a table from timers to expiry times.
  \<^item> \<open>Base64\<close>: \<open>crypto/base64.hpp\<close> with the scalar and the NEON encoder.
  \<^item> \<open>Frame_Codec\<close> and \<open>Codecs\<close>: the codec interface of \<open>codec/frame_codec.hpp\<close> as a locale, and the length-prefixed and
    the line codec as its instances: however a stream is cut, the frames come out whole and in order.
  \<^item> \<open>Http_Request\<close>, \<open>Http_Scan\<close>, \<open>Http_Parser\<close>, \<open>Http_Parser_Run\<close>, \<open>Http_Parser_Spec\<close>: \<open>http/request.hpp\<close>,
    \<open>src/http/request.cpp\<close> and \<open>src/http/parser.cpp\<close> with its vector scans, and \<open>codec/http1_codec.hpp\<close>.
  \<^item> \<open>Hpack\<close>, \<open>Http2\<close>, \<open>Http2_Spec\<close>, \<open>Http2_Requests\<close>: \<open>server/http2_handler.hpp\<close>: header compression, every frame type,
    the stream table, flow control and limits, and the delivery of requests.
  \<^item> \<open>WebSocket\<close>, \<open>WebSocket_Spec\<close>: \<open>server/websocket_handler.hpp\<close>: frames, masking in its vector builds, the handshake with
    its SHA-1, and the receive loop.
  \<^item> \<open>Router\<close>, \<open>Router_Spec\<close>: \<open>http/router.hpp\<close> and \<open>src/http/router.cpp\<close>, the radix tree as a map from token lists to handlers.
  \<^item> \<open>Generation_Pool\<close>, \<open>Generation_Pool_Spec\<close>: \<open>buf/generation_pool.hpp\<close> as interleaved steps of its threads.
  \<^item> \<open>Response\<close>, \<open>Response_Spec\<close>: \<open>http/response.hpp\<close> and \<open>src/http/response.cpp\<close>, and the write loops of \<open>src/qbuem_stack.cpp\<close>.
  \<^item> \<open>Http_Views\<close>: where the fields of a parsed request point in the receive buffer, and what they read once it changes.
  \<^item> \<open>Epoll_Reactor\<close>, \<open>Epoll_Reactor_Spec\<close>: \<open>src/core/epoll_reactor.cpp\<close> with the descriptors and the interest set of the kernel;
    the locale \<open>loop_client\<close> says what callbacks owe the event loop, and is interpreted on the application.
  \<^item> \<open>Send_Response\<close>, \<open>Send_Response_Spec\<close>: \<open>send_response\<close> of \<open>src/qbuem_stack.cpp\<close>: conditional requests, ranges, connection headers.
  \<^item> \<open>Application\<close>, \<open>App_Timers\<close>, \<open>App_Serves\<close>, \<open>App_Runs\<close>, \<open>App_Routes\<close>: \<open>App\<close> of \<open>src/qbuem_stack.cpp\<close>, which composes reactor,
    parser, router and response: accepting, the read callback, timers, dispatch, the probes and static files. A request that
    arrives in pieces is followed from the socket to the bytes of its response.
  \<^item> \<open>Circuit_Breaker\<close>, \<open>Retry_Policy\<close>: \<open>pipeline/circuit_breaker.hpp\<close> and \<open>pipeline/retry_policy.hpp\<close>.
  \<^item> \<open>Spsc_Channel\<close>, \<open>Spsc_Spec\<close>, \<open>Spsc_Waiter\<close>: \<open>pipeline/spsc_channel.hpp\<close> as interleaved steps of its threads.

  Each operation of the code is a definition of its own name where possible; a class is a record, an enumeration a
  datatype, and a member function takes the record and returns it updated. Errors are values: \<open>Inl\<close> an error code, or
  a status. An \<open>unordered_map\<close> whose order of iteration matters is an association list. \<open>size_t\<close> is a natural number
  with the wrap-around written out where a value can reach it, and a 64-bit word where it does so by design.

  \<^bold>\<open>What the lemmas show.\<close> For each component there is an invariant kept by every operation, and over it the
  properties numbered C1 to C40: round trips of the encoders, equality of the vector code with its scalar definition,
  refinement of an abstract table or stream by the detailed state (timer wheel, router, codecs, channel, WebSocket loop),
  limits and flow-control windows, termination of the loops, recovery of the breaker, delivery of requests, and the
  places where the code departs from what it documents, each with a concrete run.

  \<^bold>\<open>Loops and bounds.\<close> Every loop is a terminating function with its measure except \<open>next_pow2\<close> of the channel, which is
  a \<open>partial_function\<close> because it does not end for some arguments; no definition uses fuel. Hypotheses on sizes, such as
  a stream shorter than two to the 64, say that a \<open>size_t\<close> can count it; the bounds on the calls of the generation pool and on the
  timers made are what its 32-bit tags and the \<open>int\<close> counter of identifiers can number. Signed overflow is modelled as wrapping.

  \<^bold>\<open>Concurrency.\<close> The channel, the generation pool and the breaker are modelled under sequential consistency. Each access to a shared
  variable that another thread can tell from the next is a step, the stores under the mutex of the breaker included; the loads of one
  condition of the channel are one step. A posted resumption runs when its coroutine's own thread is back in its loop. The reorderings
  that the weaker memory orders of the code allow are not modelled, and no claim is made that depends on their absence but the order
  and the exclusive use of the data: in particular none about wake-ups.

  \<^bold>\<open>Not modelled.\<close> Reactors other than epoll, sockets, files, shared memory and threads are system calls; what a call returns
  is an argument where a modelled operation depends on it. In the application, asynchronous handlers and middlewares, the
  hand-over to a WebSocket server, signals and logging are not followed. Coroutines are modelled by their
  results, or in the channel by explicit positions. Cryptographic primitives other than Base64 and the SHA-1 of the
  handshake, the database layer, tracing, the middleware collection but for static files, the remaining pipeline stages, gRPC, the WebSocket
  server around the handler, bitsets and the spatial grid are not covered, nor are the examples and benchmarks.
\<close>

end
